(* ===== verification/Mq_Prelude.thy ===== *)
theory Mq_Prelude
  imports "HOL-Library.Word" "HOL-Library.List_Lexorder"
begin

text \<open>
  Shared vocabulary of the development: machine integers as words, byte
  strings, the two-outcome result type of the Rust sources, the little- and
  big-endian codecs every on-disk structure uses, the lexicographic order of
  byte strings (Rust's slice order, which is what the B+ trees sort by), and
  the generic list lemmas the components share.
\<close>

unbundle bit_operations_syntax

section \<open>Machine types\<close>

type_synonym u8 = "8 word"
type_synonym u16 = "16 word"
type_synonym u32 = "32 word"
type_synonym u64 = "64 word"
type_synonym i32 = "32 word"
type_synonym i64 = "64 word"
type_synonym bytes = "u8 list"

text \<open>Facts that unfold the byte codecs, the result monad, and the rules that
  carry invariants through operations.\<close>

named_theorems codec_simps \<open>length and round-trip facts of the byte codecs\<close>
named_theorems result_simps \<open>evaluation of the result combinators\<close>
named_theorems inv_rules \<open>preservation of component invariants\<close>

section \<open>Results\<close>

text \<open>A Rust \<open>Result<T, E>\<close> is \<open>'e + 'a\<close>; the \<open>?\<close> operator is \<open>rbind\<close> and an early
  \<open>return Err(e)\<close> behind a condition is \<open>rguard\<close>.\<close>

definition rbind :: "'e + 'a \<Rightarrow> ('a \<Rightarrow> 'e + 'b) \<Rightarrow> 'e + 'b" where
  "rbind m f = (case m of Inl e \<Rightarrow> Inl e | Inr x \<Rightarrow> f x)"

definition rguard :: "bool \<Rightarrow> 'e \<Rightarrow> 'e + unit" where
  "rguard b e = (if b then Inr () else Inl e)"

definition ok_or :: "'e \<Rightarrow> 'a option \<Rightarrow> 'e + 'a" where
  "ok_or e x = (case x of None \<Rightarrow> Inl e | Some y \<Rightarrow> Inr y)"

fun is_ok :: "'e + 'a \<Rightarrow> bool" where
  "is_ok (Inr _) = True"
| "is_ok (Inl _) = False"

lemma rbind_simps [simp, result_simps]:
  "rbind (Inl e) f = Inl e"
  "rbind (Inr x) f = f x"
  by (simp_all add: rbind_def)

lemma rguard_simps [simp, result_simps]:
  "rguard True e = Inr ()"
  "rguard False e = Inl e"
  by (simp_all add: rguard_def)

lemma rguard_Inr_iff [simp]: "rguard b e = Inr u \<longleftrightarrow> b"
  by (simp add: rguard_def)

lemma rguard_Inl_iff [simp]: "rguard b e = Inl e' \<longleftrightarrow> \<not> b \<and> e' = e"
  by (auto simp: rguard_def)

lemma ok_or_simps [simp, result_simps]:
  "ok_or e None = Inl e"
  "ok_or e (Some x) = Inr x"
  by (simp_all add: ok_or_def)

lemma rbind_Inr_iff: "rbind m f = Inr y \<longleftrightarrow> (\<exists>x. m = Inr x \<and> f x = Inr y)"
  by (cases m) simp_all

lemma rbind_rguard_Inr [simp]: "rbind (rguard b e) f = Inr y \<longleftrightarrow> b \<and> f () = Inr y"
  by (simp add: rguard_def)

lemma rbind_guard_True: "b \<Longrightarrow> rbind (rguard b e) f = f ()"
  by simp

lemma rbind_guard_False: "\<not> b \<Longrightarrow> rbind (rguard b e) f = Inl e"
  by simp

section \<open>Machine arithmetic\<close>

text \<open>\<open>checked_add\<close> and \<open>saturating_sub\<close> of the unsigned Rust integers.\<close>

definition checked_add :: "'a::len word \<Rightarrow> 'a word \<Rightarrow> 'a word option" where
  "checked_add a b = (if unat a + unat b < 2 ^ LENGTH('a) then Some (a + b) else None)"

definition saturating_sub :: "'a::len word \<Rightarrow> 'a word \<Rightarrow> 'a word" where
  "saturating_sub a b = (if b \<le> a then a - b else 0)"

definition saturating_add :: "'a::len word \<Rightarrow> 'a word \<Rightarrow> 'a word" where
  "saturating_add a b = (case checked_add a b of None \<Rightarrow> - 1 | Some c \<Rightarrow> c)"

lemma checked_add_Some:
  "checked_add a b = Some c \<Longrightarrow> unat c = unat a + unat b"
  by (auto simp: checked_add_def unat_word_ariths split: if_splits)

lemma checked_add_None_iff:
  fixes a b :: "'a::len word"
  shows "checked_add a b = None \<longleftrightarrow> 2 ^ LENGTH('a) \<le> unat a + unat b"
  by (auto simp: checked_add_def)

lemma unat_lt_size: "unat (w::'a::len word) < 2 ^ LENGTH('a)"
  by (rule unsigned_less)

lemma word_le_max: "(w::'a::len word) \<le> - 1"
  by simp

lemma unat_plus_one:
  fixes a :: "'a::len word"
  assumes "a \<noteq> - 1"
  shows "unat (a + 1) = unat a + 1"
proof -
  have "a + 1 \<noteq> 0" using assms by (metis add.commute add_eq_0_iff)
  then show ?thesis by (simp add: add.commute unatSuc)
qed

lemma word_less_succ_iff:
  fixes a b :: "'a::len word"
  assumes "a \<noteq> - 1"
  shows "b < a + 1 \<longleftrightarrow> b \<le> a"
  using unat_plus_one [OF assms] by (simp add: word_less_nat_alt word_le_nat_alt less_Suc_eq_le)

lemma word_less_plus_one:
  fixes a :: "'a::len word"
  assumes "a \<noteq> - 1"
  shows "a < a + 1"
  using word_less_succ_iff [OF assms] by simp

lemma checked_add_one:
  fixes a :: "'a::len word"
  shows "checked_add a 1 = (if a = - 1 then None else Some (a + 1))"
proof (cases "a = - 1")
  case True
  then show ?thesis
    by (simp add: checked_add_None_iff unsigned_minus_1_eq_mask mask_eq_exp_minus_1)
next
  case False
  then have "unat a + 1 < 2 ^ LENGTH('a)" using unat_plus_one [OF False] unat_lt_size [of "a + 1"] by simp
  then show ?thesis using False by (simp add: checked_add_def)
qed

section \<open>Byte codecs\<close>

text \<open>\<open>le_of_nat n x\<close> is the \<open>n\<close>-byte little-endian image of \<open>x\<close>, truncated as a
  Rust \<open>as\<close> cast truncates; \<open>nat_of_le\<close> reads it back. Big-endian is the
  reversal.\<close>

primrec le_of_nat :: "nat \<Rightarrow> nat \<Rightarrow> bytes" where
  "le_of_nat 0 x = []"
| "le_of_nat (Suc n) x = word_of_nat x # le_of_nat n (x div 256)"

primrec nat_of_le :: "bytes \<Rightarrow> nat" where
  "nat_of_le [] = 0"
| "nat_of_le (b # bs) = unat b + 256 * nat_of_le bs"

definition be_of_nat :: "nat \<Rightarrow> nat \<Rightarrow> bytes" where
  "be_of_nat n x = rev (le_of_nat n x)"

definition nat_of_be :: "bytes \<Rightarrow> nat" where
  "nat_of_be bs = nat_of_le (rev bs)"

lemma length_le_of_nat [simp, codec_simps]: "length (le_of_nat n x) = n"
  by (induction n arbitrary: x) simp_all

lemma length_be_of_nat [simp, codec_simps]: "length (be_of_nat n x) = n"
  by (simp add: be_of_nat_def)

lemma unat_word_of_nat_u8 [simp]: "unat (word_of_nat x :: u8) = x mod 256"
  by (simp add: unat_of_nat take_bit_eq_mod)

lemma nat_of_le_of_nat: "nat_of_le (le_of_nat n x) = x mod 256 ^ n"
proof (induction n arbitrary: x)
  case (Suc n)
  have "x mod (256 * 256 ^ n) = x mod 256 + 256 * (x div 256 mod 256 ^ n)"
    by (metis add.commute mod_mult2_eq)
  then show ?case using Suc by simp
qed simp

lemma nat_of_le_inverse [codec_simps]: "x < 256 ^ n \<Longrightarrow> nat_of_le (le_of_nat n x) = x"
  by (simp add: nat_of_le_of_nat)

lemma nat_of_be_inverse [codec_simps]: "x < 256 ^ n \<Longrightarrow> nat_of_be (be_of_nat n x) = x"
  by (simp add: nat_of_be_def be_of_nat_def nat_of_le_inverse)

lemma unat_u8_less [simp]: "unat (b::u8) < 256"
  using unsigned_less [of b] by simp

lemma nat_of_le_less: "nat_of_le bs < 256 ^ length bs"
proof (induction bs)
  case (Cons b bs)
  have "unat b < 256" by (rule unat_u8_less)
  moreover have "nat_of_le bs + 1 \<le> 256 ^ length bs" using Cons by simp
  then have "256 * nat_of_le bs + 256 \<le> 256 * 256 ^ length bs" by simp
  ultimately have "unat b + 256 * nat_of_le bs < 256 * 256 ^ length bs" by linarith
  then show ?case by simp
qed simp

lemma nat_of_be_less: "nat_of_be bs < 256 ^ length bs"
  using nat_of_le_less [of "rev bs"] by (simp add: nat_of_be_def)

lemma le_of_nat_inverse [codec_simps]: "length bs = n \<Longrightarrow> le_of_nat n (nat_of_le bs) = bs"
proof (induction bs arbitrary: n)
  case (Cons b bs)
  have "unat (word_of_nat (unat b + 256 * nat_of_le bs) :: u8) = unat b"
    by (simp only: unat_word_of_nat_u8) simp
  then have "word_of_nat (unat b + 256 * nat_of_le bs) = b"
    by (simp only: word_unat_eq_iff)
  then show ?case using Cons by auto
qed simp

lemma be_of_nat_inverse [codec_simps]: "length bs = n \<Longrightarrow> be_of_nat n (nat_of_be bs) = bs"
  by (simp add: be_of_nat_def nat_of_be_def le_of_nat_inverse)

text \<open>The order of equal-length big-endian images is the order of the numbers,
  and byte strings of equal-length heads compare head first.\<close>

lemma nat_of_be_Nil [simp]: "nat_of_be [] = 0"
  by (simp add: nat_of_be_def)

lemma nat_of_le_append: "nat_of_le (xs @ ys) = nat_of_le xs + 256 ^ length xs * nat_of_le ys"
  by (induction xs) (simp_all add: algebra_simps)

lemma nat_of_be_Cons: "nat_of_be (x # xs) = unat x * 256 ^ length xs + nat_of_be xs"
  by (simp add: nat_of_be_def nat_of_le_append)

lemma digit_less_iff:
  fixes a b x y m :: nat
  assumes "x < m" "y < m"
  shows "a * m + x < b * m + y \<longleftrightarrow> a < b \<or> a = b \<and> x < y"
proof (cases a b rule: linorder_cases)
  case less
  then have "(a + 1) * m \<le> b * m" by (intro mult_right_mono) simp_all
  then show ?thesis using assms less by simp
next
  case greater
  then have "(b + 1) * m \<le> a * m" by (intro mult_right_mono) simp_all
  then show ?thesis using assms greater by simp
qed simp

lemma be_less_iff:
  "length xs = length ys \<Longrightarrow> xs < ys \<longleftrightarrow> nat_of_be xs < nat_of_be ys"
proof (induction xs ys rule: list_induct2)
  case (Cons x xs y ys)
  have "nat_of_be xs < 256 ^ length xs" "nat_of_be ys < 256 ^ length xs"
    using nat_of_be_less [of xs] nat_of_be_less [of ys] Cons.hyps by simp_all
  then show ?case
    using Cons digit_less_iff
    by (simp add: nat_of_be_Cons word_less_nat_alt word_unat_eq_iff)
qed simp

lemma be_of_nat_less_iff:
  assumes "x < 256 ^ n" "y < 256 ^ n"
  shows "be_of_nat n x < be_of_nat n y \<longleftrightarrow> x < y"
  using assms by (simp add: be_less_iff nat_of_be_inverse)

lemma append_less_iff:
  fixes a b c d :: "'a::linorder list"
  assumes "length a = length c"
  shows "a @ b < c @ d \<longleftrightarrow> a < c \<or> a = c \<and> b < d"
  using assms by (induction a c rule: list_induct2) auto

lemma append_same_less_iff [simp]:
  fixes a b d :: "'a::linorder list"
  shows "a @ b < a @ d \<longleftrightarrow> b < d"
  by (induction a) simp_all

text \<open>The integer codecs of the source, by width.\<close>

definition u16_to_le_bytes :: "u16 \<Rightarrow> bytes" where "u16_to_le_bytes w = le_of_nat 2 (unat w)"
definition u32_to_le_bytes :: "u32 \<Rightarrow> bytes" where "u32_to_le_bytes w = le_of_nat 4 (unat w)"
definition u64_to_le_bytes :: "u64 \<Rightarrow> bytes" where "u64_to_le_bytes w = le_of_nat 8 (unat w)"
definition u32_to_be_bytes :: "u32 \<Rightarrow> bytes" where "u32_to_be_bytes w = be_of_nat 4 (unat w)"
definition u64_to_be_bytes :: "u64 \<Rightarrow> bytes" where "u64_to_be_bytes w = be_of_nat 8 (unat w)"
definition u16_from_le_bytes :: "bytes \<Rightarrow> u16" where "u16_from_le_bytes b = word_of_nat (nat_of_le b)"
definition u32_from_le_bytes :: "bytes \<Rightarrow> u32" where "u32_from_le_bytes b = word_of_nat (nat_of_le b)"
definition u64_from_le_bytes :: "bytes \<Rightarrow> u64" where "u64_from_le_bytes b = word_of_nat (nat_of_le b)"
definition u32_from_be_bytes :: "bytes \<Rightarrow> u32" where "u32_from_be_bytes b = word_of_nat (nat_of_be b)"
definition u64_from_be_bytes :: "bytes \<Rightarrow> u64" where "u64_from_be_bytes b = word_of_nat (nat_of_be b)"

lemmas int_codec_defs =
  u16_to_le_bytes_def u32_to_le_bytes_def u64_to_le_bytes_def u32_to_be_bytes_def
  u64_to_be_bytes_def u16_from_le_bytes_def u32_from_le_bytes_def u64_from_le_bytes_def
  u32_from_be_bytes_def u64_from_be_bytes_def

lemma int_codec_length [simp, codec_simps]:
  "length (u16_to_le_bytes a) = 2"
  "length (u32_to_le_bytes b) = 4"
  "length (u64_to_le_bytes c) = 8"
  "length (u32_to_be_bytes b) = 4"
  "length (u64_to_be_bytes c) = 8"
  by (simp_all add: int_codec_defs)

lemma unat_u16_less: "unat (a::u16) < 256 ^ 2" using unsigned_less [of a] by simp
lemma unat_u32_less: "unat (a::u32) < 256 ^ 4" using unsigned_less [of a] by simp
lemma unat_u64_less: "unat (a::u64) < 256 ^ 8" using unsigned_less [of a] by simp

lemma int_codec_roundtrip [simp, codec_simps]:
  "u16_from_le_bytes (u16_to_le_bytes a) = a"
  "u32_from_le_bytes (u32_to_le_bytes b) = b"
  "u64_from_le_bytes (u64_to_le_bytes c) = c"
  "u32_from_be_bytes (u32_to_be_bytes b) = b"
  "u64_from_be_bytes (u64_to_be_bytes c) = c"
  using unat_u16_less [of a] unat_u32_less [of b] unat_u64_less [of c]
  by (simp_all add: int_codec_defs nat_of_le_inverse nat_of_be_inverse del: power_numeral)

lemma u32_be_less_iff: "u32_to_be_bytes a < u32_to_be_bytes b \<longleftrightarrow> a < b"
  by (simp add: u32_to_be_bytes_def be_of_nat_less_iff unat_u32_less word_less_nat_alt del: power_numeral)

lemma u64_be_less_iff: "u64_to_be_bytes a < u64_to_be_bytes b \<longleftrightarrow> a < b"
  by (simp add: u64_to_be_bytes_def be_of_nat_less_iff unat_u64_less word_less_nat_alt del: power_numeral)

lemma int_codec_inj [simp]:
  "u16_to_le_bytes a = u16_to_le_bytes a' \<longleftrightarrow> a = a'"
  "u32_to_le_bytes b = u32_to_le_bytes b' \<longleftrightarrow> b = b'"
  "u64_to_le_bytes c = u64_to_le_bytes c' \<longleftrightarrow> c = c'"
  "u32_to_be_bytes b = u32_to_be_bytes b' \<longleftrightarrow> b = b'"
  "u64_to_be_bytes c = u64_to_be_bytes c' \<longleftrightarrow> c = c'"
  by (metis int_codec_roundtrip)+

lemma int_codec_surj:
  "length bs = 2 \<Longrightarrow> u16_to_le_bytes (u16_from_le_bytes bs) = bs"
  "length bs = 4 \<Longrightarrow> u32_to_le_bytes (u32_from_le_bytes bs) = bs"
  "length bs = 8 \<Longrightarrow> u64_to_le_bytes (u64_from_le_bytes bs) = bs"
  "length bs = 4 \<Longrightarrow> u32_to_be_bytes (u32_from_be_bytes bs) = bs"
  "length bs = 8 \<Longrightarrow> u64_to_be_bytes (u64_from_be_bytes bs) = bs"
  using nat_of_le_less [of bs] nat_of_be_less [of bs]
  by (simp_all add: int_codec_defs unat_of_nat take_bit_eq_mod le_of_nat_inverse be_of_nat_inverse)

section \<open>Complement and sign\<close>

unbundle bit_operations_syntax

lemma unat_not: "unat (NOT w) = 2 ^ LENGTH('a) - 1 - unat (w :: 'a::len word)"
proof -
  have "NOT w = - 1 - w" by (simp add: not_eq_complement)
  moreover have "unat (- 1 - w) = unat (- 1 :: 'a word) - unat w" by (rule unat_sub) simp
  moreover have "unat (- 1 :: 'a word) = 2 ^ LENGTH('a) - 1"
    by (simp add: unsigned_minus_1_eq_mask mask_eq_exp_minus_1)
  ultimately show ?thesis by simp
qed

lemma not_word_less_iff: "NOT a < NOT b \<longleftrightarrow> b < (a :: 'a::len word)"
proof -
  have ar: "(m - 1 - x < m - 1 - y) = (y < x)" if "x < m" "y < m" for m x y :: nat
    using that by linarith
  have "unat a < 2 ^ LENGTH('a)" "unat b < 2 ^ LENGTH('a)" by (rule unsigned_less)+
  then show ?thesis by (simp only: word_less_nat_alt unat_not ar)
qed

lemma sint_64: "sint (w :: 64 word) = (if uint w < 2 ^ 63 then uint w else uint w - 2 ^ 64)"
proof -
  have lt: "uint w < 2 ^ 64" "0 \<le> uint w" using uint_lt2p [of w] by simp_all
  have "sint w = take_bit 64 (uint w + 2 ^ 63) - 2 ^ 63"
    by (simp add: sint_uint signed_take_bit_eq_take_bit_shift)
  then have s: "sint w = (uint w + 2 ^ 63) mod 2 ^ 64 - 2 ^ 63" by (simp add: take_bit_eq_mod)
  show ?thesis
  proof (cases "uint w < 2 ^ 63")
    case True
    then show ?thesis using s lt by (simp add: mod_pos_pos_trivial)
  next
    case False
    then have "(uint w + 2 ^ 63) mod 2 ^ 64 = uint w + 2 ^ 63 - 2 ^ 64"
      using lt by (simp add: mod_pos_geq mod_pos_pos_trivial)
    then show ?thesis using s False by simp
  qed
qed

end
