(* ===== verification/Errors.thy ===== *)
theory Errors
  imports Mq_Prelude
begin

text \<open>
  The error type of the crate (\<open>src/src/error.rs\<close>). Every fallible operation of
  the model returns \<open>error + 'a\<close>. A message string is kept as the fixed part of
  the text; values interpolated into a message are not part of the model.
  Errors of other crates (\<open>std::io\<close>, \<open>bson\<close>) are carried as their text. A Rust
  panic (an out-of-range slice, an overflowing remainder) is the outcome
  \<open>Panic\<close>, which no operation of the model catches.
\<close>

datatype write_conflict_reason =
    StaleSnapshot
  | UpgradeRace
  | SameKeyConflict bytes
  | CatalogGenerationChanged
  | StructuralContention
  | UniqueConflict bytes

datatype pool_exhausted_reason = AllFramesPinned | DeltaBearingFrames

datatype engine_fatal_reason =
    PostReservationLogWriteFailure
  | PostDurablePublishFailure
  | PostDurablePendingFlipFailure
  | PostDurableDdlPublishFailure
  | CheckpointPostMutationFailure
  | PreDurableAbortFlipFailure

datatype checkpoint_incomplete_reason =
    FrameCoWRefused
  | OverflowSpillNotWired
  | VisibleWinnerExceedsPageBudget
  | TombstonePredecessorPressure
  | CIPoolExhausted pool_exhausted_reason
  | HistoryDuplicateConflict
  | HistoryDuplicateCapExceeded
  | ReachabilityRepairRequired

datatype (plugins only: code size) error =
    Io string
  | BsonSerialization string
  | BsonDeserialization string
  | WriterBusy
  | WriteConflict write_conflict_reason
  | UnsupportedOperator string
  | UnsupportedCommand string
  | CorruptDatabase string string bool
  | DiskFull string u64 u64 string
  | DuplicateKey string
  | CollectionNotFound string
  | CursorNotFound i64
  | Internal string
  | InvalidWireMessage string
  | DocumentValidationFailure string
  | DocumentTooLarge nat nat
  | SymlinkRejected string
  | UnsupportedIndexOption string string
  | InvalidConfig string string
  | InvalidQuery string
  | UnsupportedJournalFormat bytes bytes
  | TimestampExhausted
  | RefcountOverflow
  | ReadViewExpired
  | StatePoisoned string
  | CatalogParse string string
  | UpdateOperatorTypeMismatch string string string
  | JournalFrameTooLarge nat nat
  | BufferPoolEvictionBlocked u32 string
  | RecoveryPoolExhausted
  | PoolExhausted pool_exhausted_reason
  | Recovery string
  | CheckpointIncomplete u32 checkpoint_incomplete_reason
  | EngineFatal engine_fatal_reason
  | Panic string

type_synonym 'a result = "error + 'a"

text \<open>\<open>Error::code\<close>: the MongoDB error code a wire reply carries.\<close>

definition ILLEGAL_OP :: int where "ILLEGAL_OP = 48"
definition INTERNAL_ERROR :: int where "INTERNAL_ERROR = 1"
definition BAD_VALUE :: int where "BAD_VALUE = 2"
definition DUPLICATE_KEY :: int where "DUPLICATE_KEY = 11000"
definition CURSOR_NOT_FOUND :: int where "CURSOR_NOT_FOUND = 43"
definition NAMESPACE_NOT_FOUND :: int where "NAMESPACE_NOT_FOUND = 26"
definition UNSUPPORTED_OPERATOR :: int where "UNSUPPORTED_OPERATOR = 9"
definition CANNOT_CREATE_INDEX :: int where "CANNOT_CREATE_INDEX = 67"
definition DOCUMENT_VALIDATION_FAILURE :: int where "DOCUMENT_VALIDATION_FAILURE = 121"
definition DOCUMENT_TOO_LARGE :: int where "DOCUMENT_TOO_LARGE = 10334"

definition error_code :: "error \<Rightarrow> int option" where
  "error_code e = (case e of
      DuplicateKey _ \<Rightarrow> Some DUPLICATE_KEY
    | CollectionNotFound _ \<Rightarrow> Some NAMESPACE_NOT_FOUND
    | CursorNotFound _ \<Rightarrow> Some CURSOR_NOT_FOUND
    | Internal _ \<Rightarrow> Some INTERNAL_ERROR
    | DocumentValidationFailure _ \<Rightarrow> Some DOCUMENT_VALIDATION_FAILURE
    | DocumentTooLarge _ _ \<Rightarrow> Some DOCUMENT_TOO_LARGE
    | SymlinkRejected _ \<Rightarrow> Some BAD_VALUE
    | InvalidWireMessage _ \<Rightarrow> Some ILLEGAL_OP
    | UnsupportedOperator _ \<Rightarrow> Some UNSUPPORTED_OPERATOR
    | UnsupportedIndexOption _ _ \<Rightarrow> Some CANNOT_CREATE_INDEX
    | InvalidConfig _ _ \<Rightarrow> Some BAD_VALUE
    | InvalidQuery _ \<Rightarrow> Some BAD_VALUE
    | _ \<Rightarrow> None)"

end
