(* ===== verification/Timestamp.thy ===== *)
theory Timestamp
  imports Errors
begin

text \<open>
  Hybrid logical clock timestamps (\<open>src/src/mvcc/timestamp.rs\<close>): the pair \<open>Ts\<close>
  with its derived lexicographic order, its two byte images, the timestamp
  oracle that allocates commit timestamps, and the seqlock cell \<open>AtomicTs\<close>
  through which readers learn the published frontier.
\<close>

section \<open>Timestamps\<close>

datatype ts = Ts (physical_ms: u64) (logical: u32)

text \<open>\<open>derive(PartialOrd, Ord)\<close> compares the fields in declaration order.\<close>

instantiation ts :: linorder
begin

definition less_ts :: "ts \<Rightarrow> ts \<Rightarrow> bool" where
  "less_ts a b \<longleftrightarrow>
     physical_ms a < physical_ms b \<or> physical_ms a = physical_ms b \<and> logical a < logical b"

definition less_eq_ts :: "ts \<Rightarrow> ts \<Rightarrow> bool" where
  "less_eq_ts a b \<longleftrightarrow> a < b \<or> a = b"

instance
proof
  fix x y z :: ts
  show "x < y \<longleftrightarrow> x \<le> y \<and> \<not> y \<le> x"
    by (auto simp: less_ts_def less_eq_ts_def)
  show "x \<le> x" by (simp add: less_eq_ts_def)
  show "x \<le> y \<Longrightarrow> y \<le> z \<Longrightarrow> x \<le> z"
    by (auto simp: less_ts_def less_eq_ts_def)
  show "x \<le> y \<Longrightarrow> y \<le> x \<Longrightarrow> x = y"
    by (auto simp: less_ts_def less_eq_ts_def)
  show "x \<le> y \<or> y \<le> x"
    by (cases x; cases y) (auto simp: less_ts_def less_eq_ts_def)
qed

end

definition ts_default :: ts where "ts_default = Ts 0 0"
definition ts_max :: ts where "ts_max = Ts (- 1) (- 1)"

text \<open>\<open>Ts::successor\<close>.\<close>

fun successor :: "ts \<Rightarrow> ts option" where
  "successor (Ts p l) =
     (if l < - 1 then Some (Ts p (l + 1))
      else if p < - 1 then Some (Ts (p + 1) 0)
      else None)"

definition ts_to_le_bytes :: "ts \<Rightarrow> bytes" where
  "ts_to_le_bytes t = u64_to_le_bytes (physical_ms t) @ u32_to_le_bytes (logical t)"

definition ts_from_le_bytes :: "bytes \<Rightarrow> ts" where
  "ts_from_le_bytes b = Ts (u64_from_le_bytes (take 8 b)) (u32_from_le_bytes (take 4 (drop 8 b)))"

definition ts_to_be_bytes :: "ts \<Rightarrow> bytes" where
  "ts_to_be_bytes t = u64_to_be_bytes (physical_ms t) @ u32_to_be_bytes (logical t)"

definition ts_from_be_bytes :: "bytes \<Rightarrow> ts" where
  "ts_from_be_bytes b = Ts (u64_from_be_bytes (take 8 b)) (u32_from_be_bytes (take 4 (drop 8 b)))"

section \<open>The oracle\<close>

text \<open>\<open>HlcState\<close> is the mutex-protected state; every operation runs under the
  lock, so a run of the oracle is a sequence of whole operations. The wall
  clock is the argument \<open>wall\<close>, the value \<open>now_ms\<close> returned.\<close>

record hlc_state =
  hlc_physical_ms :: u64
  hlc_logical :: u32

definition hlc_default :: hlc_state where
  "hlc_default = \<lparr>hlc_physical_ms = 0, hlc_logical = 0\<rparr>"

definition oracle_now :: "hlc_state \<Rightarrow> ts" where
  "oracle_now st = Ts (hlc_physical_ms st) (hlc_logical st)"

definition oracle_commit :: "u64 \<Rightarrow> hlc_state \<Rightarrow> ts result \<times> hlc_state" where
  "oracle_commit wall st =
     (if wall > hlc_physical_ms st
      then let st' = \<lparr>hlc_physical_ms = wall, hlc_logical = 0\<rparr> in (Inr (oracle_now st'), st')
      else if hlc_logical st = - 1 then (Inl TimestampExhausted, st)
      else let st' = st\<lparr>hlc_logical := hlc_logical st + 1\<rparr> in (Inr (oracle_now st'), st'))"

definition oracle_advance :: "ts \<Rightarrow> hlc_state \<Rightarrow> unit result \<times> hlc_state" where
  "oracle_advance received st = (Inr (), st)"

definition oracle_set_min :: "ts \<Rightarrow> hlc_state \<Rightarrow> hlc_state" where
  "oracle_set_min mn st =
     (if mn > oracle_now st
      then \<lparr>hlc_physical_ms = physical_ms mn, hlc_logical = logical mn\<rparr> else st)"

datatype oracle_op = OCommit u64 | OAdvance ts | OSetMin ts

text \<open>A run of the oracle: the timestamps handed out, in order.\<close>

fun oracle_run :: "oracle_op list \<Rightarrow> hlc_state \<Rightarrow> ts list \<times> hlc_state" where
  "oracle_run [] st = ([], st)"
| "oracle_run (OCommit w # ops) st =
     (let (r, st1) = oracle_commit w st; (out, st2) = oracle_run ops st1
      in (case r of Inl _ \<Rightarrow> out | Inr t \<Rightarrow> t # out, st2))"
| "oracle_run (OAdvance t # ops) st = oracle_run ops (snd (oracle_advance t st))"
| "oracle_run (OSetMin t # ops) st = oracle_run ops (oracle_set_min t st)"

section \<open>Facts about timestamps\<close>

lemma ts_le_max [simp]: "t \<le> ts_max"
  using word_le_max [of "physical_ms t"] word_le_max [of "logical t"]
  by (cases t) (auto simp: ts_max_def less_eq_ts_def less_ts_def order_le_less simp del: word_n1_ge)

lemma ts_not_max_less [simp]: "\<not> ts_max < t"
  using ts_le_max [of t] by (simp add: not_less)

lemma ts_less_max_iff: "t < ts_max \<longleftrightarrow> t \<noteq> ts_max"
  by (simp add: order_less_le)

lemma ts_default_le [simp]: "ts_default \<le> t"
  by (cases t) (auto simp: ts_default_def less_eq_ts_def less_ts_def order_le_less word_gt_0)

lemma length_ts_bytes [simp, codec_simps]:
  "length (ts_to_le_bytes t) = 12" "length (ts_to_be_bytes t) = 12"
  by (simp_all add: ts_to_le_bytes_def ts_to_be_bytes_def)

lemma ts_bytes_roundtrip [simp, codec_simps]:
  "ts_from_le_bytes (ts_to_le_bytes t) = t"
  "ts_from_be_bytes (ts_to_be_bytes t) = t"
  by (simp_all add: ts_to_le_bytes_def ts_from_le_bytes_def ts_to_be_bytes_def ts_from_be_bytes_def)

lemma ts_be_less_iff: "ts_to_be_bytes a < ts_to_be_bytes b \<longleftrightarrow> a < b"
  by (simp add: ts_to_be_bytes_def append_less_iff u64_be_less_iff u32_be_less_iff less_ts_def)

lemma ts_be_inj [simp]: "ts_to_be_bytes a = ts_to_be_bytes b \<longleftrightarrow> a = b"
  by (metis ts_bytes_roundtrip(2))

lemma ts_be_le_iff: "ts_to_be_bytes a \<le> ts_to_be_bytes b \<longleftrightarrow> a \<le> b"
  by (auto simp: order_le_less ts_be_less_iff)

lemma ts_from_to_be: "length b = 12 \<Longrightarrow> ts_to_be_bytes (ts_from_be_bytes b) = b"
  using int_codec_surj(5) [of "take 8 b"] int_codec_surj(4) [of "drop 8 b"] append_take_drop_id [of 8 b]
  by (simp add: ts_to_be_bytes_def ts_from_be_bytes_def)

lemma ts_from_to_le: "length b = 12 \<Longrightarrow> ts_to_le_bytes (ts_from_le_bytes b) = b"
  using int_codec_surj(3) [of "take 8 b"] int_codec_surj(2) [of "drop 8 b"] append_take_drop_id [of 8 b]
  by (simp add: ts_to_le_bytes_def ts_from_le_bytes_def)

lemma successor_None_iff: "successor t = None \<longleftrightarrow> t = ts_max"
  using word_le_max [of "physical_ms t"] word_le_max [of "logical t"]
  by (cases t) (auto simp: ts_max_def order_le_less simp del: word_n1_ge)

lemma successor_least:
  assumes "successor t = Some t'"
  shows "t < u \<longleftrightarrow> t' \<le> u"
proof (cases t; cases u)
  fix p l q m
  assume t: "t = Ts p l" and u: "u = Ts q m"
  show ?thesis
  proof (cases "l < - 1")
    case True
    then have "m < l + 1 \<longleftrightarrow> m \<le> l" by (intro word_less_succ_iff) auto
    then have "l < m \<longleftrightarrow> l + 1 \<le> m" by (auto simp: not_less [symmetric])
    then show ?thesis using assms t u True by (auto simp: less_ts_def less_eq_ts_def order_le_less)
  next
    case False
    then have l: "l = - 1" using word_le_max [of l] by (simp add: order_le_less)
    then have p: "p \<noteq> - 1" and t': "t' = Ts (p + 1) 0" using assms t by (auto split: if_splits)
    have "p < q \<longleftrightarrow> p + 1 \<le> q" using word_less_succ_iff [OF p] by (auto simp: not_less [symmetric])
    then show ?thesis using t u l t' by (auto simp: less_ts_def less_eq_ts_def order_le_less word_gt_0)
  qed
qed

section \<open>Clocks that hand out increasing timestamps\<close>

text \<open>What the publish sequencer relies on: a successful tick returns a timestamp
  strictly above everything the clock has shown, and shows it from then on; a
  failed tick shows nothing new.\<close>

fun clock_run :: "('w \<Rightarrow> 's \<Rightarrow> ts result \<times> 's) \<Rightarrow> 'w list \<Rightarrow> 's \<Rightarrow> ts list" where
  "clock_run tick [] s = []"
| "clock_run tick (w # ws) s =
     (case tick w s of (Inl _, s') \<Rightarrow> clock_run tick ws s' | (Inr t, s') \<Rightarrow> t # clock_run tick ws s')"

locale commit_clock =
  fixes tick :: "'w \<Rightarrow> 's \<Rightarrow> ts result \<times> 's" and shown :: "'s \<Rightarrow> ts"
  assumes tick_ok: "tick w s = (Inr t, s') \<Longrightarrow> shown s < t \<and> shown s' = t"
    and tick_err: "tick w s = (Inl e, s') \<Longrightarrow> shown s' = shown s"
begin

lemma shown_mono: "shown s \<le> shown (snd (tick w s))"
  using tick_ok [of w s] tick_err [of w s]
  by (cases "tick w s"; cases "fst (tick w s)") force+

lemma run_above: "t \<in> set (clock_run tick ws s) \<Longrightarrow> shown s < t"
proof (induction ws arbitrary: s)
  case (Cons w ws)
  obtain r s' where r: "tick w s = (r, s')" by (cases "tick w s") auto
  show ?case
  proof (cases r)
    case (Inl e)
    then have "shown s' < t" using Cons.prems r by (auto intro: Cons.IH)
    then show ?thesis using Inl r tick_err [of w s e s'] by simp
  next
    case (Inr u)
    then have "t = u \<or> shown s' < t" using Cons.prems r by (auto intro: Cons.IH)
    then show ?thesis using Inr r tick_ok [of w s u s'] by auto
  qed
qed simp

lemma run_strictly_increasing: "sorted_wrt (<) (clock_run tick ws s)"
proof (induction ws arbitrary: s)
  case (Cons w ws)
  obtain r s' where r: "tick w s = (r, s')" by (cases "tick w s") auto
  show ?case
    using Cons r tick_ok [of w s _ s'] run_above by (cases r) auto
qed simp

end

lemma oracle_commit_ok:
  assumes "oracle_commit w st = (Inr t, st')"
  shows "oracle_now st < t \<and> oracle_now st' = t"
proof (cases "w > hlc_physical_ms st")
  case False
  then have "hlc_logical st \<noteq> - 1" using assms by (auto simp: oracle_commit_def)
  then show ?thesis using assms False word_less_plus_one [of "hlc_logical st"]
    by (auto simp: oracle_commit_def oracle_now_def less_ts_def)
qed (use assms in \<open>auto simp: oracle_commit_def oracle_now_def less_ts_def\<close>)

lemma oracle_commit_err:
  "oracle_commit w st = (Inl e, st') \<Longrightarrow>
     st' = st \<and> e = TimestampExhausted \<and> w \<le> hlc_physical_ms st \<and> hlc_logical st = - 1"
  by (auto simp: oracle_commit_def not_less Let_def split: if_splits)

interpretation hlc: commit_clock oracle_commit oracle_now
proof
  show "oracle_now s < t \<and> oracle_now s' = t" if "oracle_commit w s = (Inr t, s')" for w s t s'
    using oracle_commit_ok [OF that] .
  show "oracle_now s' = oracle_now s" if "oracle_commit w s = (Inl e, s')" for w s e s'
    using oracle_commit_err [OF that] by simp
qed

lemma oracle_set_min_now: "oracle_now (oracle_set_min mn st) = max mn (oracle_now st)"
  by (cases mn) (auto simp: oracle_set_min_def oracle_now_def max_def)

text \<open>Every timestamp of a run lies above the clock's start and the run is
  strictly increasing, whatever the wall clock and the recovery floors do.\<close>

lemma oracle_run_above: "t \<in> set (fst (oracle_run ops st)) \<Longrightarrow> oracle_now st < t"
proof (induction ops st rule: oracle_run.induct)
  case (2 w ops st)
  obtain r st1 where r: "oracle_commit w st = (r, st1)" by (cases "oracle_commit w st") auto
  have "oracle_now st \<le> oracle_now st1" using hlc.shown_mono [of st w] r by simp
  moreover have "t \<in> set (fst (oracle_run ops st1)) \<Longrightarrow> oracle_now st1 < t"
    using "2.IH" [OF r [symmetric]] r by (metis prod.collapse)
  ultimately show ?case
    using "2.prems" r oracle_commit_ok [of w st _ st1]
    by (cases r) (auto simp: Let_def split: prod.splits)
next
  case (3 u ops st)
  then show ?case by (simp add: oracle_advance_def)
next
  case (4 u ops st)
  then show ?case using oracle_set_min_now [of u st] by (simp add: max_def split: if_splits)
qed simp

lemma oracle_run_sorted: "sorted_wrt (<) (fst (oracle_run ops st))"
proof (induction ops st rule: oracle_run.induct)
  case (2 w ops st)
  obtain r st1 where r: "oracle_commit w st = (r, st1)" by (cases "oracle_commit w st") auto
  obtain out st2 where o: "oracle_run ops st1 = (out, st2)" by (cases "oracle_run ops st1") auto
  have "sorted_wrt (<) out" using "2.IH" [OF r [symmetric]] o by simp
  moreover have "r = Inr t \<Longrightarrow> u \<in> set out \<Longrightarrow> t < u" for t u
    using oracle_run_above [of u ops st1] oracle_commit_ok [of w st t st1] r o by simp
  ultimately show ?case using r o by (cases r) (auto simp: Let_def)
next
  case (3 u ops st)
  then show ?case by (simp add: oracle_advance_def)
qed simp_all

section \<open>The seqlock cell\<close>

text \<open>\<open>AtomicTs\<close>: three atomics. Each atomic access is one step, so a load can
  interleave with a store anywhere. The writer is serialised by its callers;
  a load is one reader. Two fields are bookkeeping of the model: \<open>stored\<close> lists
  the values whose store has completed (the initial value first) and \<open>bumps\<close>
  counts the \<open>fetch_add\<close>s on \<open>seq\<close>; no step of the code reads them.\<close>

datatype store_pc = SIdle | SBumped ts | SPhysical ts | SLogical ts

datatype load_pc =
    LStart
  | LSeq u64 nat
  | LPhysical u64 u64 nat
  | LBoth u64 u64 u32 nat
  | LDone ts nat

record atomic_ts =
  a_seq :: u64
  a_physical_ms :: u64
  a_logical :: u32
  a_store :: store_pc
  a_load :: load_pc
  stored :: "ts list"
  bumps :: nat

definition atomic_new :: "ts \<Rightarrow> atomic_ts" where
  "atomic_new t = \<lparr>a_seq = 0, a_physical_ms = physical_ms t, a_logical = logical t,
     a_store = SIdle, a_load = LStart, stored = [t], bumps = 0\<rparr>"

text \<open>The four accesses of \<open>AtomicTs::store\<close>.\<close>

inductive store_step :: "atomic_ts \<Rightarrow> atomic_ts \<Rightarrow> bool" where
  store_bump: "a_store s = SIdle \<Longrightarrow>
     store_step s (s\<lparr>a_seq := a_seq s + 1, a_store := SBumped t, bumps := bumps s + 1\<rparr>)"
| store_physical: "a_store s = SBumped t \<Longrightarrow>
     store_step s (s\<lparr>a_physical_ms := physical_ms t, a_store := SPhysical t\<rparr>)"
| store_logical: "a_store s = SPhysical t \<Longrightarrow>
     store_step s (s\<lparr>a_logical := logical t, a_store := SLogical t\<rparr>)"
| store_done: "a_store s = SLogical t \<Longrightarrow>
     store_step s (s\<lparr>a_seq := a_seq s + 1, a_store := SIdle, bumps := bumps s + 1,
       stored := stored s @ [t]\<rparr>)"

text \<open>The four accesses of \<open>AtomicTs::load\<close>, with its two retries.\<close>

inductive load_step :: "atomic_ts \<Rightarrow> atomic_ts \<Rightarrow> bool" where
  load_odd: "a_load s = LStart \<Longrightarrow> a_seq s mod 2 \<noteq> 0 \<Longrightarrow> load_step s s"
| load_seq: "a_load s = LStart \<Longrightarrow> a_seq s mod 2 = 0 \<Longrightarrow>
     load_step s (s\<lparr>a_load := LSeq (a_seq s) (length (stored s))\<rparr>)"
| load_physical: "a_load s = LSeq s1 n \<Longrightarrow>
     load_step s (s\<lparr>a_load := LPhysical s1 (a_physical_ms s) n\<rparr>)"
| load_logical: "a_load s = LPhysical s1 p n \<Longrightarrow>
     load_step s (s\<lparr>a_load := LBoth s1 p (a_logical s) n\<rparr>)"
| load_retry: "a_load s = LBoth s1 p l n \<Longrightarrow> a_seq s \<noteq> s1 \<Longrightarrow>
     load_step s (s\<lparr>a_load := LStart\<rparr>)"
| load_done: "a_load s = LBoth s1 p l n \<Longrightarrow> a_seq s = s1 \<Longrightarrow>
     load_step s (s\<lparr>a_load := LDone (Ts p l) n\<rparr>)"

inductive_cases store_stepE: "store_step s s'"
inductive_cases load_stepE: "load_step s s'"

inductive atomic_reachable :: "ts \<Rightarrow> atomic_ts \<Rightarrow> bool" for t0 where
  reach_new: "atomic_reachable t0 (atomic_new t0)"
| reach_store: "atomic_reachable t0 s \<Longrightarrow> store_step s s' \<Longrightarrow> atomic_reachable t0 s'"
| reach_load: "atomic_reachable t0 s \<Longrightarrow> load_step s s' \<Longrightarrow> atomic_reachable t0 s'"

text \<open>The invariant: \<open>seq\<close> counts the bumps; it is even exactly when no store is
  under way; a cell at rest holds the last stored value; and a load that
  started after \<open>n\<close> completed stores holds correct parts as long as no bump has
  happened since.\<close>

definition store_inv :: "atomic_ts \<Rightarrow> bool" where
  "store_inv s \<longleftrightarrow>
     a_seq s = word_of_nat (bumps s) \<and> stored s \<noteq> [] \<and>
     bumps s + 2 = 2 * length (stored s) + (if a_store s = SIdle then 0 else 1) \<and>
     (a_store s = SIdle \<longrightarrow> last (stored s) = Ts (a_physical_ms s) (a_logical s)) \<and>
     (\<forall>t. a_store s = SPhysical t \<longrightarrow> a_physical_ms s = physical_ms t) \<and>
     (\<forall>t. a_store s = SLogical t \<longrightarrow> t = Ts (a_physical_ms s) (a_logical s))"

definition started_at :: "atomic_ts \<Rightarrow> u64 \<Rightarrow> nat \<Rightarrow> bool" where
  "started_at s s1 n \<longleftrightarrow> 0 < n \<and> n \<le> length (stored s) \<and> s1 = word_of_nat (2 * n - 2)"

definition unmoved :: "atomic_ts \<Rightarrow> nat \<Rightarrow> bool" where
  "unmoved s n \<longleftrightarrow> bumps s = 2 * n - 2"

fun load_inv :: "atomic_ts \<Rightarrow> load_pc \<Rightarrow> bool" where
  "load_inv s LStart = True"
| "load_inv s (LSeq s1 n) = started_at s s1 n"
| "load_inv s (LPhysical s1 p n) =
     (started_at s s1 n \<and> (unmoved s n \<longrightarrow> p = physical_ms (stored s ! (n - 1))))"
| "load_inv s (LBoth s1 p l n) =
     (started_at s s1 n \<and> (unmoved s n \<longrightarrow> Ts p l = stored s ! (n - 1)))"
| "load_inv s (LDone t n) =
     (0 < n \<and> n \<le> length (stored s) \<and> (bumps s < 2 ^ 64 \<longrightarrow> t = stored s ! (n - 1)))"

lemma atomic_new_inv: "store_inv (atomic_new t)" "load_inv (atomic_new t) (a_load (atomic_new t))"
  by (simp_all add: store_inv_def atomic_new_def)

lemma store_step_store_inv [inv_rules]:
  assumes "store_step s s'" and "store_inv s"
  shows "store_inv s'"
  using assms(1)
proof (cases rule: store_step.cases)
  case (store_done t)
  then have "Suc (bumps s) = 2 * length (stored s)" using assms(2) by (simp add: store_inv_def)
  then show ?thesis using store_done assms(2)
    by (auto simp: store_inv_def add.commute dest: arg_cong [where f = "word_of_nat :: nat \<Rightarrow> u64"])
qed (use assms(2) in \<open>auto simp: store_inv_def add.commute\<close>)

lemma load_step_store_inv [inv_rules]:
  assumes "load_step s s'" and "store_inv s"
  shows "store_inv s'"
  using assms by (cases rule: load_step.cases) (auto simp: store_inv_def)

lemma unmoved_idle:
  assumes "store_inv s" and "n \<le> length (stored s)" and "unmoved s n" and "0 < n"
  shows "a_store s = SIdle" and "n = length (stored s)"
  using assms by (auto simp: store_inv_def unmoved_def split: if_splits)

lemma store_step_grows:
  assumes "store_step s s'"
  shows "a_load s' = a_load s" "bumps s \<le> bumps s'" "length (stored s) \<le> length (stored s')"
    "k < length (stored s) \<Longrightarrow> stored s' ! k = stored s ! k"
  using assms by (cases rule: store_step.cases; auto simp: nth_append)+

lemma store_step_moves:
  assumes "store_step s s'" and "store_inv s" and "0 < n" and "n \<le> length (stored s)"
  shows "\<not> unmoved s' n"
proof (rule store_stepE [OF assms(1)])
  fix t assume "s' = s\<lparr>a_physical_ms := physical_ms t, a_store := SPhysical t\<rparr>" "a_store s = SBumped t"
  then show ?thesis using unmoved_idle [OF assms(2,4)] assms(3) by (auto simp: unmoved_def)
next
  fix t assume "s' = s\<lparr>a_logical := logical t, a_store := SLogical t\<rparr>" "a_store s = SPhysical t"
  then show ?thesis using unmoved_idle [OF assms(2,4)] assms(3) by (auto simp: unmoved_def)
qed (use assms in \<open>auto simp: unmoved_def store_inv_def split: if_splits\<close>)

lemma store_step_load_inv [inv_rules]:
  assumes "store_step s s'" and "store_inv s" and "load_inv s (a_load s)"
  shows "load_inv s' (a_load s')"
  using assms(3) store_step_grows [OF assms(1)] store_step_moves [OF assms(1,2)]
  by (cases "a_load s") (auto simp: started_at_def)

lemma even_word_of_nat: "(word_of_nat k :: u64) mod 2 = 0 \<longleftrightarrow> even k"
proof -
  have "unat ((word_of_nat k :: u64) mod 2) = k mod 2"
    by (simp add: unat_mod unat_of_nat take_bit_eq_mod mod_mod_cancel)
  then show ?thesis by (metis even_iff_mod_2_eq_zero unat_0 unat_eq_zero)
qed

lemma seq_unmoved:
  assumes "store_inv s" and "started_at s (a_seq s) n" and "bumps s < 2 ^ 64"
  shows "unmoved s n"
proof -
  have "2 * n - 2 \<le> bumps s" using assms by (auto simp: store_inv_def started_at_def split: if_splits)
  then have "2 * n - 2 < 2 ^ 64" using assms(3) by simp
  moreover have "(word_of_nat (bumps s) :: u64) = word_of_nat (2 * n - 2)"
    using assms by (simp add: store_inv_def started_at_def)
  ultimately show ?thesis
    using assms(3) by (simp add: unmoved_def word_unat_eq_iff unat_of_nat take_bit_eq_mod)
qed

lemma load_step_load_inv [inv_rules]:
  assumes "load_step s s'" and inv: "store_inv s" and "load_inv s (a_load s)"
  shows "load_inv s' (a_load s')"
  using assms(1)
proof (cases rule: load_step.cases)
  case load_seq
  then have "even (bumps s)" using inv by (simp add: store_inv_def even_word_of_nat)
  then have "a_store s = SIdle" using inv by (auto simp: store_inv_def split: if_splits) presburger
  then have "bumps s = 2 * length (stored s) - 2" "0 < length (stored s)"
    using inv by (auto simp: store_inv_def)
  then show ?thesis using load_seq inv
    by (simp add: store_inv_def started_at_def del: of_nat_diff of_nat_mult)
next
  case (load_physical s1 n)
  then show ?thesis using assms(3) unmoved_idle [OF inv, of n] inv
    by (auto simp: started_at_def unmoved_def store_inv_def last_conv_nth)
next
  case (load_logical s1 p n)
  then show ?thesis using assms(3) unmoved_idle [OF inv, of n] inv
    by (auto simp: started_at_def unmoved_def store_inv_def last_conv_nth)
next
  case (load_done s1 p l n)
  then show ?thesis using assms(3) seq_unmoved [OF inv, of n]
    by (auto simp: started_at_def unmoved_def)
qed (use assms(3) in simp_all)

lemma atomic_reachable_inv: "atomic_reachable t0 s \<Longrightarrow> store_inv s \<and> load_inv s (a_load s)"
  by (induction rule: atomic_reachable.induct) (auto intro: inv_rules atomic_new_inv)

section \<open>Properties\<close>

text \<open>Property C5. Commit timestamps are strictly increasing: along every run of the
  oracle, whatever the wall clock returns (also when it stands still or goes
  back) and whatever recovery floors are set in between, each timestamp handed
  out is above the clock's starting value and above all earlier ones.\<close>

theorem oracle_strictly_increasing:
  "sorted_wrt (<) (oracle_now st # fst (oracle_run ops st))"
  using oracle_run_above oracle_run_sorted by simp

text \<open>Property C6. A seqlock load is never torn: whatever accesses of stores
  interleave with it, a load of \<open>AtomicTs\<close> that returns gives exactly the value
  of the last store that had completed when the load took its first look at
  \<open>seq\<close>, provided \<open>seq\<close> has not wrapped around.\<close>

theorem atomic_ts_load_not_torn:
  assumes "atomic_reachable t0 s" and "a_load s = LDone t n" and "bumps s < 2 ^ 64"
  shows "0 < n \<and> n \<le> length (stored s) \<and> t = stored s ! (n - 1)"
  using atomic_reachable_inv [OF assms(1)] assms(2,3) by simp

theorem atomic_ts_load_not_torn_witness:
  "\<exists>s. atomic_reachable (Ts 7 3) s \<and> a_load s = LDone (Ts 7 3) 1 \<and> stored s ! 0 = Ts 7 3"
proof -
  let ?s0 = "atomic_new (Ts 7 3)"
  let ?s1 = "?s0\<lparr>a_load := LSeq 0 1\<rparr>"
  let ?s2 = "?s0\<lparr>a_load := LPhysical 0 7 1\<rparr>"
  let ?s3 = "?s0\<lparr>a_load := LBoth 0 7 3 1\<rparr>"
  let ?s4 = "?s0\<lparr>a_load := LDone (Ts 7 3) 1\<rparr>"
  have "load_step ?s0 ?s1" using load_seq [of ?s0] by (simp add: atomic_new_def)
  moreover have "load_step ?s1 ?s2" using load_physical [of ?s1 0 1] by (simp add: atomic_new_def)
  moreover have "load_step ?s2 ?s3" using load_logical [of ?s2 0 7 1] by (simp add: atomic_new_def)
  moreover have "load_step ?s3 ?s4" using load_done [of ?s3 0 7 3 1] by (simp add: atomic_new_def)
  ultimately have r: "atomic_reachable (Ts 7 3) ?s4"
    by (meson reach_new reach_load)
  then show ?thesis
    using atomic_ts_load_not_torn [OF r, of "Ts 7 3" 1] by (auto simp: atomic_new_def)
qed

text \<open>Property C7. The key image of a timestamp sorts like the timestamp: the
  big-endian bytes stored in history keys compare exactly as the timestamps
  do, and decoding them gives the timestamp back.\<close>

theorem ts_be_bytes_order:
  "(ts_to_be_bytes a < ts_to_be_bytes b \<longleftrightarrow> a < b) \<and> ts_from_be_bytes (ts_to_be_bytes a) = a"
  using ts_be_less_iff by simp

end
