(* ===== verification/Sorted_Map.thy ===== *)
theory Sorted_Map
  imports Mq_Prelude
begin

text \<open>
  The standard library's \<open>BTreeMap\<close>, as the sources use it: a finite map that
  iterates in ascending key order. It is a strictly ascending association
  list; \<open>sm_get\<close>, \<open>sm_insert\<close>, \<open>sm_remove\<close> and \<open>sm_range\<close> are \<open>get\<close>, \<open>insert\<close>,
  \<open>remove\<close> and \<open>range\<close>. The locale \<open>ordered_map\<close> is the contract the components
  rely on, and the last section shows that the list keeps it.
\<close>

type_synonym ('k, 'v) smap = "('k \<times> 'v) list"

definition sm_inv :: "('k::linorder, 'v) smap \<Rightarrow> bool" where
  "sm_inv m \<longleftrightarrow> sorted_wrt (<) (map fst m)"

definition sm_get :: "('k, 'v) smap \<Rightarrow> 'k \<Rightarrow> 'v option" where
  "sm_get m = map_of m"

fun sm_insert :: "'k::linorder \<Rightarrow> 'v \<Rightarrow> ('k, 'v) smap \<Rightarrow> ('k, 'v) smap" where
  "sm_insert k v [] = [(k, v)]"
| "sm_insert k v ((k', v') # m) =
     (if k < k' then (k, v) # (k', v') # m
      else if k = k' then (k, v) # m
      else (k', v') # sm_insert k v m)"

fun sm_remove :: "'k \<Rightarrow> ('k, 'v) smap \<Rightarrow> ('k, 'v) smap" where
  "sm_remove k [] = []"
| "sm_remove k ((k', v') # m) = (if k = k' then m else (k', v') # sm_remove k m)"

fun sm_update :: "'k \<Rightarrow> ('v \<Rightarrow> 'v) \<Rightarrow> ('k, 'v) smap \<Rightarrow> ('k, 'v) smap" where
  "sm_update k f [] = []"
| "sm_update k f ((k', v') # m) = (if k = k' then (k', f v') # m else (k', v') # sm_update k f m)"

definition sm_range :: "('k \<Rightarrow> bool) \<Rightarrow> ('k, 'v) smap \<Rightarrow> ('k, 'v) smap" where
  "sm_range P m = filter (\<lambda>(k, _). P k) m"

section \<open>The contract\<close>

text \<open>What a client of an ordered map relies on; \<open>entries\<close> is its iteration.\<close>

locale ordered_map =
  fixes entries :: "'m \<Rightarrow> ('k::linorder \<times> 'v) list"
    and empty :: 'm
    and get :: "'m \<Rightarrow> 'k \<Rightarrow> 'v option"
    and ins :: "'k \<Rightarrow> 'v \<Rightarrow> 'm \<Rightarrow> 'm"
    and rem :: "'k \<Rightarrow> 'm \<Rightarrow> 'm"
    and inv :: "'m \<Rightarrow> bool"
  assumes inv_empty: "inv empty"
    and entries_empty: "entries empty = []"
    and entries_sorted: "inv m \<Longrightarrow> sorted_wrt (<) (map fst (entries m))"
    and entries_get: "inv m \<Longrightarrow> (k, v) \<in> set (entries m) \<longleftrightarrow> get m k = Some v"
    and inv_ins: "inv m \<Longrightarrow> inv (ins k v m)"
    and get_ins: "inv m \<Longrightarrow> get (ins k v m) = (get m)(k \<mapsto> v)"
    and inv_rem: "inv m \<Longrightarrow> inv (rem k m)"
    and get_rem: "inv m \<Longrightarrow> get (rem k m) = (get m)(k := None)"
begin

lemma fold_ins_inv: "inv m \<Longrightarrow> inv (fold (\<lambda>(k, v). ins k v) kvs m)"
  by (induction kvs arbitrary: m) (auto simp: inv_ins)

lemma fold_rem_inv: "inv m \<Longrightarrow> inv (fold rem ks m)"
  by (induction ks arbitrary: m) (auto simp: inv_rem)

lemma fold_rem_get: "inv m \<Longrightarrow> get (fold rem ks m) k = (if k \<in> set ks then None else get m k)"
  by (induction ks arbitrary: m) (auto simp: inv_rem get_rem)

text \<open>Two maps with the same lookups iterate the same way.\<close>

lemma entries_unique:
  assumes "inv m" "inv m'" "get m = get m'"
  shows "entries m = entries m'"
proof (rule map_sorted_distinct_set_unique [where f = fst])
  show s: "set (entries m) = set (entries m')"
    using assms entries_get by auto
  show "sorted (map fst (entries m))" "distinct (map fst (entries m))"
    "sorted (map fst (entries m'))" "distinct (map fst (entries m'))"
    using entries_sorted [OF assms(1)] entries_sorted [OF assms(2)] by (simp_all add: strict_sorted_iff)
  then show "inj_on fst (set (entries m) \<union> set (entries m'))"
    using s by (simp add: distinct_map)
qed

end

section \<open>The list keeps the contract\<close>

lemma sm_inv_Nil [simp]: "sm_inv []"
  by (simp add: sm_inv_def)

lemma sm_inv_Cons: "sm_inv ((k, v) # m) \<longleftrightarrow> (\<forall>k' \<in> fst ` set m. k < k') \<and> sm_inv m"
  by (auto simp: sm_inv_def)

lemma sm_inv_distinct: "sm_inv m \<Longrightarrow> distinct (map fst m)"
  by (simp add: sm_inv_def strict_sorted_iff)

lemma sm_insert_keys [simp]: "fst ` set (sm_insert k v m) = insert k (fst ` set m)"
  by (induction k v m rule: sm_insert.induct) auto

lemma sm_remove_keys: "sm_inv m \<Longrightarrow> fst ` set (sm_remove k m) = fst ` set m - {k}"
  by (induction k m rule: sm_remove.induct) (auto simp: sm_inv_Cons)

lemma sm_insert_inv [inv_rules]: "sm_inv m \<Longrightarrow> sm_inv (sm_insert k v m)"
  by (induction k v m rule: sm_insert.induct) (auto simp: sm_inv_Cons)

lemma sm_remove_inv [inv_rules]: "sm_inv m \<Longrightarrow> sm_inv (sm_remove k m)"
  by (induction k m rule: sm_remove.induct) (auto simp: sm_inv_Cons sm_remove_keys)

lemma sm_update_keys [simp]: "map fst (sm_update k f m) = map fst m"
  by (induction k f m rule: sm_update.induct) auto

lemma sm_update_inv [inv_rules]: "sm_inv m \<Longrightarrow> sm_inv (sm_update k f m)"
  by (simp add: sm_inv_def)

lemma sm_range_inv [inv_rules]: "sm_inv m \<Longrightarrow> sm_inv (sm_range P m)"
  by (auto simp: sm_range_def sm_inv_def sorted_wrt_map intro: sorted_wrt_filter)

lemma map_of_None_less: "(\<forall>k' \<in> fst ` set m. k < k') \<Longrightarrow> map_of m k = None"
  for k :: "'k::linorder"
  by (metis less_irrefl map_of_eq_None_iff)

lemma sm_get_insert: "sm_inv m \<Longrightarrow> sm_get (sm_insert k v m) = (sm_get m)(k \<mapsto> v)"
  unfolding sm_get_def
  by (induction k v m rule: sm_insert.induct) (auto simp: sm_inv_Cons fun_eq_iff)

lemma sm_get_remove: "sm_inv m \<Longrightarrow> sm_get (sm_remove k m) = (sm_get m)(k := None)"
  unfolding sm_get_def
  by (induction k m rule: sm_remove.induct) (auto simp: sm_inv_Cons fun_eq_iff map_of_None_less)

lemma sm_get_update: "sm_get (sm_update k f m) = (\<lambda>k'. if k' = k then map_option f (sm_get m k) else sm_get m k')"
  unfolding sm_get_def
  by (induction k f m rule: sm_update.induct) (auto simp: fun_eq_iff)

lemma sm_get_range: "sm_get (sm_range P m) k = (if P k then sm_get m k else None)"
  by (induction m) (auto simp: sm_get_def sm_range_def)

lemma sm_get_iff: "sm_inv m \<Longrightarrow> (k, v) \<in> set m \<longleftrightarrow> sm_get m k = Some v"
  by (simp add: sm_get_def sm_inv_distinct)

lemma sm_get_None_iff: "sm_get m k = None \<longleftrightarrow> k \<notin> fst ` set m"
  by (simp add: sm_get_def map_of_eq_None_iff)

interpretation sm: ordered_map "\<lambda>m. m" "[]" sm_get sm_insert sm_remove sm_inv
  by unfold_locales
     (simp_all add: sm_get_insert sm_get_remove sm_insert_inv sm_remove_inv sm_get_iff, simp add: sm_inv_def)

end
