(* ===== verification/Publish_Sequencer.thy ===== *)
theory Publish_Sequencer
  imports Timestamp Sorted_Map
begin

text \<open>
  The dense publish sequencer (\<open>src/src/storage/paged_engine/publish_sequencer.rs\<close>).
  A writer registers, which allocates a dense slot number and a commit
  timestamp under one lock, and later marks its slot ready or aborted; the
  window advances over the contiguous terminal slots, runs their publish
  closures in slot order and moves the frontier readers use.

  The sequencer's mutex makes each operation one step, except \<open>mark_ready\<close>,
  which gives the lock up while it waits on the condition variable: it is the
  step \<open>mark_ready\<close> followed by any number of \<open>mark_ready_wake\<close> steps. A publish
  closure acts on an environment of type \<open>'e\<close> (the published epoch and whatever
  else the engine keeps). The frontier is a \<open>ts\<close>: \<open>Timestamp\<close> shows that a load
  of the \<open>AtomicTs\<close> cell is a load of a whole value.
\<close>

section \<open>State\<close>

type_synonym 'e publish_closure = "ts \<Rightarrow> 'e \<Rightarrow> unit result \<times> 'e"

record publish_dirty =
  published_catalog_dirty :: bool
  catalog_header_dirty :: bool

definition publish_dirty_default :: publish_dirty where
  "publish_dirty_default = \<lparr>published_catalog_dirty = False, catalog_header_dirty = False\<rparr>"

datatype 'e publish_slot_state =
    Slot_Pending
  | Slot_Ready publish_dirty "'e publish_closure"
  | Slot_Aborted

datatype 'e publish_slot = Publish_Slot (slot_commit_ts: ts) (slot_state: "'e publish_slot_state")

record 'e publish_sequencer =
  next_seq :: u64
  last_published :: u64
  pending :: "(u64, 'e publish_slot) smap"
  poisoned :: "engine_fatal_reason option"
  published_frontier :: ts

datatype publish_slot_guard = Slot_Guard (publish_seq: u64) (guard_commit_ts: ts)

section \<open>Operations\<close>

definition new_inner :: "ts \<Rightarrow> u64 \<Rightarrow> 'e publish_sequencer" where
  "new_inner initial_frontier next =
     \<lparr>next_seq = next, last_published = saturating_sub next 1, pending = [], poisoned = None,
      published_frontier = initial_frontier\<rparr>"

definition new_with_published_frontier :: "ts \<Rightarrow> 'e publish_sequencer" where
  "new_with_published_frontier recovered_max_commit_ts = new_inner recovered_max_commit_ts 1"

definition new_with_recovery_state :: "ts \<Rightarrow> u64 \<Rightarrow> 'e publish_sequencer" where
  "new_with_recovery_state recovered_max_commit_ts next_publish_seq =
     new_inner recovered_max_commit_ts next_publish_seq"

text \<open>\<open>register_with_oracle\<close>. The oracle has ticked by the time the slot counter is
  found to overflow.\<close>

definition register_with_oracle ::
  "u64 \<Rightarrow> 'e publish_sequencer \<Rightarrow> hlc_state \<Rightarrow>
   publish_slot_guard result \<times> 'e publish_sequencer \<times> hlc_state" where
  "register_with_oracle wall g h =
     (case poisoned g of
        Some reason \<Rightarrow> (Inl (EngineFatal reason), g, h)
      | None \<Rightarrow>
          (case oracle_commit wall h of
             (Inl e, h') \<Rightarrow> (Inl e, g, h')
           | (Inr commit_ts, h') \<Rightarrow>
               (case checked_add (next_seq g) 1 of
                  None \<Rightarrow> (Inl (Internal ''publish_sequencer next_seq overflowed u64''), g, h')
                | Some n \<Rightarrow>
                    (Inr (Slot_Guard (next_seq g) commit_ts),
                     g\<lparr>next_seq := n,
                       pending := sm_insert (next_seq g) (Publish_Slot commit_ts Slot_Pending) (pending g)\<rparr>,
                     h'))))"

text \<open>\<open>advance_window_locked\<close>: the loop ends because every further iteration has
  removed a slot. A failing closure leaves its slot removed and the window
  where it was.\<close>

function advance_window_locked ::
  "'e publish_sequencer \<Rightarrow> 'e \<Rightarrow> unit result \<times> 'e publish_sequencer \<times> 'e" where
  "advance_window_locked g env =
     (case poisoned g of
        Some reason \<Rightarrow> (Inl (EngineFatal reason), g, env)
      | None \<Rightarrow>
          (let next = saturating_add (last_published g) 1 in
           case pending g of
             [] \<Rightarrow> (Inr (), g, env)
           | (first_key, slot) # rest \<Rightarrow>
               if first_key \<noteq> next then (Inr (), g, env)
               else (case slot_state slot of
                       Slot_Pending \<Rightarrow> (Inr (), g, env)
                     | Slot_Ready _ publish \<Rightarrow>
                         (case publish (slot_commit_ts slot) env of
                            (Inl err, env') \<Rightarrow> (Inl err, g\<lparr>pending := rest\<rparr>, env')
                          | (Inr _, env') \<Rightarrow>
                              advance_window_locked
                                (g\<lparr>pending := rest, published_frontier := slot_commit_ts slot,
                                   last_published := next\<rparr>) env')
                     | Slot_Aborted \<Rightarrow>
                         advance_window_locked (g\<lparr>pending := rest, last_published := next\<rparr>) env)))"
  by pat_completeness auto
termination
  by (relation "measure (\<lambda>(g, _). length (pending g))") auto

declare advance_window_locked.simps [simp del]

text \<open>What a caller of \<open>mark_ready\<close> holds afterwards: its guard is still armed (the
  call failed before disarming it), it waits on the condition variable, or the
  call returned.\<close>

datatype ready_outcome = Armed error | Waiting | Returned "unit result"

definition wait_or_return :: "u64 \<Rightarrow> 'e publish_sequencer \<Rightarrow> ready_outcome" where
  "wait_or_return target_seq g =
     (if last_published g < target_seq
      then (case poisoned g of Some reason \<Rightarrow> Returned (Inl (EngineFatal reason)) | None \<Rightarrow> Waiting)
      else Returned (Inr ()))"

definition set_slot_state ::
  "u64 \<Rightarrow> 'e publish_slot_state \<Rightarrow> 'e publish_sequencer \<Rightarrow> 'e publish_sequencer" where
  "set_slot_state k st g =
     g\<lparr>pending := sm_update k (\<lambda>slot. Publish_Slot (slot_commit_ts slot) st) (pending g)\<rparr>"

definition mark_ready ::
  "publish_slot_guard \<Rightarrow> 'e publish_closure \<Rightarrow> 'e publish_sequencer \<Rightarrow> 'e \<Rightarrow>
   ready_outcome \<times> 'e publish_sequencer \<times> 'e" where
  "mark_ready guard publish g env =
     (case poisoned g of
        Some reason \<Rightarrow> (Armed (EngineFatal reason), g, env)
      | None \<Rightarrow>
          (case sm_get (pending g) (publish_seq guard) of
             None \<Rightarrow> (Armed (Internal ''publish slot missing on mark_ready''), g, env)
           | Some _ \<Rightarrow>
               let g1 = set_slot_state (publish_seq guard)
                          (Slot_Ready publish_dirty_default publish) g
               in (case advance_window_locked g1 env of
                     (Inl e, g2, env') \<Rightarrow> (Returned (Inl e), g2, env')
                   | (Inr _, g2, env') \<Rightarrow> (wait_or_return (publish_seq guard) g2, g2, env'))))"

definition mark_ready_wake ::
  "u64 \<Rightarrow> 'e publish_sequencer \<Rightarrow> 'e \<Rightarrow> ready_outcome \<times> 'e publish_sequencer \<times> 'e" where
  "mark_ready_wake target_seq g env =
     (case advance_window_locked g env of
        (Inl e, g2, env') \<Rightarrow> (Returned (Inl e), g2, env')
      | (Inr _, g2, env') \<Rightarrow> (wait_or_return target_seq g2, g2, env'))"

text \<open>\<open>mark_aborted\<close> and the drop of an armed guard do the same to the sequencer.\<close>

definition mark_aborted_from_drop ::
  "u64 \<Rightarrow> 'e publish_sequencer \<Rightarrow> 'e \<Rightarrow> 'e publish_sequencer \<times> 'e" where
  "mark_aborted_from_drop seq g env =
     (case poisoned g of
        Some _ \<Rightarrow> (g, env)
      | None \<Rightarrow> snd (advance_window_locked (set_slot_state seq Slot_Aborted g) env))"

definition mark_aborted ::
  "publish_slot_guard \<Rightarrow> 'e publish_sequencer \<Rightarrow> 'e \<Rightarrow> 'e publish_sequencer \<times> 'e" where
  "mark_aborted guard g env = mark_aborted_from_drop (publish_seq guard) g env"

definition poison :: "engine_fatal_reason \<Rightarrow> 'e publish_sequencer \<Rightarrow> 'e publish_sequencer" where
  "poison reason g = (case poisoned g of None \<Rightarrow> g\<lparr>poisoned := Some reason\<rparr> | Some _ \<Rightarrow> g)"

section \<open>Runs of the engine on one sequencer\<close>

text \<open>The world: the sequencer, its environment, the oracle, and for each slot what
  the thread that registered it holds. \<open>issued\<close> records the allocations in
  order; no operation reads it.\<close>

datatype guard_phase =
    G_Armed publish_slot_guard
  | G_Doomed u64
  | G_Waiting
  | G_Returned "unit result"
  | G_Gone

record 'e seq_world =
  w_seq :: "'e publish_sequencer"
  w_env :: 'e
  w_hlc :: hlc_state
  w_guards :: "u64 \<Rightarrow> guard_phase option"
  issued :: "(u64 \<times> ts) list"

fun phase_of_outcome :: "u64 \<Rightarrow> ready_outcome \<Rightarrow> guard_phase" where
  "phase_of_outcome k (Armed _) = G_Doomed k"
| "phase_of_outcome k Waiting = G_Waiting"
| "phase_of_outcome k (Returned r) = G_Returned r"

inductive seq_step :: "'e seq_world \<Rightarrow> 'e seq_world \<Rightarrow> bool" where
  step_register:
    "register_with_oracle wall (w_seq w) (w_hlc w) = (Inr guard, g', h') \<Longrightarrow>
     seq_step w (w\<lparr>w_seq := g', w_hlc := h',
       w_guards := (w_guards w)(publish_seq guard \<mapsto> G_Armed guard),
       issued := issued w @ [(publish_seq guard, guard_commit_ts guard)]\<rparr>)"
| step_register_fails:
    "register_with_oracle wall (w_seq w) (w_hlc w) = (Inl e, g', h') \<Longrightarrow>
     seq_step w (w\<lparr>w_seq := g', w_hlc := h'\<rparr>)"
| step_mark_ready:
    "w_guards w k = Some (G_Armed guard) \<Longrightarrow>
     mark_ready guard publish (w_seq w) (w_env w) = (out, g', env') \<Longrightarrow>
     seq_step w (w\<lparr>w_seq := g', w_env := env',
       w_guards := (w_guards w)(k \<mapsto> phase_of_outcome k out)\<rparr>)"
| step_wake:
    "w_guards w k = Some G_Waiting \<Longrightarrow>
     mark_ready_wake k (w_seq w) (w_env w) = (out, g', env') \<Longrightarrow>
     seq_step w (w\<lparr>w_seq := g', w_env := env',
       w_guards := (w_guards w)(k \<mapsto> phase_of_outcome k out)\<rparr>)"
| step_mark_aborted:
    "w_guards w k = Some (G_Armed guard) \<Longrightarrow>
     mark_aborted guard (w_seq w) (w_env w) = (g', env') \<Longrightarrow>
     seq_step w (w\<lparr>w_seq := g', w_env := env', w_guards := (w_guards w)(k \<mapsto> G_Gone)\<rparr>)"
| step_drop:
    "w_guards w k = Some (G_Armed guard) \<or> w_guards w k = Some (G_Doomed k) \<Longrightarrow>
     mark_aborted_from_drop k (w_seq w) (w_env w) = (g', env') \<Longrightarrow>
     seq_step w (w\<lparr>w_seq := g', w_env := env', w_guards := (w_guards w)(k \<mapsto> G_Gone)\<rparr>)"
| step_poison:
    "seq_step w (w\<lparr>w_seq := poison reason (w_seq w)\<rparr>)"

inductive_cases seq_stepE: "seq_step w w'"

text \<open>A start: a fresh sequencer whose slot counter is positive, with the oracle
  already at or above the recovered frontier.\<close>

definition seq_start :: "'e seq_world \<Rightarrow> bool" where
  "seq_start w \<longleftrightarrow>
     (\<exists>f n. 0 < n \<and> w_seq w = new_inner f n \<and> f \<le> oracle_now (w_hlc w)) \<and>
     w_guards w = Map.empty \<and> issued w = []"

inductive seq_reachable :: "'e seq_world \<Rightarrow> bool" where
  seq_reach_start: "seq_start w \<Longrightarrow> seq_reachable w"
| seq_reach_step: "seq_reachable w \<Longrightarrow> seq_step w w' \<Longrightarrow> seq_reachable w'"

section \<open>The window invariant\<close>

definition slot_times :: "'e publish_sequencer \<Rightarrow> ts list" where
  "slot_times g = map (slot_commit_ts \<circ> snd) (pending g)"

definition slot_keys :: "'e publish_sequencer \<Rightarrow> u64 list" where
  "slot_keys g = map fst (pending g)"

definition window_inv :: "'e publish_sequencer \<Rightarrow> hlc_state \<Rightarrow> bool" where
  "window_inv g h \<longleftrightarrow>
     sorted_wrt (<) (slot_keys g) \<and>
     (\<forall>k \<in> set (slot_keys g). last_published g < k \<and> k < next_seq g) \<and>
     sorted_wrt (<) (slot_times g) \<and>
     (\<forall>t \<in> set (slot_times g). published_frontier g < t \<and> t \<le> oracle_now h) \<and>
     published_frontier g \<le> oracle_now h \<and>
     last_published g < next_seq g"

text \<open>A rule for the window loop: what its three ways of taking a slot keep, the
  loop keeps.\<close>

lemma advance_keeps:
  assumes publish: "\<And>g k s rest d f. P g \<Longrightarrow> poisoned g = None \<Longrightarrow> pending g = (k, s) # rest \<Longrightarrow>
      k = saturating_add (last_published g) 1 \<Longrightarrow> slot_state s = Slot_Ready d f \<Longrightarrow>
      P (g\<lparr>pending := rest, published_frontier := slot_commit_ts s, last_published := k\<rparr>)"
    and skip: "\<And>g k s rest. P g \<Longrightarrow> poisoned g = None \<Longrightarrow> pending g = (k, s) # rest \<Longrightarrow>
      k = saturating_add (last_published g) 1 \<Longrightarrow> slot_state s = Slot_Aborted \<Longrightarrow>
      P (g\<lparr>pending := rest, last_published := k\<rparr>)"
    and fail: "\<And>g k s rest d f. P g \<Longrightarrow> poisoned g = None \<Longrightarrow> pending g = (k, s) # rest \<Longrightarrow>
      k = saturating_add (last_published g) 1 \<Longrightarrow> slot_state s = Slot_Ready d f \<Longrightarrow>
      P (g\<lparr>pending := rest\<rparr>)"
  shows "P g \<Longrightarrow> P (fst (snd (advance_window_locked g env)))"
proof (induction g env rule: advance_window_locked.induct)
  case (1 g env)
  show ?case
    using 1 publish [of g] skip [of g] fail [of g]
    by (subst advance_window_locked.simps)
       (auto simp: Let_def split: option.splits list.splits publish_slot_state.splits prod.splits sum.splits)
qed

lemma saturating_add_one:
  assumes "(a::u64) < b"
  shows "saturating_add a 1 = a + 1" and "unat (a + 1) = unat a + 1"
proof -
  have "a \<noteq> - 1" using assms by auto
  then show u: "unat (a + 1) = unat a + 1" by (rule unat_plus_one)
  have "unat (a + 1) < 2 ^ 64" using unat_lt_size [of "a + 1"] by simp
  then show "saturating_add a 1 = a + 1"
    using u by (simp add: saturating_add_def checked_add_def)
qed

lemma window_inv_take:
  assumes "window_inv g h" and "pending g = (k, s) # rest"
  shows "window_inv (g\<lparr>pending := rest, published_frontier := slot_commit_ts s, last_published := k\<rparr>) h"
    and "window_inv (g\<lparr>pending := rest, last_published := k\<rparr>) h"
    and "window_inv (g\<lparr>pending := rest\<rparr>) h"
  using assms by (auto simp: window_inv_def slot_times_def slot_keys_def)

lemma advance_window_inv [inv_rules]:
  "window_inv g h \<Longrightarrow> window_inv (fst (snd (advance_window_locked g env))) h"
  by (rule advance_keeps [where P = "\<lambda>g. window_inv g h"]) (auto intro: window_inv_take)

text \<open>The loop touches neither the slot counter nor the poison flag, only ever
  removes slots from the front, never removes a pending one, and moves the
  window and the frontier forward only.\<close>

definition advanced :: "'e publish_sequencer \<Rightarrow> 'e publish_sequencer \<Rightarrow> bool" where
  "advanced g g' \<longleftrightarrow>
     next_seq g' = next_seq g \<and> poisoned g' = poisoned g \<and>
     last_published g \<le> last_published g' \<and> published_frontier g \<le> published_frontier g' \<and>
     (\<exists>taken. pending g = taken @ pending g' \<and> (\<forall>(k, s) \<in> set taken. slot_state s \<noteq> Slot_Pending))"

lemma advanced_refl [simp]: "advanced g g"
  by (auto simp: advanced_def intro: exI [of _ "[]"])

lemma advanced_trans: "advanced g1 g2 \<Longrightarrow> advanced g2 g3 \<Longrightarrow> advanced g1 g3"
  unfolding advanced_def by (fastforce intro: order_trans)

lemma advanced_take:
  assumes "window_inv g h" and "pending g = (k, s) # rest" and "slot_state s \<noteq> Slot_Pending"
  shows "advanced g (g\<lparr>pending := rest, published_frontier := slot_commit_ts s, last_published := k\<rparr>)"
    and "advanced g (g\<lparr>pending := rest, last_published := k\<rparr>)"
    and "advanced g (g\<lparr>pending := rest\<rparr>)"
  using assms by (auto simp: advanced_def window_inv_def slot_times_def slot_keys_def intro!: exI [of _ "[(k, s)]"])

lemma advance_advanced:
  assumes "window_inv g h"
  shows "advanced g (fst (snd (advance_window_locked g env)))"
proof -
  let ?P = "\<lambda>g'. window_inv g' h \<and> advanced g g'"
  have "?P (fst (snd (advance_window_locked g env)))"
  proof (rule advance_keeps [where P = ?P])
    show "?P g" using assms by simp
  next
    fix g1 k s rest d f
    assume "?P g1" "pending g1 = (k, s) # rest" "slot_state s = Slot_Ready d f"
    then show "?P (g1\<lparr>pending := rest, published_frontier := slot_commit_ts s, last_published := k\<rparr>)"
      and "?P (g1\<lparr>pending := rest\<rparr>)"
      using window_inv_take [of g1 h k s rest] advanced_take [of g1 h k s rest]
      by (auto intro: advanced_trans [of g g1])
  next
    fix g1 k s rest
    assume "?P g1" "pending g1 = (k, s) # rest" "slot_state s = Slot_Aborted"
    then show "?P (g1\<lparr>pending := rest, last_published := k\<rparr>)"
      using window_inv_take [of g1 h k s rest] advanced_take [of g1 h k s rest]
      by (auto intro: advanced_trans [of g g1])
  qed
  then show ?thesis ..
qed

section \<open>Every operation keeps the window invariant\<close>

lemma set_slot_state_same [simp]:
  "slot_keys (set_slot_state k st g) = slot_keys g"
  "slot_times (set_slot_state k st g) = slot_times g"
  "next_seq (set_slot_state k st g) = next_seq g"
  "last_published (set_slot_state k st g) = last_published g"
  "poisoned (set_slot_state k st g) = poisoned g"
  "published_frontier (set_slot_state k st g) = published_frontier g"
proof -
  have "map (slot_commit_ts \<circ> snd) (sm_update k (\<lambda>slot. Publish_Slot (slot_commit_ts slot) st) m)
      = map (slot_commit_ts \<circ> snd) m" for m :: "(u64, 'a publish_slot) smap"
    by (induction m) auto
  then show "slot_times (set_slot_state k st g) = slot_times g"
    by (simp add: set_slot_state_def slot_times_def)
qed (simp_all add: set_slot_state_def slot_keys_def)

lemma set_slot_state_inv [inv_rules]: "window_inv g h \<Longrightarrow> window_inv (set_slot_state k st g) h"
  by (simp add: window_inv_def)

lemma poison_window_inv [inv_rules]: "window_inv g h \<Longrightarrow> window_inv (poison r g) h"
  by (simp add: poison_def window_inv_def slot_keys_def slot_times_def split: option.splits)

text \<open>A successful registration appends one pending slot at the end of the window,
  with the next slot number and a timestamp above everything shown so far.\<close>

lemma sm_insert_last:
  "(\<forall>k \<in> set (map fst m). k < k0) \<Longrightarrow> sm_insert k0 v m = m @ [(k0, v)]"
  by (induction k0 v m rule: sm_insert.induct) auto

lemma register_ok:
  assumes inv: "window_inv g h" and reg: "register_with_oracle wall g h = (Inr guard, g', h')"
  shows "poisoned g = None" and "publish_seq guard = next_seq g"
    and "oracle_now h < guard_commit_ts guard" and "oracle_now h' = guard_commit_ts guard"
    and "unat (next_seq g') = unat (next_seq g) + 1"
    and "g' = g\<lparr>next_seq := next_seq g',
           pending := pending g @ [(next_seq g, Publish_Slot (guard_commit_ts guard) Slot_Pending)]\<rparr>"
proof -
  obtain t n where t: "oracle_commit wall h = (Inr t, h')" and n: "checked_add (next_seq g) 1 = Some n"
    and g': "g' = g\<lparr>next_seq := n, pending := sm_insert (next_seq g) (Publish_Slot t Slot_Pending) (pending g)\<rparr>"
    and guard: "guard = Slot_Guard (next_seq g) t" and p: "poisoned g = None"
    using reg by (auto simp: register_with_oracle_def split: option.splits sum.splits prod.splits)
  have "\<forall>k \<in> set (map fst (pending g)). k < next_seq g"
    using inv by (simp add: window_inv_def slot_keys_def)
  then show "g' = g\<lparr>next_seq := next_seq g',
           pending := pending g @ [(next_seq g, Publish_Slot (guard_commit_ts guard) Slot_Pending)]\<rparr>"
    using g' guard sm_insert_last [of "pending g"] by simp
  show "poisoned g = None" "publish_seq guard = next_seq g" using p guard by simp_all
  show "oracle_now h < guard_commit_ts guard" "oracle_now h' = guard_commit_ts guard"
    using oracle_commit_ok [OF t] guard by simp_all
  show "unat (next_seq g') = unat (next_seq g) + 1" using checked_add_Some [OF n] g' by simp
qed

lemma register_err:
  assumes "register_with_oracle wall g h = (Inl e, g', h')"
  shows "g' = g" and "oracle_now h \<le> oracle_now h'"
  using assms hlc.shown_mono [of h wall]
  by (auto simp: register_with_oracle_def split: option.splits sum.splits prod.splits)

lemma register_window_inv [inv_rules]:
  assumes inv: "window_inv g h" and reg: "register_with_oracle wall g h = (r, g', h')"
  shows "window_inv g' h'"
proof (cases r)
  case (Inl e)
  then have "g' = g" "oracle_now h \<le> oracle_now h'" using register_err reg by blast+
  then show ?thesis using inv by (fastforce simp: window_inv_def)
next
  case (Inr guard)
  note ok = register_ok [OF inv, of wall guard g' h', OF reg [unfolded Inr]]
  have g': "slot_keys g' = slot_keys g @ [next_seq g]"
    "slot_times g' = slot_times g @ [guard_commit_ts guard]"
    "published_frontier g' = published_frontier g" "last_published g' = last_published g"
    by (subst ok(6), simp add: slot_keys_def slot_times_def)+
  have "next_seq g < next_seq g'" using ok(5) by (simp add: word_less_nat_alt)
  then show ?thesis
    using inv ok(3,4) unfolding window_inv_def g' by (force simp: sorted_wrt_append)
qed

section \<open>Publication order\<close>

text \<open>What the allocations in \<open>issued\<close> have to do with the window: slot numbers and
  timestamps grow together, the window's slots are issued ones, and the
  frontier has passed a timestamp only if the window has passed its slot.\<close>

definition slot_pairs :: "'e publish_sequencer \<Rightarrow> (u64 \<times> ts) list" where
  "slot_pairs g = map (\<lambda>(k, s). (k, slot_commit_ts s)) (pending g)"

definition issued_inv :: "(u64 \<times> ts) list \<Rightarrow> 'e publish_sequencer \<Rightarrow> hlc_state \<Rightarrow> bool" where
  "issued_inv iss g h \<longleftrightarrow>
     sorted_wrt (\<lambda>(k, t) (k', t'). k < k' \<and> t < t') iss \<and>
     set (slot_pairs g) \<subseteq> set iss \<and>
     (\<forall>(k, t) \<in> set iss. k < next_seq g \<and> t \<le> oracle_now h \<and>
        (t \<le> published_frontier g \<longrightarrow> k \<le> last_published g))"

lemma issued_order:
  assumes "sorted_wrt (\<lambda>(k, t) (k', t'). k < k' \<and> t < t') iss"
    and "(k, t) \<in> set iss" and "(k', t') \<in> set iss" and "(t::ts) \<le> t'"
  shows "(k::u64) \<le> k'"
proof -
  obtain i j where i: "i < length iss" "iss ! i = (k, t)" and j: "j < length iss" "iss ! j = (k', t')"
    using assms(2,3) by (metis in_set_conv_nth)
  then show ?thesis
    using sorted_wrt_nth_less [OF assms(1), of i j] sorted_wrt_nth_less [OF assms(1), of j i] assms(4)
    by (cases i j rule: linorder_cases) auto
qed

lemma issued_inv_take:
  assumes "issued_inv iss g h" and "window_inv g h" and "pending g = (k, s) # rest"
  shows "issued_inv iss (g\<lparr>pending := rest, published_frontier := slot_commit_ts s, last_published := k\<rparr>) h"
    and "issued_inv iss (g\<lparr>pending := rest, last_published := k\<rparr>) h"
    and "issued_inv iss (g\<lparr>pending := rest\<rparr>) h"
proof -
  have k: "(k, slot_commit_ts s) \<in> set iss" "last_published g < k"
    using assms by (auto simp: issued_inv_def window_inv_def slot_pairs_def slot_keys_def)
  have "k' \<le> k" if "(k', t') \<in> set iss" "t' \<le> slot_commit_ts s" for k' t'
    using issued_order [OF _ that(1) k(1) that(2)] assms(1) by (simp add: issued_inv_def)
  with k assms show "issued_inv iss (g\<lparr>pending := rest, published_frontier := slot_commit_ts s, last_published := k\<rparr>) h"
    "issued_inv iss (g\<lparr>pending := rest, last_published := k\<rparr>) h"
    "issued_inv iss (g\<lparr>pending := rest\<rparr>) h"
    by (auto simp: issued_inv_def slot_pairs_def intro: order_trans [OF _ less_imp_le])
qed

lemma advance_issued_inv [inv_rules]:
  assumes "issued_inv iss g h" and "window_inv g h"
  shows "issued_inv iss (fst (snd (advance_window_locked g env))) h"
proof -
  let ?P = "\<lambda>g. issued_inv iss g h \<and> window_inv g h"
  have "?P (fst (snd (advance_window_locked g env)))"
    by (rule advance_keeps [where P = ?P])
       (use assms in \<open>auto intro: issued_inv_take window_inv_take\<close>)
  then show ?thesis ..
qed

lemma slot_pairs_zip: "slot_pairs g = zip (slot_keys g) (slot_times g)"
proof -
  have "map (\<lambda>(k, s). (k, slot_commit_ts s)) m = zip (map fst m) (map (slot_commit_ts \<circ> snd) m)"
    for m :: "(u64, 'a publish_slot) smap"
    by (induction m) auto
  then show ?thesis by (simp add: slot_pairs_def slot_keys_def slot_times_def)
qed

lemma set_slot_state_issued_inv [inv_rules]:
  "issued_inv iss g h \<Longrightarrow> issued_inv iss (set_slot_state k st g) h"
  by (simp add: issued_inv_def slot_pairs_zip)

lemma poison_issued_inv [inv_rules]: "issued_inv iss g h \<Longrightarrow> issued_inv iss (poison r g) h"
  by (simp add: poison_def issued_inv_def slot_pairs_def split: option.splits)

section \<open>The invariant of a run\<close>

text \<open>An armed guard's slot is still in the window and pending: no step other than
  its owner's resolves it.\<close>

definition armed_inv :: "(u64 \<Rightarrow> guard_phase option) \<Rightarrow> 'e publish_sequencer \<Rightarrow> bool" where
  "armed_inv guards g \<longleftrightarrow>
     (\<forall>k guard. guards k = Some (G_Armed guard) \<longrightarrow>
        publish_seq guard = k \<and> (\<exists>t. (k, Publish_Slot t Slot_Pending) \<in> set (pending g)))"

definition world_inv :: "'e seq_world \<Rightarrow> bool" where
  "world_inv w \<longleftrightarrow>
     window_inv (w_seq w) (w_hlc w) \<and> issued_inv (issued w) (w_seq w) (w_hlc w) \<and>
     armed_inv (w_guards w) (w_seq w)"

lemma advance_armed_inv [inv_rules]:
  assumes "window_inv g h" and "armed_inv guards g"
  shows "armed_inv guards (fst (snd (advance_window_locked g env)))"
proof -
  obtain taken where t: "pending g = taken @ pending (fst (snd (advance_window_locked g env)))"
    and np: "\<forall>(k, s) \<in> set taken. slot_state s \<noteq> Slot_Pending"
    using advance_advanced [OF assms(1)] by (auto simp: advanced_def)
  have "x \<in> set (pending (fst (snd (advance_window_locked g env))))"
    if "x \<in> set (pending g)" "slot_state (snd x) = Slot_Pending" for x
    using that np t by (metis (mono_tags, lifting) Un_iff case_prod_unfold set_append)
  then show ?thesis using assms(2) by (fastforce simp: armed_inv_def)
qed

lemma set_slot_state_armed [inv_rules]:
  assumes "armed_inv guards g" and "\<And>guard. ph \<noteq> G_Armed guard"
  shows "armed_inv (guards(k \<mapsto> ph)) (set_slot_state k st g)"
proof -
  have "k' \<noteq> k \<Longrightarrow> (k', s) \<in> set m \<Longrightarrow>
      (k', s) \<in> set (sm_update k (\<lambda>slot. Publish_Slot (slot_commit_ts slot) st) m)"
    for k' s and m :: "(u64, 'a publish_slot) smap"
    by (induction m) auto
  then show ?thesis using assms by (fastforce simp: armed_inv_def set_slot_state_def)
qed

lemma armed_inv_forget [inv_rules]:
  assumes "armed_inv guards g" and "\<And>guard. ph \<noteq> G_Armed guard"
  shows "armed_inv (guards(k \<mapsto> ph)) g"
  using assms by (auto simp: armed_inv_def)

lemma poison_armed_inv [inv_rules]: "armed_inv guards g \<Longrightarrow> armed_inv guards (poison r g)"
  by (auto simp: poison_def armed_inv_def split: option.splits)

text \<open>What the handlers do to the sequencer: nothing, or set one slot's state (or
  none) and advance.\<close>

lemma mark_ready_effect:
  assumes "mark_ready guard publish g env = (out, g', env')"
  shows "g' = g \<and> env' = env \<or>
    g' = fst (snd (advance_window_locked
           (set_slot_state (publish_seq guard) (Slot_Ready publish_dirty_default publish) g) env))"
  using assms by (auto simp: mark_ready_def Let_def split: option.splits prod.splits sum.splits)

lemma mark_ready_wake_effect:
  "mark_ready_wake k g env = (out, g', env') \<Longrightarrow> g' = fst (snd (advance_window_locked g env))"
  by (auto simp: mark_ready_wake_def split: prod.splits sum.splits)

lemma mark_aborted_effect:
  "mark_aborted_from_drop k g env = (g', env') \<Longrightarrow>
   g' = g \<or> g' = fst (snd (advance_window_locked (set_slot_state k Slot_Aborted g) env))"
  by (auto simp: mark_aborted_from_drop_def split: option.splits)

lemma phase_not_armed [simp]: "phase_of_outcome k out \<noteq> G_Armed guard"
  by (cases out) auto

lemma world_inv_advance:
  assumes "world_inv w" and "\<And>guard. ph \<noteq> G_Armed guard"
    and "g' = w_seq w \<or> g' = fst (snd (advance_window_locked (w_seq w) env)) \<or>
         g' = fst (snd (advance_window_locked (set_slot_state k st (w_seq w)) env))"
  shows "world_inv (w\<lparr>w_seq := g', w_env := env', w_guards := (w_guards w)(k \<mapsto> ph)\<rparr>)"
proof -
  have inv: "window_inv (w_seq w) (w_hlc w)" "issued_inv (issued w) (w_seq w) (w_hlc w)"
    "armed_inv ((w_guards w)(k \<mapsto> ph)) (w_seq w)"
    "armed_inv ((w_guards w)(k \<mapsto> ph)) (set_slot_state k st (w_seq w))"
    using assms(1,2) by (simp_all add: world_inv_def armed_inv_forget set_slot_state_armed)
  then have "window_inv (set_slot_state k st (w_seq w)) (w_hlc w)"
    "issued_inv (issued w) (set_slot_state k st (w_seq w)) (w_hlc w)"
    by (simp_all add: set_slot_state_inv set_slot_state_issued_inv)
  with inv show ?thesis
    using assms(3) unfolding world_inv_def
    by (auto intro: advance_window_inv advance_issued_inv advance_armed_inv)
qed

lemma world_inv_register:
  assumes inv: "world_inv w"
    and reg: "register_with_oracle wall (w_seq w) (w_hlc w) = (Inr guard, g', h')"
  shows "world_inv (w\<lparr>w_seq := g', w_hlc := h',
      w_guards := (w_guards w)(publish_seq guard \<mapsto> G_Armed guard),
      issued := issued w @ [(publish_seq guard, guard_commit_ts guard)]\<rparr>)"
proof -
  have win: "window_inv (w_seq w) (w_hlc w)" using inv by (simp add: world_inv_def)
  note ok = register_ok [OF win reg]
  have same: "published_frontier g' = published_frontier (w_seq w)"
    "last_published g' = last_published (w_seq w)"
    and pend: "pending g' = pending (w_seq w) @
      [(next_seq (w_seq w), Publish_Slot (guard_commit_ts guard) Slot_Pending)]"
    by (subst ok(6), simp)+
  have lt: "next_seq (w_seq w) < next_seq g'" using ok(5) by (simp add: word_less_nat_alt)
  have now: "oracle_now (w_hlc w) < oracle_now h'" "published_frontier (w_seq w) \<le> oracle_now (w_hlc w)"
    using ok(3,4) win by (simp_all add: window_inv_def)
  have "issued_inv (issued w @ [(publish_seq guard, guard_commit_ts guard)]) g' h'"
    using inv lt now ok(2,4) unfolding issued_inv_def world_inv_def same
    by (auto simp: sorted_wrt_append slot_pairs_def pend same intro: less_trans le_less_trans order_trans)
  moreover have "armed_inv ((w_guards w)(publish_seq guard \<mapsto> G_Armed guard)) g'"
    using inv ok(2) pend by (auto simp: world_inv_def armed_inv_def)
  ultimately show ?thesis
    using register_window_inv [OF win reg] by (simp add: world_inv_def)
qed

lemma world_inv_register_fails:
  assumes "world_inv w" and "register_with_oracle wall (w_seq w) (w_hlc w) = (Inl e, g', h')"
  shows "world_inv (w\<lparr>w_seq := g', w_hlc := h'\<rparr>)"
proof -
  have "g' = w_seq w" "oracle_now (w_hlc w) \<le> oracle_now h'" using register_err [OF assms(2)] .
  moreover have "window_inv g' h'" using assms register_window_inv by (auto simp: world_inv_def)
  ultimately show ?thesis using assms(1) by (fastforce simp: world_inv_def issued_inv_def)
qed

lemma seq_step_world_inv [inv_rules]:
  assumes "seq_step w w'" and inv: "world_inv w"
  shows "world_inv w'"
  using assms(1)
proof (cases rule: seq_step.cases)
  case (step_mark_ready k guard publish out g' env')
  then have "publish_seq guard = k" using inv by (simp add: world_inv_def armed_inv_def)
  then show ?thesis
    using step_mark_ready mark_ready_effect [OF step_mark_ready(3)]
    by (auto intro!: world_inv_advance [OF inv])
next
  case (step_wake k out g' env')
  then show ?thesis using mark_ready_wake_effect [OF step_wake(3)]
    by (auto intro!: world_inv_advance [OF inv])
next
  case (step_mark_aborted k guard g' env')
  then have "publish_seq guard = k" using inv by (simp add: world_inv_def armed_inv_def)
  then show ?thesis
    using step_mark_aborted mark_aborted_effect [of k "w_seq w"]
    by (auto simp: mark_aborted_def intro!: world_inv_advance [OF inv])
next
  case (step_drop k guard g' env')
  then show ?thesis using mark_aborted_effect [OF step_drop(3)]
    by (auto intro!: world_inv_advance [OF inv])
next
  case (step_poison reason)
  then show ?thesis using inv
    by (simp add: world_inv_def poison_window_inv poison_issued_inv poison_armed_inv)
qed (use inv in \<open>auto intro: world_inv_register world_inv_register_fails\<close>)

lemma seq_start_inv: "seq_start w \<Longrightarrow> world_inv w"
proof -
  assume "seq_start w"
  then obtain f n where n: "0 < n" and g: "w_seq w = new_inner f n" and f: "f \<le> oracle_now (w_hlc w)"
    and rest: "w_guards w = Map.empty" "issued w = []"
    by (auto simp: seq_start_def)
  have "1 \<le> n" using n by (metis word_gt_0 word_not_simps(1) leI word_less_1)
  then have "saturating_sub n 1 < n"
    using n by (simp add: saturating_sub_def word_less_nat_alt unat_sub word_le_nat_alt)
  then show ?thesis
    using g f rest
    by (simp add: world_inv_def window_inv_def issued_inv_def armed_inv_def new_inner_def
        slot_keys_def slot_times_def slot_pairs_def)
qed

lemma seq_reachable_inv: "seq_reachable w \<Longrightarrow> world_inv w"
  by (induction rule: seq_reachable.induct) (auto intro: seq_start_inv seq_step_world_inv)

section \<open>Density, and what a failed publish does\<close>

text \<open>The window is dense while every slot between \<open>last_published\<close> and \<open>next_seq\<close> is
  present. The only thing that breaks density is a publish closure that fails:
  its slot is gone and the window stands before the gap for good.\<close>

definition dense :: "'e publish_sequencer \<Rightarrow> bool" where
  "dense g \<longleftrightarrow> map unat (slot_keys g) = [Suc (unat (last_published g)) ..< unat (next_seq g)]"

definition gap :: "'e publish_sequencer \<Rightarrow> bool" where
  "gap g \<longleftrightarrow> Suc (unat (last_published g)) < unat (next_seq g) \<and>
     (\<forall>k \<in> set (slot_keys g). Suc (unat (last_published g)) < unat k)"

lemma slot_keys_Cons: "pending g = (k, s) # rest \<Longrightarrow> slot_keys g = k # map fst rest"
  by (simp add: slot_keys_def)

lemma dense_head:
  assumes "dense g" and "pending g = (k, s) # rest"
  shows "unat k = Suc (unat (last_published g))" and "unat k < unat (next_seq g)"
    and "map unat (map fst rest) = [Suc (unat k) ..< unat (next_seq g)]"
proof -
  have "[Suc (unat (last_published g)) ..< unat (next_seq g)] = unat k # map unat (map fst rest)"
    using assms by (simp add: dense_def slot_keys_Cons)
  then show "unat k = Suc (unat (last_published g))" "unat k < unat (next_seq g)"
    "map unat (map fst rest) = [Suc (unat k) ..< unat (next_seq g)]"
    by (auto simp: upt_eq_Cons_conv)
qed

lemma dense_take:
  assumes "dense g" and "pending g = (k, s) # rest"
  shows "dense (g\<lparr>pending := rest, published_frontier := t, last_published := k\<rparr>)"
    and "dense (g\<lparr>pending := rest, last_published := k\<rparr>)"
    and "gap (g\<lparr>pending := rest\<rparr>)"
proof -
  note h = dense_head [OF assms]
  show "dense (g\<lparr>pending := rest, published_frontier := t, last_published := k\<rparr>)"
    "dense (g\<lparr>pending := rest, last_published := k\<rparr>)"
    using h by (simp_all add: dense_def slot_keys_def)
  have "unat k < unat k'" if "k' \<in> set (map fst rest)" for k'
  proof -
    have "unat k' \<in> set [Suc (unat k) ..< unat (next_seq g)]"
      using that h(3) by (metis image_eqI set_map)
    then show ?thesis by simp
  qed
  then show "gap (g\<lparr>pending := rest\<rparr>)"
    using h(1,2) by (auto simp: gap_def slot_keys_def)
qed

lemma gap_next: "gap g \<Longrightarrow> unat (saturating_add (last_published g) 1) = Suc (unat (last_published g))"
  using saturating_add_one [of "last_published g" "next_seq g"]
  by (simp add: gap_def word_less_nat_alt)

lemma gap_advance: "gap g \<Longrightarrow> snd (advance_window_locked g env) = (g, env)"
  using gap_next [of g]
  by (subst advance_window_locked.simps)
     (auto simp: Let_def gap_def slot_keys_def split: option.splits list.splits)

lemma advance_dense_or_gap: "dense g \<or> gap g \<Longrightarrow>
  dense (fst (snd (advance_window_locked g env))) \<or> gap (fst (snd (advance_window_locked g env)))"
proof (elim disjE)
  assume "dense g"
  have step: "\<not> (gap g \<and> pending g = (k, s) # rest \<and> k = saturating_add (last_published g) 1)"
    for g :: "'a publish_sequencer" and k s rest
    using gap_next [of g] by (auto simp: gap_def slot_keys_def)
  show ?thesis
  proof (rule advance_keeps [where P = "\<lambda>g. dense g \<or> gap g"])
    show "dense g \<or> gap g" using \<open>dense g\<close> ..
  qed (use step in \<open>blast dest: dense_take\<close>)+
qed (simp add: gap_advance)

text \<open>An error of the loop, with no poison, comes from a closure, and leaves a gap.\<close>

lemma advance_error_gap:
  "dense g \<Longrightarrow> poisoned g = None \<Longrightarrow>
   \<not> is_ok (fst (advance_window_locked g env)) \<longrightarrow> gap (fst (snd (advance_window_locked g env)))"
proof (induction g env rule: advance_window_locked.induct)
  case (1 g env)
  show ?case
    using 1 dense_take [of g]
    by (subst (1 2) advance_window_locked.simps)
       (auto simp: Let_def split: list.splits publish_slot_state.splits prod.splits sum.splits)
qed

text \<open>When every slot is terminal and the closures succeed, one advance drains the
  window: it runs the closures in slot order and leaves the frontier at the
  last published timestamp.\<close>

fun publish_all :: "(u64, 'e publish_slot) smap \<Rightarrow> ts \<Rightarrow> 'e \<Rightarrow> ts \<times> 'e" where
  "publish_all [] frontier env = (frontier, env)"
| "publish_all ((k, s) # m) frontier env =
     (case slot_state s of
        Slot_Ready _ f \<Rightarrow> publish_all m (slot_commit_ts s) (snd (f (slot_commit_ts s) env))
      | _ \<Rightarrow> publish_all m frontier env)"

definition publishable :: "'e publish_slot \<Rightarrow> bool" where
  "publishable s \<longleftrightarrow>
     (case slot_state s of
        Slot_Pending \<Rightarrow> False
      | Slot_Ready _ f \<Rightarrow> (\<forall>env. is_ok (fst (f (slot_commit_ts s) env)))
      | Slot_Aborted \<Rightarrow> True)"

lemma dense_next:
  assumes "dense g" and "pending g = (k, s) # rest"
  shows "saturating_add (last_published g) 1 = k"
proof -
  note h = dense_head [OF assms]
  have "last_published g < k" using h(1) by (simp add: word_less_nat_alt)
  then show ?thesis using saturating_add_one [of "last_published g" k] h(1)
    by (simp add: word_unat_eq_iff)
qed

lemma advance_drains:
  assumes "dense g" and "poisoned g = None" and "\<forall>s \<in> snd ` set (pending g). publishable s"
  shows "advance_window_locked g env =
    (Inr (), g\<lparr>pending := [], published_frontier := fst (publish_all (pending g) (published_frontier g) env),
        last_published := last (last_published g # slot_keys g)\<rparr>,
     snd (publish_all (pending g) (published_frontier g) env))"
  using assms
proof (induction "pending g" arbitrary: g env)
  case Nil
  then show ?case by (subst advance_window_locked.simps) (simp add: slot_keys_def)
next
  case (Cons x rest)
  obtain k s where x: "x = (k, s)" by (cases x)
  have p: "pending g = (k, s) # rest" using Cons.hyps(2) x by simp
  note d = dense_take [OF Cons.prems(1) p] and nx = dense_next [OF Cons.prems(1) p]
  have pub: "publishable s" "\<forall>s \<in> snd ` set rest. publishable s" using Cons.prems(3) p by auto
  show ?case
  proof (cases "slot_state s")
    case (Slot_Ready dt f)
    then have "is_ok (fst (f (slot_commit_ts s) env))" using pub(1) by (simp add: publishable_def)
    then obtain env' where e: "f (slot_commit_ts s) env = (Inr (), env')"
      by (cases "f (slot_commit_ts s) env"; cases "fst (f (slot_commit_ts s) env)") auto
    then show ?thesis
      using Cons.hyps(1) [of "g\<lparr>pending := rest, published_frontier := slot_commit_ts s, last_published := k\<rparr>" env']
        d(1) Cons.prems(2) pub(2) p nx Slot_Ready
      by (subst advance_window_locked.simps) (simp add: slot_keys_def)
  next
    case Slot_Aborted
    then show ?thesis
      using Cons.hyps(1) [of "g\<lparr>pending := rest, last_published := k\<rparr>" env] d(2) Cons.prems(2) pub(2) p nx
      by (subst advance_window_locked.simps) (simp add: slot_keys_def)
  qed (use pub(1) in \<open>simp add: publishable_def\<close>)
qed

lemma set_slot_state_dense_gap [simp]:
  "dense (set_slot_state k st g) = dense g" "gap (set_slot_state k st g) = gap g"
  by (simp_all add: dense_def gap_def)

lemma poison_dense_gap [simp]: "dense (poison r g) = dense g" "gap (poison r g) = gap g"
  by (simp_all add: poison_def dense_def gap_def slot_keys_def split: option.splits)

lemma register_dense_gap:
  assumes "window_inv g h" and "register_with_oracle wall g h = (Inr guard, g', h')"
  shows "dense g \<Longrightarrow> dense g'" and "gap g \<Longrightarrow> gap g'"
    and "last_published g' = last_published g" and "published_frontier g' = published_frontier g"
proof -
  note ok = register_ok [OF assms]
  have g': "slot_keys g' = slot_keys g @ [next_seq g]" "last_published g' = last_published g"
    "published_frontier g' = published_frontier g"
    by (subst ok(6), simp add: slot_keys_def)+
  show "dense g \<Longrightarrow> dense g'" "gap g \<Longrightarrow> gap g'" "last_published g' = last_published g"
    "published_frontier g' = published_frontier g"
    using g' ok(5) assms(1)
    by (auto simp: dense_def gap_def window_inv_def word_less_nat_alt)
qed

text \<open>The sequencer's part of a step: registration, poison, or a window advance.\<close>

definition advance_of :: "'e publish_sequencer \<Rightarrow> 'e publish_sequencer \<Rightarrow> bool" where
  "advance_of g g' \<longleftrightarrow>
     (\<exists>env. g' = fst (snd (advance_window_locked g env))) \<or>
     (\<exists>k st env. g' = fst (snd (advance_window_locked (set_slot_state k st g) env)))"

lemma advance_of_dense_gap:
  assumes "advance_of g g'"
  shows "dense g \<or> gap g \<Longrightarrow> dense g' \<or> gap g'"
    and "gap g \<Longrightarrow> gap g' \<and> published_frontier g' = published_frontier g \<and> last_published g' = last_published g"
    and "window_inv g h \<Longrightarrow> published_frontier g \<le> published_frontier g' \<and> last_published g \<le> last_published g'"
proof -
  obtain g1 env where g1: "g1 = g \<or> (\<exists>k st. g1 = set_slot_state k st g)"
    and g': "g' = fst (snd (advance_window_locked g1 env))"
    using assms by (auto simp: advance_of_def)
  have same: "dense g1 = dense g" "gap g1 = gap g" "published_frontier g1 = published_frontier g"
    "last_published g1 = last_published g" "window_inv g h \<Longrightarrow> window_inv g1 h"
    using g1 by (auto intro: set_slot_state_inv)
  show "dense g \<or> gap g \<Longrightarrow> dense g' \<or> gap g'"
    using advance_dense_or_gap [of g1 env] same(1,2) g' by simp
  show "gap g \<Longrightarrow> gap g' \<and> published_frontier g' = published_frontier g \<and> last_published g' = last_published g"
    using gap_advance [of g1 env] same g' by simp
  show "window_inv g h \<Longrightarrow> published_frontier g \<le> published_frontier g' \<and> last_published g \<le> last_published g'"
    using advance_advanced [of g1 h env] same g' by (simp add: advanced_def)
qed

lemma seq_step_sequencer:
  assumes "seq_step w w'"
  obtains (register) wall guard where
      "register_with_oracle wall (w_seq w) (w_hlc w) = (Inr guard, w_seq w', w_hlc w')"
  | (poisoned) r where "w_seq w' = poison r (w_seq w)"
  | (same) "w_seq w' = w_seq w"
  | (advance) "advance_of (w_seq w) (w_seq w')"
  using assms
proof (cases rule: seq_step.cases)
  case (step_mark_ready k guard publish out g' env')
  then show ?thesis using mark_ready_effect [OF step_mark_ready(3)] same advance
    by (auto simp: advance_of_def)
next
  case (step_wake k out g' env')
  then show ?thesis using mark_ready_wake_effect [OF step_wake(3)] advance
    by (auto simp: advance_of_def)
next
  case (step_mark_aborted k guard g' env')
  then show ?thesis
    using mark_aborted_effect [OF step_mark_aborted(3) [unfolded mark_aborted_def]] same advance
    by (auto simp: advance_of_def)
next
  case (step_drop k guard g' env')
  then show ?thesis using mark_aborted_effect [OF step_drop(3)] same advance
    by (auto simp: advance_of_def)
next
  case (step_register_fails wall e g' h')
  then show ?thesis using register_err [OF step_register_fails(2)] same by simp
next
  case (step_register wall guard g' h')
  then show ?thesis using register [of wall guard] by simp
next
  case (step_poison reason)
  then show ?thesis using poisoned [of reason] by simp
qed

lemma poison_same [simp]:
  "published_frontier (poison r g) = published_frontier g" "last_published (poison r g) = last_published g"
  by (simp_all add: poison_def split: option.splits)

lemma seq_step_dense_or_gap:
  assumes "seq_step w w'" and "world_inv w" and "dense (w_seq w) \<or> gap (w_seq w)"
  shows "dense (w_seq w') \<or> gap (w_seq w')"
  using assms(1)
proof (cases rule: seq_step_sequencer)
  case (register wall guard)
  then show ?thesis using register_dense_gap [OF _ register] assms(2,3) by (auto simp: world_inv_def)
qed (use assms(3) advance_of_dense_gap(1) in auto)

lemma seq_reachable_dense_or_gap: "seq_reachable w \<Longrightarrow> dense (w_seq w) \<or> gap (w_seq w)"
proof (induction rule: seq_reachable.induct)
  case (seq_reach_start w)
  then obtain f n where "0 < n" "w_seq w = new_inner f n" by (auto simp: seq_start_def)
  then show ?case
    by (auto simp: dense_def slot_keys_def new_inner_def saturating_sub_def unat_sub word_le_nat_alt word_less_nat_alt)
next
  case (seq_reach_step w w')
  then show ?case using seq_step_dense_or_gap seq_reachable_inv by blast
qed

lemma seq_step_gap:
  assumes "seq_step w w'" and "world_inv w" and "gap (w_seq w)"
  shows "gap (w_seq w') \<and> published_frontier (w_seq w') = published_frontier (w_seq w) \<and>
    last_published (w_seq w') = last_published (w_seq w)"
  using assms(1)
proof (cases rule: seq_step_sequencer)
  case (register wall guard)
  then show ?thesis using register_dense_gap [OF _ register] assms(2,3) by (auto simp: world_inv_def)
qed (use assms(3) advance_of_dense_gap(2) in auto)

lemma seq_step_forward:
  assumes "seq_step w w'" and "world_inv w"
  shows "published_frontier (w_seq w) \<le> published_frontier (w_seq w') \<and>
    last_published (w_seq w) \<le> last_published (w_seq w')"
  using assms(1)
proof (cases rule: seq_step_sequencer)
  case (register wall guard)
  then show ?thesis using register_dense_gap(3,4) [OF _ register] assms(2) by (simp add: world_inv_def)
qed (use assms(2) advance_of_dense_gap(3) in \<open>auto simp: world_inv_def\<close>)

lemma seq_steps_gap:
  assumes "rtranclp seq_step w w'" and "world_inv w" and "gap (w_seq w)"
  shows "world_inv w' \<and> gap (w_seq w') \<and> published_frontier (w_seq w') = published_frontier (w_seq w) \<and>
     last_published (w_seq w') = last_published (w_seq w)"
  using assms
proof (induction rule: rtranclp_induct)
  case (step w1 w2)
  then show ?case using seq_step_gap [of w1 w2] seq_step_world_inv [of w1 w2] by simp
qed simp

section \<open>A concrete run\<close>

text \<open>One writer registers at wall time 5 and publishes; a second registers at wall
  time 5 and its closure fails.\<close>

definition ex_ok :: "unit publish_closure" where "ex_ok = (\<lambda>t env. (Inr (), env))"
definition ex_bad :: "unit publish_closure" where "ex_bad = (\<lambda>t env. (Inl (Internal ''x''), env))"

definition ex_start :: "unit seq_world" where
  "ex_start = \<lparr>w_seq = new_inner ts_default 1, w_env = (), w_hlc = hlc_default,
     w_guards = Map.empty, issued = []\<rparr>"

definition ex_registered :: "unit seq_world" where
  "ex_registered = \<lparr>w_seq = \<lparr>next_seq = 2, last_published = 0,
       pending = [(1, Publish_Slot (Ts 5 0) Slot_Pending)], poisoned = None,
       published_frontier = ts_default\<rparr>,
     w_env = (), w_hlc = \<lparr>hlc_physical_ms = 5, hlc_logical = 0\<rparr>,
     w_guards = [1 \<mapsto> G_Armed (Slot_Guard 1 (Ts 5 0))], issued = [(1, Ts 5 0)]\<rparr>"

definition ex_published :: "unit seq_world" where
  "ex_published = \<lparr>w_seq = \<lparr>next_seq = 2, last_published = 1, pending = [], poisoned = None,
       published_frontier = Ts 5 0\<rparr>,
     w_env = (), w_hlc = \<lparr>hlc_physical_ms = 5, hlc_logical = 0\<rparr>,
     w_guards = [1 \<mapsto> G_Returned (Inr ())], issued = [(1, Ts 5 0)]\<rparr>"

definition ex_failed :: "unit publish_sequencer" where
  "ex_failed = \<lparr>next_seq = 2, last_published = 0, pending = [], poisoned = None,
     published_frontier = ts_default\<rparr>"

lemma ex_register:
  "register_with_oracle 5 (w_seq ex_start) (w_hlc ex_start) =
     (Inr (Slot_Guard 1 (Ts 5 0)), w_seq ex_registered, w_hlc ex_registered)"
  by (simp add: ex_start_def ex_registered_def register_with_oracle_def new_inner_def hlc_default_def
      oracle_commit_def oracle_now_def checked_add_def saturating_sub_def Let_def)

lemma ex_mark_ready:
  "mark_ready (Slot_Guard 1 (Ts 5 0)) ex_ok (w_seq ex_registered) () =
     (Returned (Inr ()), w_seq ex_published, ())"
  "mark_ready (Slot_Guard 1 (Ts 5 0)) ex_bad (w_seq ex_registered) () =
     (Returned (Inl (Internal ''x'')), ex_failed, ())"
  by (simp_all add: ex_registered_def ex_published_def ex_failed_def mark_ready_def set_slot_state_def sm_get_def
      advance_window_locked.simps saturating_add_def checked_add_def ex_ok_def ex_bad_def wait_or_return_def Let_def)

lemma ex_reachable: "seq_reachable ex_registered" "seq_reachable ex_published"
proof -
  have "seq_start ex_start"
    by (auto simp: seq_start_def ex_start_def intro!: exI [of _ ts_default] exI [of _ "1::u64"])
  then have "seq_reachable ex_start" by (rule seq_reach_start)
  moreover have "seq_step ex_start ex_registered"
    using step_register [OF ex_register] by (simp add: ex_start_def ex_registered_def)
  ultimately show r: "seq_reachable ex_registered" by (rule seq_reach_step)
  have "seq_step ex_registered ex_published"
    using step_mark_ready [of ex_registered 1 "Slot_Guard 1 (Ts 5 0)" ex_ok] ex_mark_ready(1)
    by (simp add: ex_registered_def ex_published_def)
  with r show "seq_reachable ex_published" by (rule seq_reach_step)
qed

section \<open>Properties\<close>

text \<open>Property C1. The frontier is a sound visibility bound: in every reachable
  state, a commit whose timestamp the published frontier has reached is out of
  the window (its slot number is at most \<open>last_published\<close>, its slot is gone)
  and its writer no longer holds an armed guard, so it has been published or
  aborted and cannot still be in flight.\<close>

theorem frontier_sound:
  assumes "seq_reachable w" and "(k, t) \<in> set (issued w)" and "t \<le> published_frontier (w_seq w)"
  shows "k \<le> last_published (w_seq w) \<and> k \<notin> set (slot_keys (w_seq w)) \<and>
    (\<forall>guard. w_guards w k \<noteq> Some (G_Armed guard))"
proof -
  have inv: "world_inv w" using seq_reachable_inv [OF assms(1)] .
  then have k: "k \<le> last_published (w_seq w)"
    using assms(2,3) by (auto simp: world_inv_def issued_inv_def)
  then have "k \<notin> set (slot_keys (w_seq w))" using inv by (auto simp: world_inv_def window_inv_def)
  then show ?thesis using k inv
    by (fastforce simp: world_inv_def armed_inv_def slot_keys_def image_iff)
qed

theorem frontier_sound_witness:
  "(1, Ts 5 0) \<in> set (issued ex_published) \<and> 1 \<le> last_published (w_seq ex_published) \<and>
   1 \<notin> set (slot_keys (w_seq ex_published))"
  using frontier_sound [OF ex_reachable(2), of 1 "Ts 5 0"] by (simp add: ex_published_def)

text \<open>Property C2. Slot order is commit order and nothing moves backwards: in every
  reachable state the issued slot numbers and timestamps increase together,
  and every step leaves the published frontier and the window's start where
  they were or further on.\<close>

theorem publish_order_monotone:
  assumes "seq_reachable w" and "seq_step w w'"
  shows "sorted_wrt (\<lambda>(k, t) (k', t'). k < k' \<and> t < t') (issued w) \<and>
    published_frontier (w_seq w) \<le> published_frontier (w_seq w') \<and>
    last_published (w_seq w) \<le> last_published (w_seq w')"
  using seq_step_forward [OF assms(2)] seq_reachable_inv [OF assms(1)]
  by (simp add: world_inv_def issued_inv_def)

theorem publish_order_monotone_witness:
  "published_frontier (w_seq ex_start) \<le> published_frontier (w_seq ex_registered) \<and>
   last_published (w_seq ex_start) \<le> last_published (w_seq ex_registered)"
proof -
  have "seq_start ex_start"
    by (auto simp: seq_start_def ex_start_def intro!: exI [of _ ts_default] exI [of _ "1::u64"])
  moreover have "seq_step ex_start ex_registered"
    using step_register [OF ex_register] by (simp add: ex_start_def ex_registered_def)
  ultimately show ?thesis
    using publish_order_monotone [of ex_start ex_registered] by (simp add: seq_reach_start)
qed

text \<open>Property C3. A failed publish closure freezes the sequencer: if \<open>mark_ready\<close> on
  a healthy, unwedged sequencer returns an error, then no later step, by any
  thread, moves the published frontier or the window again, so no successor of
  the failed commit is ever published.\<close>

theorem publish_failure_freezes:
  assumes "seq_reachable w" and "poisoned (w_seq w) = None" and "dense (w_seq w)"
    and "w_guards w k = Some (G_Armed guard)"
    and "mark_ready guard publish (w_seq w) (w_env w) = (Returned (Inl e), g', env')"
    and "rtranclp seq_step (w\<lparr>w_seq := g', w_env := env', w_guards := (w_guards w)(k \<mapsto> G_Returned (Inl e))\<rparr>) w'"
  shows "published_frontier (w_seq w') = published_frontier g' \<and>
    last_published (w_seq w') = last_published g'"
proof -
  let ?w1 = "w\<lparr>w_seq := g', w_env := env', w_guards := (w_guards w)(k \<mapsto> G_Returned (Inl e))\<rparr>"
  let ?g1 = "set_slot_state (publish_seq guard) (Slot_Ready publish_dirty_default publish) (w_seq w)"
  have step: "seq_step w ?w1" using step_mark_ready [OF assms(4,5)] by simp
  have "(\<exists>r. advance_window_locked ?g1 (w_env w) = (Inl r, g', env')) \<or>
    (\<exists>r. wait_or_return (publish_seq guard) g' = Returned (Inl r) \<and> poisoned g' = None)"
    using assms(2,5) advance_advanced [of ?g1 "w_hlc w" "w_env w"] seq_reachable_inv [OF assms(1)]
    by (auto simp: mark_ready_def Let_def world_inv_def set_slot_state_inv advanced_def
        split: option.splits prod.splits sum.splits)
  then obtain r where "advance_window_locked ?g1 (w_env w) = (Inl r, g', env')"
    by (auto simp: wait_or_return_def split: if_splits)
  then have "gap g'" using advance_error_gap [of ?g1 "w_env w"] assms(2,3) by simp
  then show ?thesis
    using seq_steps_gap [OF assms(6)] seq_step_world_inv [OF step] seq_reachable_inv [OF assms(1)] by simp
qed

theorem publish_failure_freezes_witness:
  "\<exists>w'. seq_step (ex_registered\<lparr>w_seq := ex_failed, w_guards := [1 \<mapsto> G_Returned (Inl (Internal ''x''))]\<rparr>) w' \<and>
     published_frontier (w_seq w') = ts_default \<and> last_published (w_seq w') = 0"
proof -
  let ?w1 = "ex_registered\<lparr>w_seq := ex_failed, w_guards := [1 \<mapsto> G_Returned (Inl (Internal ''x''))]\<rparr>"
  have upd: "ex_registered\<lparr>w_seq := ex_failed, w_env := (), w_guards := (w_guards ex_registered)(1 \<mapsto> G_Returned (Inl (Internal ''x'')))\<rparr> = ?w1"
    by (simp add: ex_registered_def)
  have st: "seq_step ?w1 (?w1\<lparr>w_seq := poison PostDurablePublishFailure (w_seq ?w1)\<rparr>)" by (rule step_poison)
  have "dense (w_seq ex_registered)" by (simp add: dense_def ex_registered_def slot_keys_def upt_rec)
  then have "published_frontier (w_seq (?w1\<lparr>w_seq := poison PostDurablePublishFailure (w_seq ?w1)\<rparr>)) = published_frontier ex_failed \<and>
      last_published (w_seq (?w1\<lparr>w_seq := poison PostDurablePublishFailure (w_seq ?w1)\<rparr>)) = last_published ex_failed"
    using publish_failure_freezes [OF ex_reachable(1), of 1 "Slot_Guard 1 (Ts 5 0)" ex_bad "Internal ''x''" ex_failed "()"
      "?w1\<lparr>w_seq := poison PostDurablePublishFailure (w_seq ?w1)\<rparr>"] ex_mark_ready(2) st upd
    by (simp add: ex_registered_def r_into_rtranclp)
  then show ?thesis using st by (auto simp: ex_failed_def)
qed

text \<open>Property C4. Nothing is stranded behind a finished writer: on a healthy, dense
  window whose slots are all terminal and whose closures succeed, one advance
  empties the window, runs the ready closures in slot order, skips the aborted
  ones, leaves the frontier at the last published timestamp, and brings
  \<open>last_published\<close> to the last issued slot.\<close>

theorem window_drains:
  assumes "dense g" and "poisoned g = None" and "\<forall>s \<in> snd ` set (pending g). publishable s"
  shows "\<exists>g'. advance_window_locked g env =
      (Inr (), g', snd (publish_all (pending g) (published_frontier g) env)) \<and>
    pending g' = [] \<and> published_frontier g' = fst (publish_all (pending g) (published_frontier g) env) \<and>
    last_published g' = last (last_published g # slot_keys g)"
  using advance_drains [OF assms] by simp

theorem window_drains_witness:
  "\<exists>g'. advance_window_locked (set_slot_state 1 (Slot_Ready publish_dirty_default ex_ok) (w_seq ex_registered)) () =
      (Inr (), g', ()) \<and> pending g' = [] \<and> published_frontier g' = Ts 5 0 \<and> last_published g' = 1"
  using window_drains [of "set_slot_state 1 (Slot_Ready publish_dirty_default ex_ok) (w_seq ex_registered)" "()"]
  by (simp add: dense_def ex_registered_def slot_keys_def set_slot_state_def publishable_def ex_ok_def upt_rec)

end
