(* ===== verification/Version_Chain.thy ===== *)
theory Version_Chain
  imports Publish_Sequencer
begin

text \<open>
  Version chains and what readers see of them: version entries
  (\<open>src/src/mvcc/version.rs\<close>), the visibility predicate and the chain snapshot
  (\<open>src/src/mvcc/chain_snapshot.rs\<close>), first-committer-wins installation of a
  pending head (\<open>src/src/storage/paged_engine/pending_install.rs\<close>) and the commit
  or abort flip of that head (\<open>src/src/storage/buffer_pool/latched_page.rs\<close>).

  A chain is a list, newest first, as the \<open>VecDeque\<close> is kept. The refcount a
  clone of an overflow reference takes belongs to the allocator's theory; here
  an overflow payload is its first page and length.
\<close>

section \<open>Entries\<close>

datatype version_data = Inline bytes | Overflow (vd_first_page: u32) (vd_total_length: u64)

datatype version_state = Pending u64 | Committed | Aborted

record version_entry =
  start_ts :: ts
  stop_ts :: ts
  txn_id :: u64
  state :: version_state
  data :: version_data
  is_tombstone :: bool

type_synonym chain = "version_entry list"

definition is_live_head :: "version_entry \<Rightarrow> bool" where
  "is_live_head e \<longleftrightarrow> stop_ts e = ts_max \<and> state e \<noteq> Aborted"

definition live_head :: "chain \<Rightarrow> version_entry option" where
  "live_head c = find is_live_head c"

section \<open>Visibility\<close>

text \<open>The parts of a \<open>ReadView\<close> the predicate reads: the view's timestamp, its
  transaction, and the sequencer frontier at the moment of the read.\<close>

record view =
  read_ts :: ts
  view_txn_id :: u64
  sequencer_frontier :: ts

definition version_visible_to :: "version_entry \<Rightarrow> view \<Rightarrow> bool" where
  "version_visible_to e v \<longleftrightarrow>
     (case state e of
        Pending t \<Rightarrow>
          if t = view_txn_id v then True
          else start_ts e \<le> read_ts v \<and> read_ts v < stop_ts e \<and> start_ts e \<le> sequencer_frontier v
      | Committed \<Rightarrow> start_ts e \<le> read_ts v \<and> read_ts v < stop_ts e
      | Aborted \<Rightarrow> False)"

type_synonym chain_map = "(bytes, chain) smap"

definition visible_in :: "chain \<Rightarrow> view \<Rightarrow> version_entry option" where
  "visible_in c v = find (\<lambda>e. version_visible_to e v) c"

definition visible_at :: "chain_map \<Rightarrow> bytes \<Rightarrow> view \<Rightarrow> version_entry option" where
  "visible_at cm key v =
     (case sm_get cm key of None \<Rightarrow> None | Some c \<Rightarrow> visible_in c v)"

definition is_pending :: "version_entry \<Rightarrow> bool" where
  "is_pending e = (case state e of Pending _ \<Rightarrow> True | _ \<Rightarrow> False)"

definition chain_is_history_candidate :: "chain \<Rightarrow> ts \<Rightarrow> bool" where
  "chain_is_history_candidate c r \<longleftrightarrow> list_all (\<lambda>e. start_ts e > r \<or> is_pending e) c"

definition history_is_candidate :: "chain_map \<Rightarrow> bytes \<Rightarrow> ts \<Rightarrow> bool" where
  "history_is_candidate cm key r \<longleftrightarrow>
     (case sm_get cm key of None \<Rightarrow> True | Some c \<Rightarrow> chain_is_history_candidate c r)"

text \<open>The two range iterators, over the keys a bound pair admits.\<close>

datatype bound = Included bytes | Excluded bytes | Unbounded

fun after_start :: "bound \<Rightarrow> bytes \<Rightarrow> bool" where
  "after_start (Included b) k = (b \<le> k)"
| "after_start (Excluded b) k = (b < k)"
| "after_start Unbounded k = True"

fun before_end :: "bound \<Rightarrow> bytes \<Rightarrow> bool" where
  "before_end (Included b) k = (k \<le> b)"
| "before_end (Excluded b) k = (k < b)"
| "before_end Unbounded k = True"

definition in_bounds :: "bound \<Rightarrow> bound \<Rightarrow> bytes \<Rightarrow> bool" where
  "in_bounds lo hi k \<longleftrightarrow> after_start lo k \<and> before_end hi k"

definition visible_range :: "chain_map \<Rightarrow> bound \<Rightarrow> bound \<Rightarrow> view \<Rightarrow> (bytes \<times> version_entry) list" where
  "visible_range cm lo hi v =
     List.map_filter (\<lambda>(k, c). map_option (Pair k) (visible_in c v)) (sm_range (in_bounds lo hi) cm)"

definition history_candidate_keys_without_visible_entry ::
  "chain_map \<Rightarrow> bound \<Rightarrow> bound \<Rightarrow> view \<Rightarrow> ts \<Rightarrow> bytes list" where
  "history_candidate_keys_without_visible_entry cm lo hi v r =
     List.map_filter
       (\<lambda>(k, c). if list_ex (\<lambda>e. version_visible_to e v) c then None
                 else if chain_is_history_candidate c r then Some k else None)
       (sm_range (in_bounds lo hi) cm)"

section \<open>Installing a pending head\<close>

datatype expected_head = Expected_Head (eh_commit_ts: ts) (eh_txn_id: u64)

datatype install_conflict_scope = Primary_Scope | Secondary_Scope

datatype conflict_classification = AlreadyInstalledBySelf | Proceed

definition KEY_PREVIEW_BYTES :: nat where "KEY_PREVIEW_BYTES = 32"

definition key_preview :: "bytes \<Rightarrow> bytes" where
  "key_preview key = take KEY_PREVIEW_BYTES key"

definition classify_delta_install ::
  "chain \<Rightarrow> expected_head option \<Rightarrow> install_conflict_scope \<Rightarrow> bytes \<Rightarrow> u64 \<Rightarrow> conflict_classification result" where
  "classify_delta_install c expected scope key txn =
     (case live_head c of
        None \<Rightarrow> Inr Proceed
      | Some head \<Rightarrow>
          if state head = Pending txn then Inr AlreadyInstalledBySelf
          else (case expected of
                  Some ex \<Rightarrow>
                    if Expected_Head (start_ts head) (txn_id head) = ex
                    then if state head = Committed \<and> \<not> is_tombstone head then Inr Proceed
                         else Inl (WriteConflict StaleSnapshot)
                    else Inl (WriteConflict StaleSnapshot)
                | None \<Rightarrow>
                    if scope = Primary_Scope
                    then if state head = Committed \<and> is_tombstone head then Inr Proceed
                         else Inl (WriteConflict (SameKeyConflict (key_preview key)))
                    else Inr Proceed))"

text \<open>The write itself: end the live head's window at the commit timestamp and push
  the pending entry on the front.\<close>

fun stop_live_head :: "ts \<Rightarrow> chain \<Rightarrow> chain" where
  "stop_live_head t [] = []"
| "stop_live_head t (e # c) =
     (if is_live_head e then e\<lparr>stop_ts := t\<rparr> # c else e # stop_live_head t c)"

definition push_pending :: "chain \<Rightarrow> ts \<Rightarrow> u64 \<Rightarrow> version_data \<Rightarrow> bool \<Rightarrow> chain" where
  "push_pending c commit_ts txn d tomb =
     \<lparr>start_ts = commit_ts, stop_ts = ts_max, txn_id = txn, state = Pending txn, data = d,
      is_tombstone = tomb\<rparr> # stop_live_head commit_ts c"

datatype primary_op = P_Insert bytes | P_Update bytes | P_Delete
datatype sec_index_op = S_Insert bytes | S_Delete

fun primary_payload :: "primary_op \<Rightarrow> version_data \<times> bool" where
  "primary_payload (P_Insert d) = (Inline d, False)"
| "primary_payload (P_Update d) = (Inline d, False)"
| "primary_payload P_Delete = (Inline [], True)"

fun sec_index_payload :: "sec_index_op \<Rightarrow> version_data \<times> bool" where
  "sec_index_payload (S_Insert d) = (Inline d, False)"
| "sec_index_payload S_Delete = (Inline [], True)"

text \<open>One write of the install loop on its chain: classify, then skip or push.\<close>

definition install_on_chain ::
  "chain \<Rightarrow> expected_head option \<Rightarrow> install_conflict_scope \<Rightarrow> bytes \<Rightarrow> version_data \<times> bool \<Rightarrow> ts \<Rightarrow> u64 \<Rightarrow> chain result" where
  "install_on_chain c expected scope key payload commit_ts txn =
     rbind (classify_delta_install c expected scope key txn)
       (\<lambda>cls. case cls of
          AlreadyInstalledBySelf \<Rightarrow> Inr c
        | Proceed \<Rightarrow> Inr (push_pending c commit_ts txn (fst payload) (snd payload)))"

section \<open>The commit and abort flip\<close>

fun restore_first :: "ts \<Rightarrow> chain \<Rightarrow> chain" where
  "restore_first t [] = []"
| "restore_first t (e # c) =
     (if state e \<noteq> Aborted \<and> stop_ts e = t then e\<lparr>stop_ts := ts_max\<rparr> # c else e # restore_first t c)"

definition restore_previous_head_after_abort :: "chain \<Rightarrow> nat \<Rightarrow> ts \<Rightarrow> chain" where
  "restore_previous_head_after_abort c idx t = take (idx + 1) c @ restore_first t (drop (idx + 1) c)"

definition flip_at :: "nat \<Rightarrow> u64 \<Rightarrow> ts option \<Rightarrow> chain \<times> nat \<Rightarrow> chain \<times> nat" where
  "flip_at idx txn commit_ts = (\<lambda>(c, flipped).
     if idx < length c \<and> state (c ! idx) = Pending txn
     then (case commit_ts of
             Some t \<Rightarrow> (c[idx := (c ! idx)\<lparr>start_ts := t, state := Committed\<rparr>], flipped + 1)
           | None \<Rightarrow> (restore_previous_head_after_abort
                        (c[idx := (c ! idx)\<lparr>state := Aborted\<rparr>]) idx (start_ts (c ! idx)), flipped + 1))
     else (c, flipped))"

text \<open>\<open>flip_pending_in_chain\<close>: the index loop over the chain, returning the flipped
  chain and the number of flips.\<close>

definition flip_pending_in_chain :: "chain \<Rightarrow> u64 \<Rightarrow> ts option \<Rightarrow> chain \<times> nat" where
  "flip_pending_in_chain c txn commit_ts = fold (\<lambda>idx. flip_at idx txn commit_ts) [0..<length c] (c, 0)"

section \<open>Well-formed chains\<close>

text \<open>Leaving aborted entries aside, the windows of a chain follow each other without
  gap from the newest, which is open, and only the newest may be pending.\<close>

fun windows_ok :: "ts \<Rightarrow> chain \<Rightarrow> bool" where
  "windows_ok u [] = True"
| "windows_ok u (e # c) =
     (if state e = Aborted then windows_ok u c
      else stop_ts e = u \<and> start_ts e < u \<and> windows_ok (start_ts e) c)"

definition settled :: "chain \<Rightarrow> bool" where
  "settled c \<longleftrightarrow> (\<forall>e \<in> set c. \<not> is_pending e)"

fun only_head_pending :: "chain \<Rightarrow> bool" where
  "only_head_pending [] = True"
| "only_head_pending (e # c) = (if state e = Aborted then only_head_pending c else settled c)"

definition chain_wf :: "chain \<Rightarrow> bool" where
  "chain_wf c \<longleftrightarrow> windows_ok ts_max c \<and> only_head_pending c"

text \<open>Every live entry began before \<open>t\<close>.\<close>

definition begun_before :: "chain \<Rightarrow> ts \<Rightarrow> bool" where
  "begun_before c t \<longleftrightarrow> (\<forall>e \<in> set c. state e \<noteq> Aborted \<longrightarrow> start_ts e < t)"

lemma settled_simps [simp]: "settled []" "settled (e # c) \<longleftrightarrow> \<not> is_pending e \<and> settled c"
  by (auto simp: settled_def)

lemma begun_before_simps [simp]:
  "begun_before [] t" "begun_before (e # c) t \<longleftrightarrow> (state e \<noteq> Aborted \<longrightarrow> start_ts e < t) \<and> begun_before c t"
  by (auto simp: begun_before_def)

lemma settled_only_head_pending: "settled c \<Longrightarrow> only_head_pending c"
  by (induction c) auto

lemma is_pending_simps [simp]:
  "is_pending e \<longleftrightarrow> (\<exists>t. state e = Pending t)"
  by (auto simp: is_pending_def split: version_state.splits)

lemma windows_ok_bounds:
  "windows_ok u c \<Longrightarrow> e \<in> set c \<Longrightarrow> state e \<noteq> Aborted \<Longrightarrow> start_ts e < stop_ts e \<and> stop_ts e \<le> u"
proof (induction c arbitrary: u)
  case (Cons a c)
  then show ?case
    by (cases "state a = Aborted"; cases "e = a") (auto intro: order_trans less_imp_le)
qed simp

lemma windows_ok_aborted: "(\<forall>e \<in> set c. state e = Aborted) \<Longrightarrow> windows_ok u c"
  by (induction c) auto

text \<open>The live head of a well-formed chain is its newest entry that is not aborted.\<close>

lemma live_head_first: "windows_ok ts_max c \<Longrightarrow> live_head c = find (\<lambda>e. state e \<noteq> Aborted) c"
  by (induction c) (auto simp: live_head_def is_live_head_def)

lemma stop_live_head_first:
  "windows_ok ts_max c \<Longrightarrow> begun_before c t \<Longrightarrow> windows_ok t (stop_live_head t c)"
  by (induction c) (auto simp: is_live_head_def)

lemma stop_live_head_states [simp]: "map state (stop_live_head t c) = map state c"
  by (induction c) auto

lemma stop_live_head_pending:
  "settled (stop_live_head t c) = settled c"
  "(\<exists>e \<in> set (stop_live_head t c). state e = st) = (\<exists>e \<in> set c. state e = st)"
  by (induction c) auto

lemma restore_stop_live_head:
  "windows_ok ts_max c \<Longrightarrow> begun_before c t \<Longrightarrow> restore_first t (stop_live_head t c) = c"
proof (induction c)
  case (Cons e c)
  then show ?case by (cases "state e = Aborted") (auto simp: is_live_head_def)
qed simp

lemma restore_first_states:
  "(\<exists>e \<in> set (restore_first t c). state e = st) = (\<exists>e \<in> set c. state e = st)"
  by (induction c) auto

lemma push_pending_wf [inv_rules]:
  assumes "chain_wf c" and "settled c" and "begun_before c t" and "t < ts_max"
  shows "chain_wf (push_pending c t txn d tomb)"
  using assms stop_live_head_first [of c t]
  by (simp add: chain_wf_def push_pending_def stop_live_head_pending)

section \<open>The flip on a chain with one pending head\<close>

lemma flip_at_other: "\<forall>e \<in> set c. state e \<noteq> Pending txn \<Longrightarrow> flip_at idx txn ct (c, n) = (c, n)"
  by (auto simp: flip_at_def)

lemma flip_others:
  "\<forall>e \<in> set c. state e \<noteq> Pending txn \<Longrightarrow> fold (\<lambda>idx. flip_at idx txn ct) idxs (c, n) = (c, n)"
  by (induction idxs) (simp_all add: flip_at_other)

lemma flip_head:
  assumes "state e = Pending txn" and "\<forall>e \<in> set c. state e \<noteq> Pending txn"
  shows "flip_pending_in_chain (e # c) txn (Some t) = (e\<lparr>start_ts := t, state := Committed\<rparr> # c, 1)"
    and "flip_pending_in_chain (e # c) txn None = (e\<lparr>state := Aborted\<rparr> # restore_first (start_ts e) c, 1)"
proof -
  have upt: "[0..<length (e # c)] = 0 # [1..<length (e # c)]" by (simp add: upt_conv_Cons del: upt_Suc)
  have "\<forall>x \<in> set (e\<lparr>start_ts := t, state := Committed\<rparr> # c). state x \<noteq> Pending txn" using assms(2) by simp
  then show "flip_pending_in_chain (e # c) txn (Some t) = (e\<lparr>start_ts := t, state := Committed\<rparr> # c, 1)"
    unfolding flip_pending_in_chain_def upt using assms(1) flip_others
    by (simp add: flip_at_def [of 0])
  have "\<forall>x \<in> set (e\<lparr>state := Aborted\<rparr> # restore_first (start_ts e) c). state x \<noteq> Pending txn"
    using assms(2) restore_first_states [of "start_ts e" c "Pending txn"] by auto
  then show "flip_pending_in_chain (e # c) txn None = (e\<lparr>state := Aborted\<rparr> # restore_first (start_ts e) c, 1)"
    unfolding flip_pending_in_chain_def upt using assms(1) flip_others
    by (simp add: flip_at_def [of 0] restore_previous_head_after_abort_def)
qed

lemma flip_commit_pushed:
  assumes "\<forall>e \<in> set c. state e \<noteq> Pending txn"
  shows "fst (flip_pending_in_chain (push_pending c t txn d tomb) txn (Some t)) =
    \<lparr>start_ts = t, stop_ts = ts_max, txn_id = txn, state = Committed, data = d, is_tombstone = tomb\<rparr> # stop_live_head t c"
  unfolding push_pending_def
  by (subst flip_head(1)) (use assms stop_live_head_pending(2) [of t c "Pending txn"] in auto)

lemma flip_abort_pushed:
  assumes "windows_ok ts_max c" and "begun_before c t" and "\<forall>e \<in> set c. state e \<noteq> Pending txn"
  shows "fst (flip_pending_in_chain (push_pending c t txn d tomb) txn None) =
    \<lparr>start_ts = t, stop_ts = ts_max, txn_id = txn, state = Aborted, data = d, is_tombstone = tomb\<rparr> # c"
  unfolding push_pending_def
  by (subst flip_head(2))
     (use assms restore_stop_live_head stop_live_head_pending(2) [of t c "Pending txn"] in auto)

section \<open>What a snapshot sees\<close>

text \<open>A view is coherent when the frontier has reached its timestamp, which is what
  \<open>load_published_coherent\<close> waits for; it is foreign to a chain when none of the
  chain's pending entries is its own.\<close>

definition coherent :: "view \<Rightarrow> bool" where
  "coherent v \<longleftrightarrow> read_ts v \<le> sequencer_frontier v"

definition foreign :: "view \<Rightarrow> chain \<Rightarrow> bool" where
  "foreign v c \<longleftrightarrow> (\<forall>e \<in> set c. state e \<noteq> Pending (view_txn_id v))"

definition newest_at :: "chain \<Rightarrow> ts \<Rightarrow> version_entry option" where
  "newest_at c r = find (\<lambda>e. state e \<noteq> Aborted \<and> start_ts e \<le> r) c"

lemma visible_in_newest:
  assumes "windows_ok u c" and "read_ts v < u" and "coherent v" and "foreign v c"
  shows "visible_in c v = newest_at c (read_ts v)"
  using assms
proof (induction c arbitrary: u)
  case (Cons e c)
  have f: "foreign v c" "state e \<noteq> Pending (view_txn_id v)" using Cons.prems(4) by (auto simp: foreign_def)
  show ?case
  proof (cases "state e = Aborted")
    case True
    then show ?thesis using Cons f
      by (simp add: visible_in_def newest_at_def version_visible_to_def)
  next
    case False
    have vis: "version_visible_to e v \<longleftrightarrow> start_ts e \<le> read_ts v"
      using False Cons.prems f(2)
      by (auto simp: version_visible_to_def coherent_def split: version_state.splits)
    show ?thesis
    proof (cases "start_ts e \<le> read_ts v")
      case True
      then show ?thesis using False vis by (simp add: visible_in_def newest_at_def)
    next
      case notle: False
      then have "visible_in c v = newest_at c (read_ts v)"
        using Cons.IH [of "start_ts e"] Cons.prems f False by simp
      then show ?thesis using notle vis by (simp add: visible_in_def newest_at_def)
    qed
  qed
qed (simp add: visible_in_def newest_at_def)

lemma newest_at_stop:
  "r < t \<Longrightarrow> map_option (\<lambda>e. e\<lparr>stop_ts := ts_max\<rparr>) (newest_at (stop_live_head t c) r) =
     map_option (\<lambda>e. e\<lparr>stop_ts := ts_max\<rparr>) (newest_at c r)"
  by (induction c) (auto simp: newest_at_def)

lemma foreign_stop [simp]: "foreign v (stop_live_head t c) = foreign v c"
  using stop_live_head_pending(2) [of t c "Pending (view_txn_id v)"] by (auto simp: foreign_def)

section \<open>Installation on a well-formed chain\<close>

lemma only_head_pending_settled:
  assumes "only_head_pending c" and "find (\<lambda>e. state e \<noteq> Aborted) c = Some h" and "\<not> is_pending h"
  shows "settled c"
  using assms by (induction c) (auto split: if_splits)

lemma find_None_settled: "find (\<lambda>e. state e \<noteq> Aborted) c = None \<Longrightarrow> settled c"
  by (auto simp: find_None_iff settled_def)

text \<open>Where first-committer-wins lets a primary write, or a write that expects a head,
  proceed, nothing on the chain is pending.\<close>

lemma classify_proceed_settled:
  assumes "chain_wf c" and "scope = Primary_Scope \<or> expected \<noteq> None"
    and "classify_delta_install c expected scope key txn = Inr Proceed"
  shows "settled c"
proof (cases "live_head c")
  case None
  then show ?thesis using assms(1) live_head_first [of c] find_None_settled by (simp add: chain_wf_def)
next
  case (Some h)
  have "state h = Committed"
    using assms(2,3) Some
    by (auto simp: classify_delta_install_def split: option.splits if_splits)
  then show ?thesis
    using assms(1) Some live_head_first [of c] only_head_pending_settled [of c h]
    by (simp add: chain_wf_def)
qed

lemma settled_no_own: "settled c \<Longrightarrow> \<forall>e \<in> set c. state e \<noteq> Pending txn"
  by (auto simp: settled_def)

lemma settled_foreign: "settled c \<Longrightarrow> foreign v c"
  by (auto simp: settled_def foreign_def)

text \<open>A write that was let through: the chain it leaves, and what the later flip makes
  of it.\<close>

lemma install_proceeds:
  assumes "chain_wf c" and "settled c"
    and "install_on_chain c expected scope key payload t txn = Inr c'"
  shows "c' = push_pending c t txn (fst payload) (snd payload)"
proof -
  have "classify_delta_install c expected scope key txn \<noteq> Inr AlreadyInstalledBySelf"
    using assms(1,2) live_head_first [of c]
    by (auto simp: classify_delta_install_def chain_wf_def settled_def find_Some_iff
        split: option.splits if_splits)
  then show ?thesis
    using assms(3) by (cases "classify_delta_install c expected scope key txn")
      (auto simp: install_on_chain_def split: conflict_classification.splits)
qed

lemma visible_pushed_old:
  assumes "chain_wf c" and "settled c" and "begun_before c t" and "read_ts v < t" and "coherent v"
    and "st = Pending txn \<and> view_txn_id v \<noteq> txn \<or> st = Committed"
  shows "map_option (\<lambda>e. e\<lparr>stop_ts := ts_max\<rparr>)
      (visible_in (\<lparr>start_ts = t, stop_ts = ts_max, txn_id = txn, state = st, data = d, is_tombstone = tomb\<rparr>
         # stop_live_head t c) v) =
    map_option (\<lambda>e. e\<lparr>stop_ts := ts_max\<rparr>) (visible_in c v)"
proof -
  let ?e = "\<lparr>start_ts = t, stop_ts = ts_max, txn_id = txn, state = st, data = d, is_tombstone = tomb\<rparr>"
  have "\<not> version_visible_to ?e v" using assms(4,6) by (auto simp: version_visible_to_def)
  then have "visible_in (?e # stop_live_head t c) v = visible_in (stop_live_head t c) v"
    by (simp add: visible_in_def)
  also have "\<dots> = newest_at (stop_live_head t c) (read_ts v)"
    using visible_in_newest [of t "stop_live_head t c" v] stop_live_head_first [of c t] assms settled_foreign [of c v]
    by (simp add: chain_wf_def)
  finally show ?thesis
    using newest_at_stop [OF assms(4)] visible_in_newest [of ts_max c v] assms settled_foreign [of c v]
      less_le_trans [OF assms(4) ts_le_max]
    by (simp add: chain_wf_def)
qed

section \<open>Properties\<close>

definition ex_chain :: chain where
  "ex_chain =
     [\<lparr>start_ts = Ts 5 0, stop_ts = ts_max, txn_id = 2, state = Committed, data = Inline [2], is_tombstone = False\<rparr>,
      \<lparr>start_ts = Ts 3 0, stop_ts = Ts 5 0, txn_id = 9, state = Aborted, data = Inline [9], is_tombstone = False\<rparr>,
      \<lparr>start_ts = Ts 1 0, stop_ts = Ts 5 0, txn_id = 1, state = Committed, data = Inline [1], is_tombstone = False\<rparr>]"

definition ex_view :: "u64 \<Rightarrow> view" where
  "ex_view p = \<lparr>read_ts = Ts p 0, view_txn_id = 7, sequencer_frontier = Ts p 0\<rparr>"

text \<open>Property C8. A snapshot reads the newest version at its timestamp: on a
  well-formed chain, a coherent view that has no pending write of its own there
  finds exactly the newest entry that is not aborted and began at or before the
  view's timestamp (nothing if there is none).\<close>

theorem snapshot_reads_newest:
  assumes "chain_wf c" and "coherent v" and "foreign v c" and "read_ts v < ts_max"
  shows "visible_in c v = find (\<lambda>e. state e \<noteq> Aborted \<and> start_ts e \<le> read_ts v) c"
  using visible_in_newest [of ts_max c v] assms by (simp add: chain_wf_def newest_at_def)

theorem snapshot_reads_newest_witness:
  "visible_in ex_chain (ex_view 4) = Some (ex_chain ! 2)"
  by (subst snapshot_reads_newest)
     (simp_all add: ex_chain_def ex_view_def chain_wf_def coherent_def foreign_def ts_max_def less_ts_def less_eq_ts_def)

text \<open>Property C9. In-flight and later writes are invisible to older snapshots, and a
  commit is visible from its timestamp on: when a primary write proceeds on a
  well-formed chain with a commit timestamp above its live entries, the chain
  stays well-formed; any other transaction's coherent snapshot below that
  timestamp reads the same version (up to the end of its window) before the
  install, after it, and after the commit flip; and after the flip every
  coherent snapshot at or above the timestamp reads the new version.\<close>

theorem install_then_commit:
  assumes "chain_wf c" and "begun_before c t" and "t < ts_max"
    and "classify_delta_install c expected Primary_Scope key txn = Inr Proceed"
    and "install_on_chain c expected Primary_Scope key payload t txn = Inr c'"
    and "coherent v" and "view_txn_id v \<noteq> txn" and "read_ts v < ts_max"
  shows "chain_wf c' \<and> chain_wf (fst (flip_pending_in_chain c' txn (Some t))) \<and>
    (read_ts v < t \<longrightarrow>
       map_option (\<lambda>e. e\<lparr>stop_ts := ts_max\<rparr>) (visible_in c' v) =
         map_option (\<lambda>e. e\<lparr>stop_ts := ts_max\<rparr>) (visible_in c v) \<and>
       map_option (\<lambda>e. e\<lparr>stop_ts := ts_max\<rparr>) (visible_in (fst (flip_pending_in_chain c' txn (Some t))) v) =
         map_option (\<lambda>e. e\<lparr>stop_ts := ts_max\<rparr>) (visible_in c v)) \<and>
    (t \<le> read_ts v \<longrightarrow>
       visible_in (fst (flip_pending_in_chain c' txn (Some t))) v =
         Some \<lparr>start_ts = t, stop_ts = ts_max, txn_id = txn, state = Committed, data = fst payload,
               is_tombstone = snd payload\<rparr>)"
proof -
  have st: "settled c" using classify_proceed_settled [OF assms(1) _ assms(4)] by simp
  have c': "c' = push_pending c t txn (fst payload) (snd payload)"
    using install_proceeds [OF assms(1) st assms(5)] .
  have fl: "fst (flip_pending_in_chain c' txn (Some t)) =
      \<lparr>start_ts = t, stop_ts = ts_max, txn_id = txn, state = Committed, data = fst payload,
        is_tombstone = snd payload\<rparr> # stop_live_head t c"
    using flip_commit_pushed [OF settled_no_own [OF st]] c' by simp
  have wf: "chain_wf c'" using push_pending_wf [OF assms(1) st assms(2,3)] c' by simp
  have "chain_wf (fst (flip_pending_in_chain c' txn (Some t)))"
    using wf c' unfolding fl chain_wf_def push_pending_def by simp
  moreover have "t \<le> read_ts v \<Longrightarrow> visible_in (fst (flip_pending_in_chain c' txn (Some t))) v =
      Some \<lparr>start_ts = t, stop_ts = ts_max, txn_id = txn, state = Committed, data = fst payload,
        is_tombstone = snd payload\<rparr>"
    unfolding fl using assms(8) by (simp add: visible_in_def version_visible_to_def)
  ultimately show ?thesis
    unfolding fl using wf c' visible_pushed_old [OF assms(1) st assms(2) _ assms(6)] assms(7)
    by (simp add: push_pending_def)
qed

theorem install_then_commit_witness:
  "\<exists>c'. install_on_chain ex_chain (Some (Expected_Head (Ts 5 0) 2)) Primary_Scope [0] (Inline [3], False) (Ts 8 0) 3 = Inr c' \<and>
     chain_wf c' \<and> map_option data (visible_in (fst (flip_pending_in_chain c' 3 (Some (Ts 8 0)))) (ex_view 9)) = Some (Inline [3])"
proof -
  have cl: "classify_delta_install ex_chain (Some (Expected_Head (Ts 5 0) 2)) Primary_Scope [0] 3 = Inr Proceed"
    by (simp add: classify_delta_install_def live_head_def is_live_head_def ex_chain_def)
  then obtain c' where c': "install_on_chain ex_chain (Some (Expected_Head (Ts 5 0) 2)) Primary_Scope [0] (Inline [3], False) (Ts 8 0) 3 = Inr c'"
    by (simp add: install_on_chain_def)
  have "chain_wf ex_chain" "begun_before ex_chain (Ts 8 0)" "Ts 8 0 < ts_max" "coherent (ex_view 9)"
    "view_txn_id (ex_view 9) \<noteq> 3" "read_ts (ex_view 9) < ts_max" "Ts 8 0 \<le> read_ts (ex_view 9)"
    by (simp_all add: ex_chain_def ex_view_def chain_wf_def coherent_def ts_max_def less_ts_def less_eq_ts_def)
  then show ?thesis
    using install_then_commit [of ex_chain "Ts 8 0" _ "[0]" 3 "(Inline [3], False)" c' "ex_view 9", OF _ _ _ cl c'] c' by simp
qed

text \<open>Property C10. Aborting a write undoes it: when a primary write proceeds on a
  well-formed chain and is then flipped to aborted, the chain is the original
  one with an aborted entry in front, and every view reads exactly what it read
  before the write.\<close>

theorem abort_restores_chain:
  assumes "chain_wf c" and "begun_before c t" and "t < ts_max"
    and "classify_delta_install c expected Primary_Scope key txn = Inr Proceed"
    and "install_on_chain c expected Primary_Scope key payload t txn = Inr c'"
  shows "(\<exists>e. state e = Aborted \<and> fst (flip_pending_in_chain c' txn None) = e # c) \<and>
    chain_wf (fst (flip_pending_in_chain c' txn None)) \<and>
    visible_in (fst (flip_pending_in_chain c' txn None)) v = visible_in c v"
proof -
  have st: "settled c" using classify_proceed_settled [OF assms(1) _ assms(4)] by simp
  have c': "c' = push_pending c t txn (fst payload) (snd payload)"
    using install_proceeds [OF assms(1) st assms(5)] .
  have "fst (flip_pending_in_chain c' txn None) =
      \<lparr>start_ts = t, stop_ts = ts_max, txn_id = txn, state = Aborted, data = fst payload,
        is_tombstone = snd payload\<rparr> # c"
    using flip_abort_pushed [OF _ assms(2) settled_no_own [OF st]] assms(1) c' by (simp add: chain_wf_def)
  then show ?thesis
    using assms(1) by (simp add: chain_wf_def visible_in_def version_visible_to_def)
qed

theorem abort_restores_chain_witness:
  "\<exists>c'. install_on_chain ex_chain (Some (Expected_Head (Ts 5 0) 2)) Primary_Scope [0] (Inline [3], False) (Ts 8 0) 3 = Inr c' \<and>
     visible_in (fst (flip_pending_in_chain c' 3 None)) (ex_view 9) = Some (ex_chain ! 0)"
proof -
  have cl: "classify_delta_install ex_chain (Some (Expected_Head (Ts 5 0) 2)) Primary_Scope [0] 3 = Inr Proceed"
    by (simp add: classify_delta_install_def live_head_def is_live_head_def ex_chain_def)
  then obtain c' where c': "install_on_chain ex_chain (Some (Expected_Head (Ts 5 0) 2)) Primary_Scope [0] (Inline [3], False) (Ts 8 0) 3 = Inr c'"
    by (simp add: install_on_chain_def)
  have "chain_wf ex_chain" "begun_before ex_chain (Ts 8 0)" "Ts 8 0 < ts_max"
    by (simp_all add: ex_chain_def chain_wf_def ts_max_def less_ts_def less_eq_ts_def)
  then have "visible_in (fst (flip_pending_in_chain c' 3 None)) (ex_view 9) = visible_in ex_chain (ex_view 9)"
    using abort_restores_chain [of ex_chain "Ts 8 0" _ "[0]" 3 "(Inline [3], False)" c' "ex_view 9", OF _ _ _ cl c'] by blast
  moreover have "visible_in ex_chain (ex_view 9) = Some (ex_chain ! 0)"
    by (simp add: visible_in_def version_visible_to_def ex_chain_def ex_view_def ts_max_def less_ts_def less_eq_ts_def)
  ultimately show ?thesis using c' by auto
qed



end
