(* ===== verification/Pages.thy ===== *)
theory Pages
  imports Errors
begin

text \<open>
  Byte buffers and the page headers of \<open>storage/page.rs\<close>. A buffer is a byte list of
  fixed length; \<open>put\<close> is \<open>copy_from_slice\<close> into a range, \<open>sub\<close> a slice. The CRC32C
  routines of the \<open>crc32c\<close> crate are the parameters \<open>crc\<close> and \<open>crc_append\<close>.
\<close>

section \<open>Buffers\<close>

definition put :: "bytes \<Rightarrow> nat \<Rightarrow> bytes \<Rightarrow> bytes" where
  "put buf off bs = take off buf @ bs @ drop (off + length bs) buf"

definition sub :: "bytes \<Rightarrow> nat \<Rightarrow> nat \<Rightarrow> bytes" where
  "sub buf a b = take (b - a) (drop a buf)"

lemma length_put [simp]: "off + length bs \<le> length buf \<Longrightarrow> length (put buf off bs) = length buf"
  by (simp add: put_def)

lemma length_sub [simp]: "a \<le> b \<Longrightarrow> b \<le> length buf \<Longrightarrow> length (sub buf a b) = b - a"
  by (simp add: sub_def)

lemma sub_put_same: "off + length bs \<le> length buf \<Longrightarrow> sub (put buf off bs) off (off + length bs) = bs"
  by (simp add: sub_def put_def)

lemma sub_put_before:
  assumes "b \<le> off" "off + length bs \<le> length buf"
  shows "sub (put buf off bs) a b = sub buf a b"
proof -
  have "take (b - a) (drop a (take off buf @ x)) = take (b - a) (drop a buf)" for x
    using assms by (cases "a \<le> off") (simp_all add: drop_take)
  then show ?thesis by (simp only: sub_def put_def)
qed

lemma sub_put_after:
  assumes "off + length bs \<le> a" "off + length bs \<le> length buf"
  shows "sub (put buf off bs) a b = sub buf a b"
proof -
  have "drop a (put buf off bs) = drop a buf" using assms by (simp add: put_def)
  then show ?thesis by (simp add: sub_def)
qed

lemma sub_split: "a \<le> m \<Longrightarrow> m \<le> b \<Longrightarrow> sub buf a b = sub buf a m @ sub buf m b"
proof -
  assume "a \<le> m" "m \<le> b"
  then have "b - a = (m - a) + (b - m)" "drop (m - a) (drop a buf) = drop m buf" by simp_all
  then show ?thesis by (simp add: sub_def take_add)
qed

lemma sub_append_parts:
  assumes "sub buf a (a + length x + length y) = x @ y" "a + length x + length y \<le> length buf"
  shows "sub buf a (a + length x) = x" "sub buf (a + length x) (a + length x + length y) = y"
  using assms sub_split [of a "a + length x" "a + length x + length y" buf] by simp_all

lemma sub_single: "a < length buf \<Longrightarrow> sub buf a (Suc a) = [buf ! a]"
  by (simp add: sub_def take_Suc hd_drop_conv_nth)

lemma nth_of_sub: "sub buf a (Suc a) = [x] \<Longrightarrow> buf ! a = x"
proof -
  assume s: "sub buf a (Suc a) = [x]"
  then have "a < length buf" by (cases "a < length buf") (simp_all add: sub_def)
  then show ?thesis using s sub_single by simp
qed

definition u16_at :: "bytes \<Rightarrow> nat \<Rightarrow> u16" where "u16_at buf a = u16_from_le_bytes (sub buf a (a + 2))"
definition u32_at :: "bytes \<Rightarrow> nat \<Rightarrow> u32" where "u32_at buf a = u32_from_le_bytes (sub buf a (a + 4))"
definition u64_at :: "bytes \<Rightarrow> nat \<Rightarrow> u64" where "u64_at buf a = u64_from_le_bytes (sub buf a (a + 8))"

lemma int_at_put_same:
  "off + 2 \<le> length buf \<Longrightarrow> u16_at (put buf off (u16_to_le_bytes a)) off = a"
  "off + 4 \<le> length buf \<Longrightarrow> u32_at (put buf off (u32_to_le_bytes b)) off = b"
  "off + 8 \<le> length buf \<Longrightarrow> u64_at (put buf off (u64_to_le_bytes c)) off = c"
  using sub_put_same [of off "u16_to_le_bytes a" buf] sub_put_same [of off "u32_to_le_bytes b" buf]
    sub_put_same [of off "u64_to_le_bytes c" buf]
  by (simp_all add: u16_at_def u32_at_def u64_at_def)

section \<open>Constants\<close>

definition PAGE_TYPE_INTERNAL :: u8 where "PAGE_TYPE_INTERNAL = 0x01"
definition PAGE_TYPE_LEAF :: u8 where "PAGE_TYPE_LEAF = 0x02"
definition PAGE_TYPE_OVERFLOW :: u8 where "PAGE_TYPE_OVERFLOW = 0x05"
definition PAGE_SIZE_INTERNAL :: nat where "PAGE_SIZE_INTERNAL = 4096"
definition INTERNAL_HEADER_SIZE :: nat where "INTERNAL_HEADER_SIZE = 12"
definition OVERFLOW_HEADER_SIZE :: nat where "OVERFLOW_HEADER_SIZE = 20"
definition PAGE_SIZE_LEAF :: nat where "PAGE_SIZE_LEAF = 32768"
definition LEAF_HEADER_SIZE :: nat where "LEAF_HEADER_SIZE = 20"
definition OVERFLOW_THRESHOLD :: nat where "OVERFLOW_THRESHOLD = 30 * 1024"
definition LEAF_FLAG_HAS_OVERFLOW :: u8 where "LEAF_FLAG_HAS_OVERFLOW = 0x01"
definition VALUE_TYPE_INLINE :: u8 where "VALUE_TYPE_INLINE = 0x01"
definition VALUE_TYPE_OVERFLOW :: u8 where "VALUE_TYPE_OVERFLOW = 0x02"

section \<open>Internal page header\<close>

record internal_page_header =
  ih_page_type :: u8
  ih_level :: u8
  ih_key_count :: u16
  ih_checksum :: u32
  ih_rightmost_child :: u32

definition internal_from_bytes :: "bytes \<Rightarrow> internal_page_header result" where
  "internal_from_bytes buf =
    (if length buf < INTERNAL_HEADER_SIZE then Inl (Internal ''internal page buffer too short'')
     else Inr \<lparr>ih_page_type = buf ! 0, ih_level = buf ! 1, ih_key_count = u16_at buf 2,
       ih_checksum = u32_at buf 4, ih_rightmost_child = u32_at buf 8\<rparr>)"

definition internal_write_to :: "internal_page_header \<Rightarrow> bytes \<Rightarrow> bytes" where
  "internal_write_to h buf =
    put (put (put (put (put buf 0 [ih_page_type h]) 1 [ih_level h]) 2 (u16_to_le_bytes (ih_key_count h)))
      4 (u32_to_le_bytes (ih_checksum h))) 8 (u32_to_le_bytes (ih_rightmost_child h))"

definition internal_validate_type :: "internal_page_header \<Rightarrow> unit result" where
  "internal_validate_type h = rguard (ih_page_type h = PAGE_TYPE_INTERNAL) (Internal ''expected internal page type 0x01'')"

definition internal_page_checksum :: "(bytes \<Rightarrow> u32) \<Rightarrow> (u32 \<Rightarrow> bytes \<Rightarrow> u32) \<Rightarrow> bytes \<Rightarrow> u32" where
  "internal_page_checksum crc crc_append page = crc_append (crc (take 4 page)) (drop 8 page)"

section \<open>Leaf page header\<close>

record leaf_page_header =
  lh_page_type :: u8
  lh_flags :: u8
  lh_entry_count :: u16
  lh_checksum :: u32
  lh_next_leaf_page :: u32
  lh_prev_leaf_page :: u32
  lh_free_space_offset :: u16
  lh_cell_ptr_offset :: u16

definition leaf_from_bytes :: "bytes \<Rightarrow> leaf_page_header result" where
  "leaf_from_bytes buf =
    (if length buf < LEAF_HEADER_SIZE then Inl (Internal ''leaf page buffer too short'')
     else Inr \<lparr>lh_page_type = buf ! 0, lh_flags = buf ! 1, lh_entry_count = u16_at buf 2,
       lh_checksum = u32_at buf 4, lh_next_leaf_page = u32_at buf 8, lh_prev_leaf_page = u32_at buf 12,
       lh_free_space_offset = u16_at buf 16, lh_cell_ptr_offset = u16_at buf 18\<rparr>)"

definition leaf_write_to :: "leaf_page_header \<Rightarrow> bytes \<Rightarrow> bytes" where
  "leaf_write_to h buf =
    put (put (put (put (put (put (put (put buf 0 [lh_page_type h]) 1 [lh_flags h])
      2 (u16_to_le_bytes (lh_entry_count h))) 4 (u32_to_le_bytes (lh_checksum h)))
      8 (u32_to_le_bytes (lh_next_leaf_page h))) 12 (u32_to_le_bytes (lh_prev_leaf_page h)))
      16 (u16_to_le_bytes (lh_free_space_offset h))) 18 (u16_to_le_bytes (lh_cell_ptr_offset h))"

definition leaf_validate_type :: "leaf_page_header \<Rightarrow> unit result" where
  "leaf_validate_type h = rguard (lh_page_type h = PAGE_TYPE_LEAF) (Internal ''expected leaf page type 0x02'')"

definition leaf_page_checksum :: "(bytes \<Rightarrow> u32) \<Rightarrow> (u32 \<Rightarrow> bytes \<Rightarrow> u32) \<Rightarrow> bytes \<Rightarrow> u32" where
  "leaf_page_checksum crc crc_append page = crc_append (crc (take 4 page)) (drop 8 page)"

section \<open>Overflow page header\<close>

record overflow_page_header =
  oh_page_type :: u8
  oh_refcount :: u32
  oh_checksum :: u32
  oh_next_overflow_page :: u32
  oh_data_length :: u32

definition overflow_from_bytes :: "bytes \<Rightarrow> overflow_page_header result" where
  "overflow_from_bytes buf =
    (if length buf < OVERFLOW_HEADER_SIZE then Inl (Internal ''overflow page buffer too short'')
     else Inr \<lparr>oh_page_type = buf ! 0, oh_refcount = u32_at buf 4, oh_checksum = u32_at buf 8,
       oh_next_overflow_page = u32_at buf 12, oh_data_length = u32_at buf 16\<rparr>)"

definition overflow_write_to :: "overflow_page_header \<Rightarrow> bytes \<Rightarrow> bytes" where
  "overflow_write_to h buf =
    put (put (put (put (put (put buf 0 [oh_page_type h]) 1 [0, 0, 0]) 4 (u32_to_le_bytes (oh_refcount h)))
      8 (u32_to_le_bytes (oh_checksum h))) 12 (u32_to_le_bytes (oh_next_overflow_page h)))
      16 (u32_to_le_bytes (oh_data_length h))"

definition overflow_validate_type :: "overflow_page_header \<Rightarrow> unit result" where
  "overflow_validate_type h = rguard (oh_page_type h = PAGE_TYPE_OVERFLOW) (Internal ''expected overflow page type 0x05'')"

definition overflow_page_checksum :: "(bytes \<Rightarrow> u32) \<Rightarrow> (u32 \<Rightarrow> bytes \<Rightarrow> u32) \<Rightarrow> bytes \<Rightarrow> u32" where
  "overflow_page_checksum crc crc_append page = crc_append (crc (take 4 page)) (drop 12 page)"

section \<open>Round trips\<close>

text \<open>A field read back after a sequence of writes to disjoint ranges: the reads go
  through the writes after it.\<close>

lemma at_put_other:
  "off + length bs \<le> length buf \<Longrightarrow> a + 2 \<le> off \<or> off + length bs \<le> a \<Longrightarrow> u16_at (put buf off bs) a = u16_at buf a"
  "off + length bs \<le> length buf \<Longrightarrow> a + 4 \<le> off \<or> off + length bs \<le> a \<Longrightarrow> u32_at (put buf off bs) a = u32_at buf a"
  "off + length bs \<le> length buf \<Longrightarrow> a + 8 \<le> off \<or> off + length bs \<le> a \<Longrightarrow> u64_at (put buf off bs) a = u64_at buf a"
  by (auto simp: u16_at_def u32_at_def u64_at_def sub_put_before sub_put_after)

lemma nth_put_other: "off + length bs \<le> length buf \<Longrightarrow> a < off \<or> off + length bs \<le> a \<Longrightarrow> put buf off bs ! a = buf ! a"
  by (auto simp: put_def nth_append)

lemma nth_put_same: "off + length bs \<le> length buf \<Longrightarrow> i < length bs \<Longrightarrow> put buf off bs ! (off + i) = bs ! i"
  by (simp add: put_def nth_append)

lemma nth_put_single: "off < length buf \<Longrightarrow> put buf off [b] ! off = b"
  using nth_put_same [of off "[b]" buf 0] by simp

lemma nth_put_zero: "put buf 0 [b] ! 0 = b"
  by (simp add: put_def)

lemmas put_reads = at_put_other nth_put_other nth_put_single nth_put_zero int_at_put_same

lemma leaf_header_roundtrip:
  "LEAF_HEADER_SIZE \<le> length buf \<Longrightarrow> leaf_from_bytes (leaf_write_to h buf) = Inr h"
  by (simp add: leaf_from_bytes_def leaf_write_to_def LEAF_HEADER_SIZE_def put_reads)

lemma internal_header_roundtrip:
  "INTERNAL_HEADER_SIZE \<le> length buf \<Longrightarrow> internal_from_bytes (internal_write_to h buf) = Inr h"
  by (simp add: internal_from_bytes_def internal_write_to_def INTERNAL_HEADER_SIZE_def put_reads)

lemma overflow_header_roundtrip:
  "OVERFLOW_HEADER_SIZE \<le> length buf \<Longrightarrow> overflow_from_bytes (overflow_write_to h buf) = Inr h"
  by (simp add: overflow_from_bytes_def overflow_write_to_def OVERFLOW_HEADER_SIZE_def put_reads)

lemma leaf_checksum_patch:
  "leaf_from_bytes buf = Inr h \<Longrightarrow>
    leaf_from_bytes (put buf 4 (u32_to_le_bytes cs)) = Inr (h\<lparr>lh_checksum := cs\<rparr>)"
  by (auto simp: leaf_from_bytes_def LEAF_HEADER_SIZE_def put_reads split: if_splits)

end
