(* ===== verification/Leaf_Frame.thy ===== *)
theory Leaf_Frame
  imports Version_Chain Pages
begin

text \<open>
  The resident delta chains of one leaf frame and the operations on them under a
  page latch (\<open>src/src/storage/buffer_pool/latched_page.rs\<close>, \<open>chains.rs\<close>), and the
  two-phase flip of a transaction's pending entries with its bounded retry
  (\<open>src/src/storage/paged_engine/pending_install.rs\<close>).

  An \<open>Arc\<close> is its address and the chain it points to; a chain behind an \<open>Arc\<close> that
  is shared never changes, so two \<open>Arc\<close>s with the same address are the same value
  and \<open>Arc::ptr_eq\<close> is equality. The frame keeps a running sum of the bytes its
  live heads would take on a folded leaf.
\<close>

section \<open>State\<close>

datatype chain_arc = Arc (arc_addr: nat) (arc_chain: chain)

record leaf_frame =
  deltas :: "(bytes, chain_arc) smap"
  live_delta_payload_bytes :: u64

datatype latch_mode = Shared | Exclusive

record latched_page =
  page_id :: u32
  latch :: latch_mode
  frame :: leaf_frame

section \<open>Live-head bytes\<close>

definition SLOT_POINTER_BYTES :: nat where "SLOT_POINTER_BYTES = 2"
definition CELL_KEY_LEN_BYTES :: nat where "CELL_KEY_LEN_BYTES = 2"
definition CELL_VALUE_TYPE_BYTES :: nat where "CELL_VALUE_TYPE_BYTES = 1"
definition CELL_INLINE_LEN_BYTES :: nat where "CELL_INLINE_LEN_BYTES = 4"
definition CELL_OVERFLOW_REF_BYTES :: nat where "CELL_OVERFLOW_REF_BYTES = 8"

definition chain_live_head_bytes :: "bytes \<Rightarrow> chain \<Rightarrow> u64" where
  "chain_live_head_bytes key c =
     (case find is_live_head c of
        None \<Rightarrow> 0
      | Some e \<Rightarrow>
          if is_tombstone e then 0
          else let value_bytes = (case data e of
                     Inline bs \<Rightarrow>
                       if length bs > OVERFLOW_THRESHOLD then CELL_OVERFLOW_REF_BYTES
                       else CELL_INLINE_LEN_BYTES + length bs
                   | Overflow _ _ \<Rightarrow> CELL_OVERFLOW_REF_BYTES)
               in word_of_nat (SLOT_POINTER_BYTES + CELL_KEY_LEN_BYTES + length key
                    + CELL_VALUE_TYPE_BYTES + value_bytes))"

definition frame_live_delta_payload_bytes :: "(bytes, chain_arc) smap \<Rightarrow> u64" where
  "frame_live_delta_payload_bytes m = sum_list (map (\<lambda>(k, a). chain_live_head_bytes k (arc_chain a)) m)"

definition slot_bytes :: "bytes \<Rightarrow> chain_arc option \<Rightarrow> u64" where
  "slot_bytes key slot = (case slot of None \<Rightarrow> 0 | Some a \<Rightarrow> chain_live_head_bytes key (arc_chain a))"

section \<open>Operations under the latch\<close>

definition require_exclusive :: "latched_page \<Rightarrow> string \<Rightarrow> unit result" where
  "require_exclusive p operation =
     rguard (latch p = Exclusive) (Internal (''LatchedPinnedPage::'' @ operation @ '' requires an exclusive page latch''))"

definition snapshot_chains :: "latched_page \<Rightarrow> chain_map result" where
  "snapshot_chains p =
     rbind (rguard (latch p = Shared) (Internal ''LatchedPinnedPage::snapshot_chains requires a shared page latch''))
       (\<lambda>_. Inr (map (\<lambda>(k, a). (k, arc_chain a)) (deltas (frame p))))"

definition snapshot_chain_for_key :: "latched_page \<Rightarrow> bytes \<Rightarrow> chain_map result" where
  "snapshot_chain_for_key p key =
     rbind (rguard (latch p = Shared) (Internal ''LatchedPinnedPage::snapshot_chain_for_key requires a shared page latch''))
       (\<lambda>_. Inr (case sm_get (deltas (frame p)) key of None \<Rightarrow> [] | Some a \<Rightarrow> [(key, arc_chain a)]))"

definition page_live_head :: "latched_page \<Rightarrow> bytes \<Rightarrow> version_entry option" where
  "page_live_head p key =
     (case sm_get (deltas (frame p)) key of None \<Rightarrow> None | Some a \<Rightarrow> find is_live_head (arc_chain a))"

definition has_pending :: "u64 \<Rightarrow> chain \<Rightarrow> bool" where
  "has_pending txn c \<longleftrightarrow> list_ex (\<lambda>e. state e = Pending txn) c"

definition has_pending_txn :: "latched_page \<Rightarrow> u64 \<Rightarrow> bool" where
  "has_pending_txn p txn \<longleftrightarrow> list_ex (\<lambda>(_, a). has_pending txn (arc_chain a)) (deltas (frame p))"

definition get_or_create_chain :: "latched_page \<Rightarrow> bytes \<Rightarrow> chain result" where
  "get_or_create_chain p key =
     rbind (require_exclusive p ''get_or_create_chain'')
       (\<lambda>_. Inr (case sm_get (deltas (frame p)) key of None \<Rightarrow> [] | Some a \<Rightarrow> arc_chain a))"

definition has_live_delta_key_in_range :: "latched_page \<Rightarrow> bytes \<Rightarrow> bytes \<Rightarrow> bytes \<Rightarrow> bool result" where
  "has_live_delta_key_in_range p lo hi exclude_key =
     rbind (require_exclusive p ''has_live_delta_key_in_range'')
       (\<lambda>_. Inr (list_ex (\<lambda>(k, a). k \<noteq> exclude_key \<and> list_ex is_live_head (arc_chain a))
                   (sm_range (\<lambda>k. lo \<le> k \<and> k < hi) (deltas (frame p)))))"

text \<open>\<open>with_chain\<close>: take the slot out, run the closure on it, put it back, and move the
  running sum by the difference.\<close>

definition with_chain ::
  "latched_page \<Rightarrow> bytes \<Rightarrow> (chain_arc option \<Rightarrow> 'r \<times> chain_arc option) \<Rightarrow> ('r \<times> latched_page) result" where
  "with_chain p key f =
     rbind (require_exclusive p ''with_chain'') (\<lambda>_.
       let slot = sm_get (deltas (frame p)) key;
           without = sm_remove key (deltas (frame p));
           before = slot_bytes key slot;
           (r, slot') = f slot;
           after = slot_bytes key slot';
           deltas' = (case slot' of None \<Rightarrow> without | Some a \<Rightarrow> sm_insert key a without)
       in Inr (r, p\<lparr>frame := \<lparr>deltas = deltas',
                 live_delta_payload_bytes = live_delta_payload_bytes (frame p) + after - before\<rparr>\<rparr>))"

definition with_all_chains ::
  "latched_page \<Rightarrow> ((bytes, chain_arc) smap \<Rightarrow> 'r \<times> (bytes, chain_arc) smap) \<Rightarrow> ('r \<times> latched_page) result" where
  "with_all_chains p f =
     rbind (require_exclusive p ''with_all_chains'') (\<lambda>_.
       let (r, deltas') = f (deltas (frame p))
       in Inr (r, p\<lparr>frame := \<lparr>deltas = deltas',
                 live_delta_payload_bytes = frame_live_delta_payload_bytes deltas'\<rparr>\<rparr>))"

definition live_delta_payload_exceeds_leaf_budget :: "latched_page \<Rightarrow> bool result" where
  "live_delta_payload_exceeds_leaf_budget p =
     rbind (require_exclusive p ''live_delta_payload_exceeds_leaf_budget'')
       (\<lambda>_. Inr (word_of_nat LEAF_HEADER_SIZE + live_delta_payload_bytes (frame p) > word_of_nat PAGE_SIZE_LEAF))"

definition pending_keys_for_txn :: "leaf_frame \<Rightarrow> u64 \<Rightarrow> bytes list" where
  "pending_keys_for_txn fr txn =
     List.map_filter (\<lambda>(k, a). if has_pending txn (arc_chain a) then Some k else None) (deltas fr)"

definition snapshot_chain_arc :: "leaf_frame \<Rightarrow> bytes \<Rightarrow> chain_arc option" where
  "snapshot_chain_arc fr key = sm_get (deltas fr) key"

section \<open>The two-phase flip\<close>

record prepared_chain_swap =
  swap_key :: bytes
  new_chain :: chain_arc
  expected_old :: chain_arc

datatype swap_outcome = Success | Conflict

definition swap_matches :: "leaf_frame \<Rightarrow> prepared_chain_swap \<Rightarrow> bool" where
  "swap_matches fr s \<longleftrightarrow> sm_get (deltas fr) (swap_key s) = Some (expected_old s)"

definition install_swap :: "prepared_chain_swap \<Rightarrow> leaf_frame \<Rightarrow> leaf_frame" where
  "install_swap s fr =
     \<lparr>deltas = sm_insert (swap_key s) (new_chain s) (deltas fr),
      live_delta_payload_bytes = live_delta_payload_bytes fr
        + chain_live_head_bytes (swap_key s) (arc_chain (new_chain s))
        - chain_live_head_bytes (swap_key s) (arc_chain (expected_old s))\<rparr>"

definition try_swap_chains_if_unchanged ::
  "latched_page \<Rightarrow> prepared_chain_swap list \<Rightarrow> (swap_outcome \<times> latched_page) result" where
  "try_swap_chains_if_unchanged p prepared =
     rbind (require_exclusive p ''try_swap_chains_if_unchanged'') (\<lambda>_.
       if list_all (swap_matches (frame p)) prepared
       then Inr (Success, p\<lparr>frame := fold install_swap prepared (frame p)\<rparr>)
       else Inr (Conflict, p))"

text \<open>Phase A, under the shared latch: copy and flip the chains that hold a pending
  entry of the transaction. The copies are new allocations; \<open>fresh\<close> gives their
  addresses.\<close>

definition flip_phase_a_prepare ::
  "(bytes \<Rightarrow> nat) \<Rightarrow> leaf_frame \<Rightarrow> u64 \<Rightarrow> ts option \<Rightarrow> prepared_chain_swap list" where
  "flip_phase_a_prepare fresh fr txn commit_ts =
     List.map_filter
       (\<lambda>key. case snapshot_chain_arc fr key of
          None \<Rightarrow> None
        | Some old \<Rightarrow> Some \<lparr>swap_key = key,
            new_chain = Arc (fresh key) (fst (flip_pending_in_chain (arc_chain old) txn commit_ts)),
            expected_old = old\<rparr>)
       (pending_keys_for_txn fr txn)"

text \<open>Phase B, under the exclusive latch.\<close>

definition flip_phase_b_swap :: "leaf_frame \<Rightarrow> prepared_chain_swap list \<Rightarrow> (swap_outcome \<times> leaf_frame) result" where
  "flip_phase_b_swap fr prepared =
     rbind (try_swap_chains_if_unchanged \<lparr>page_id = 0, latch = Exclusive, frame = fr\<rparr> prepared)
       (\<lambda>(out, p). Inr (out, frame p))"

definition MAX_FLIP_RETRIES :: nat where "MAX_FLIP_RETRIES = 3"

text \<open>The retry loop. Other threads may change the frame whenever no latch is held:
  \<open>other i\<close> is what they do before the \<open>i\<close>-th phase.\<close>

fun flip_attempts ::
  "nat \<Rightarrow> nat \<Rightarrow> (nat \<Rightarrow> leaf_frame \<Rightarrow> leaf_frame) \<Rightarrow> (nat \<Rightarrow> bytes \<Rightarrow> nat) \<Rightarrow> u64 \<Rightarrow> ts option \<Rightarrow>
   leaf_frame \<Rightarrow> unit result \<times> leaf_frame" where
  "flip_attempts 0 i other fresh txn commit_ts fr =
     (Inl (Internal ''flip_pending_one_page: bounded retry exhausted''), fr)"
| "flip_attempts (Suc n) i other fresh txn commit_ts fr =
     (let fr1 = other (2 * i) fr;
          prepared = flip_phase_a_prepare (fresh i) fr1 txn commit_ts
      in if prepared = [] then (Inr (), fr1)
         else let fr2 = other (2 * i + 1) fr1 in
           case flip_phase_b_swap fr2 prepared of
             Inl e \<Rightarrow> (Inl e, fr2)
           | Inr (Success, fr3) \<Rightarrow> (Inr (), fr3)
           | Inr (Conflict, fr3) \<Rightarrow> flip_attempts n (Suc i) other fresh txn commit_ts fr3)"

definition flip_pending_one_page ::
  "(nat \<Rightarrow> leaf_frame \<Rightarrow> leaf_frame) \<Rightarrow> (nat \<Rightarrow> bytes \<Rightarrow> nat) \<Rightarrow> u64 \<Rightarrow> ts option \<Rightarrow> leaf_frame \<Rightarrow>
   unit result \<times> leaf_frame" where
  "flip_pending_one_page other fresh txn commit_ts fr =
     flip_attempts MAX_FLIP_RETRIES 0 other fresh txn commit_ts fr"

section \<open>The running sum\<close>

definition cache_exact :: "leaf_frame \<Rightarrow> bool" where
  "cache_exact fr \<longleftrightarrow> sm_inv (deltas fr) \<and>
     live_delta_payload_bytes fr = frame_live_delta_payload_bytes (deltas fr)"

lemma frame_bytes_simps [simp]:
  "frame_live_delta_payload_bytes [] = 0"
  "frame_live_delta_payload_bytes ((k, a) # m) =
     chain_live_head_bytes k (arc_chain a) + frame_live_delta_payload_bytes m"
  by (simp_all add: frame_live_delta_payload_bytes_def)

lemma slot_bytes_simps [simp]:
  "slot_bytes k None = 0" "slot_bytes k (Some a) = chain_live_head_bytes k (arc_chain a)"
  by (simp_all add: slot_bytes_def)

lemma sm_get_above: "sm_inv m \<Longrightarrow> \<forall>k' \<in> fst ` set m. k < k' \<Longrightarrow> sm_get m k = None"
  by (simp add: sm_get_def map_of_None_less)

lemma frame_bytes_insert:
  "sm_inv m \<Longrightarrow> frame_live_delta_payload_bytes (sm_insert k a m) =
     frame_live_delta_payload_bytes m + chain_live_head_bytes k (arc_chain a) - slot_bytes k (sm_get m k)"
proof (induction k a m rule: sm_insert.induct)
  case (2 k a k' a' m)
  have "k < k' \<Longrightarrow> sm_get ((k', a') # m) k = None"
    using sm_get_above [OF "2.prems", of k] "2.prems" by (auto simp: sm_inv_Cons intro: less_trans)
  then show ?case using 2 by (auto simp: sm_inv_Cons sm_get_def)
qed (simp add: sm_get_def)

lemma frame_bytes_remove:
  "sm_inv m \<Longrightarrow> frame_live_delta_payload_bytes (sm_remove k m) =
     frame_live_delta_payload_bytes m - slot_bytes k (sm_get m k)"
  by (induction k m rule: sm_remove.induct) (auto simp: sm_inv_Cons sm_get_def)

lemma with_chain_cache [inv_rules]:
  assumes "cache_exact (frame p)" and "with_chain p key f = Inr (r, p')"
  shows "cache_exact (frame p')"
proof -
  obtain r' slot' where f: "f (sm_get (deltas (frame p)) key) = (r', slot')"
    by (cases "f (sm_get (deltas (frame p)) key)") auto
  have inv: "sm_inv (deltas (frame p))" "sm_inv (sm_remove key (deltas (frame p)))"
    using assms(1) sm_remove_inv by (auto simp: cache_exact_def)
  have none: "sm_get (sm_remove key (deltas (frame p))) key = None"
    using sm_get_remove [OF inv(1)] by simp
  show ?thesis
    using assms f inv none
    by (cases slot')
       (auto simp: with_chain_def require_exclusive_def Let_def cache_exact_def sm_insert_inv
         frame_bytes_insert frame_bytes_remove)
qed

lemma install_swap_cache [inv_rules]:
  assumes "cache_exact fr" and "swap_matches fr s"
  shows "cache_exact (install_swap s fr)"
  using assms by (simp add: cache_exact_def install_swap_def swap_matches_def sm_insert_inv frame_bytes_insert)

lemma install_swap_get:
  "cache_exact fr \<Longrightarrow> sm_get (deltas (install_swap s fr)) = (sm_get (deltas fr))(swap_key s \<mapsto> new_chain s)"
  by (simp add: install_swap_def cache_exact_def sm_get_insert)

lemma install_swaps:
  assumes "cache_exact fr" and "list_all (swap_matches fr) ss" and "distinct (map swap_key ss)"
  shows "cache_exact (fold install_swap ss fr) \<and>
    sm_get (deltas (fold install_swap ss fr)) =
      (\<lambda>k. case map_of (map (\<lambda>s. (swap_key s, new_chain s)) ss) k of
             Some a \<Rightarrow> Some a | None \<Rightarrow> sm_get (deltas fr) k)"
  using assms
proof (induction ss arbitrary: fr)
  case (Cons s ss)
  have c: "cache_exact (install_swap s fr)" using Cons.prems install_swap_cache by simp
  have m: "list_all (swap_matches (install_swap s fr)) ss"
    using Cons.prems install_swap_get [OF Cons.prems(1), of s]
    by (auto simp: list_all_iff swap_matches_def) (metis image_eqI)
  have "map_of (map (\<lambda>s. (swap_key s, new_chain s)) ss) (swap_key s) = None"
    using Cons.prems(3) by (auto simp: map_of_eq_None_iff)
  then show ?case
    using Cons.IH [OF c m] Cons.prems(3) install_swap_get [OF Cons.prems(1), of s]
    by (auto simp: fun_eq_iff split: option.splits)
qed simp

section \<open>What the flip does\<close>

lemma restore_first_map_state [simp]: "map state (restore_first t c) = map state c"
  by (induction c) auto

lemma restore_map_state: "map state (restore_previous_head_after_abort c idx t) = map state c"
proof -
  have "map state (restore_previous_head_after_abort c idx t) =
      map state (take (idx + 1) c @ drop (idx + 1) c)"
    unfolding restore_previous_head_after_abort_def by (simp only: map_append restore_first_map_state)
  then show ?thesis by (simp only: append_take_drop_id)
qed

lemma flip_at_states:
  "map state (fst (flip_at idx txn ct (c, n))) =
     (if idx < length c \<and> state (c ! idx) = Pending txn
      then (map state c)[idx := (if ct = None then Aborted else Committed)] else map state c)"
  by (simp add: flip_at_def restore_map_state map_update split: option.splits)

lemma map_upt_nth: "map (\<lambda>j. g (c ! j)) [0..<length c] = map g c"
  by (rule nth_equalityI) simp_all

lemma flip_prefix_states:
  assumes "k \<le> length c"
  shows "map state (fst (fold (\<lambda>idx. flip_at idx txn ct) [0..<k] (c, n))) =
    map (\<lambda>j. if j < k \<and> state (c ! j) = Pending txn then (if ct = None then Aborted else Committed)
              else state (c ! j)) [0..<length c]"
  using assms
proof (induction k)
  case 0
  then show ?case by (simp add: map_upt_nth)
next
  case (Suc k)
  let ?r = "fold (\<lambda>idx. flip_at idx txn ct) [0..<k] (c, n)"
  let ?st = "\<lambda>k. map (\<lambda>j. if j < k \<and> state (c ! j) = Pending txn then (if ct = None then Aborted else Committed)
              else state (c ! j)) [0..<length c]"
  have ih: "map state (fst ?r) = ?st k" using Suc by simp
  then have len: "length (fst ?r) = length c" using map_eq_imp_length_eq [OF ih] by simp
  then have "state (fst ?r ! k) = state (c ! k)"
    using arg_cong [OF ih, of "\<lambda>xs. xs ! k"] Suc.prems by simp
  then have "map state (fst (flip_at k txn ct (fst ?r, snd ?r))) =
      (if state (c ! k) = Pending txn then (?st k)[k := (if ct = None then Aborted else Committed)] else ?st k)"
    using flip_at_states [of k txn ct "fst ?r" "snd ?r"] ih len Suc.prems by simp
  also have "\<dots> = ?st (Suc k)"
    using Suc.prems
    by (cases "state (c ! k) = Pending txn")
       (auto simp: nth_list_update less_Suc_eq intro!: nth_equalityI)
  finally show ?case by simp
qed

lemma flip_states:
  "map state (fst (flip_pending_in_chain c txn ct)) =
     map (\<lambda>e. if state e = Pending txn then (if ct = None then Aborted else Committed) else state e) c"
proof -
  let ?g = "\<lambda>e. if state e = Pending txn then (if ct = None then Aborted else Committed) else state e"
  have "map state (fst (flip_pending_in_chain c txn ct)) =
      map (\<lambda>j. if j < length c \<and> state (c ! j) = Pending txn then (if ct = None then Aborted else Committed)
              else state (c ! j)) [0..<length c]"
    using flip_prefix_states [of "length c" c txn ct 0] unfolding flip_pending_in_chain_def by simp
  also have "\<dots> = map (\<lambda>j. ?g (c ! j)) [0..<length c]" by (rule map_cong) auto
  also have "\<dots> = map ?g c" by (rule map_upt_nth)
  finally show ?thesis .
qed

lemma flip_clears: "\<not> has_pending txn (fst (flip_pending_in_chain c txn ct))"
proof -
  have "Pending txn \<notin> set (map state (fst (flip_pending_in_chain c txn ct)))"
    unfolding flip_states by auto
  then show ?thesis by (auto simp: has_pending_def list_ex_iff image_iff)
qed

section \<open>The two-phase flip under interference\<close>

definition no_pending :: "u64 \<Rightarrow> leaf_frame \<Rightarrow> bool" where
  "no_pending txn fr \<longleftrightarrow> (\<forall>k a. sm_get (deltas fr) k = Some a \<longrightarrow> \<not> has_pending txn (arc_chain a))"

text \<open>What other threads may do to a frame between the phases: they keep the frame
  consistent and create no pending entry of this transaction.\<close>

definition well_behaved :: "u64 \<Rightarrow> (leaf_frame \<Rightarrow> leaf_frame) \<Rightarrow> bool" where
  "well_behaved txn f \<longleftrightarrow>
     (\<forall>fr. cache_exact fr \<longrightarrow> cache_exact (f fr) \<and>
        (\<forall>k a. sm_get (deltas (f fr)) k = Some a \<longrightarrow> has_pending txn (arc_chain a) \<longrightarrow>
           (\<exists>a'. sm_get (deltas fr) k = Some a' \<and> has_pending txn (arc_chain a'))))"

lemma pending_keys_set:
  assumes "sm_inv (deltas fr)"
  shows "set (pending_keys_for_txn fr txn) =
    {k. \<exists>a. sm_get (deltas fr) k = Some a \<and> has_pending txn (arc_chain a)}"
  using sm_get_iff [OF assms]
  by (force simp: pending_keys_for_txn_def List.map_filter_def image_iff split: if_splits)

lemma pending_keys_distinct:
  assumes "sm_inv (deltas fr)"
  shows "distinct (pending_keys_for_txn fr txn)"
proof -
  have "List.map_filter (\<lambda>(k, a). if has_pending txn (arc_chain a) then Some k else None) m =
      map fst (filter (\<lambda>(k, a). has_pending txn (arc_chain a)) m)" for m :: "(bytes, chain_arc) smap"
    by (induction m) (auto simp: map_filter_simps)
  then have "pending_keys_for_txn fr txn = map fst (filter (\<lambda>(k, a). has_pending txn (arc_chain a)) (deltas fr))"
    by (simp add: pending_keys_for_txn_def)
  then show ?thesis using sm_inv_distinct [OF assms] by (simp add: distinct_map_filter)
qed

lemma prepare_shape:
  assumes "sm_inv (deltas fr)"
  shows "map swap_key (flip_phase_a_prepare fresh fr txn ct) = pending_keys_for_txn fr txn"
    and "s \<in> set (flip_phase_a_prepare fresh fr txn ct) \<Longrightarrow>
      sm_get (deltas fr) (swap_key s) = Some (expected_old s) \<and> \<not> has_pending txn (arc_chain (new_chain s))"
proof -
  have "\<forall>k \<in> set ks. snapshot_chain_arc fr k \<noteq> None \<Longrightarrow>
      map swap_key (List.map_filter
       (\<lambda>key. case snapshot_chain_arc fr key of
          None \<Rightarrow> None
        | Some old \<Rightarrow> Some \<lparr>swap_key = key,
            new_chain = Arc (fresh key) (fst (flip_pending_in_chain (arc_chain old) txn ct)),
            expected_old = old\<rparr>) ks) = ks" for ks
    by (induction ks) (auto simp: map_filter_simps)
  moreover have "\<forall>k \<in> set (pending_keys_for_txn fr txn). snapshot_chain_arc fr k \<noteq> None"
    using pending_keys_set [OF assms] by (auto simp: snapshot_chain_arc_def)
  ultimately show "map swap_key (flip_phase_a_prepare fresh fr txn ct) = pending_keys_for_txn fr txn"
    unfolding flip_phase_a_prepare_def by blast
  show "s \<in> set (flip_phase_a_prepare fresh fr txn ct) \<Longrightarrow>
      sm_get (deltas fr) (swap_key s) = Some (expected_old s) \<and> \<not> has_pending txn (arc_chain (new_chain s))"
    by (auto simp: flip_phase_a_prepare_def List.map_filter_def snapshot_chain_arc_def flip_clears split: option.splits)
qed

lemma swap_success:
  assumes "cache_exact fr1" and "cache_exact fr2"
    and "\<And>k a. sm_get (deltas fr2) k = Some a \<Longrightarrow> has_pending txn (arc_chain a) \<Longrightarrow>
        \<exists>a'. sm_get (deltas fr1) k = Some a' \<and> has_pending txn (arc_chain a')"
    and "flip_phase_b_swap fr2 (flip_phase_a_prepare fresh fr1 txn ct) = Inr (Success, fr3)"
  shows "cache_exact fr3 \<and> no_pending txn fr3"
proof -
  let ?ss = "flip_phase_a_prepare fresh fr1 txn ct"
  have inv: "sm_inv (deltas fr1)" using assms(1) by (simp add: cache_exact_def)
  have keys: "map swap_key ?ss = pending_keys_for_txn fr1 txn" using prepare_shape(1) [OF inv] .
  have all: "list_all (swap_matches fr2) ?ss" and fr3: "fr3 = fold install_swap ?ss fr2"
    using assms(4)
    by (auto simp: flip_phase_b_swap_def try_swap_chains_if_unchanged_def require_exclusive_def split: if_splits)
  have d: "distinct (map swap_key ?ss)" using keys pending_keys_distinct [OF inv] by simp
  note sw = install_swaps [OF assms(2) all d]
  have "\<not> has_pending txn (arc_chain a)" if g: "sm_get (deltas fr3) k = Some a" for k a
  proof (cases "map_of (map (\<lambda>s. (swap_key s, new_chain s)) ?ss) k")
    case None
    then have "sm_get (deltas fr2) k = Some a" using g sw fr3 by simp
    moreover have "k \<notin> set (pending_keys_for_txn fr1 txn)"
      using None keys [symmetric] by (auto simp: map_of_eq_None_iff image_image)
    ultimately show ?thesis using assms(3) pending_keys_set [OF inv] by blast
  next
    case (Some a')
    then have "a' = a" using g sw fr3 by simp
    then show ?thesis using map_of_SomeD [OF Some] prepare_shape(2) [OF inv] by auto
  qed
  then show ?thesis using sw fr3 by (simp add: no_pending_def)
qed

lemma flip_attempts_ok:
  assumes "cache_exact fr" and "\<And>j. well_behaved txn (other j)"
  shows "cache_exact (snd (flip_attempts n i other fresh txn ct fr)) \<and>
    (is_ok (fst (flip_attempts n i other fresh txn ct fr)) \<longrightarrow>
       no_pending txn (snd (flip_attempts n i other fresh txn ct fr)))"
  using assms(1)
proof (induction n arbitrary: i fr)
  case (Suc n)
  let ?fr1 = "other (2 * i) fr" and ?fr2 = "other (2 * i + 1) (other (2 * i) fr)"
  let ?ss = "flip_phase_a_prepare (fresh i) ?fr1 txn ct"
  have wb: "well_behaved txn (other j)" for j by (rule assms(2))
  have c1: "cache_exact ?fr1" using Suc.prems wb [of "2 * i"] by (simp add: well_behaved_def)
  have c2: "cache_exact ?fr2" using c1 wb [of "2 * i + 1"] by (simp add: well_behaved_def)
  have inv: "sm_inv (deltas ?fr1)" using c1 by (simp add: cache_exact_def)
  have less: "\<exists>a'. sm_get (deltas ?fr1) k = Some a' \<and> has_pending txn (arc_chain a')"
    if "sm_get (deltas ?fr2) k = Some a" "has_pending txn (arc_chain a)" for k a
    using wb [of "2 * i + 1"] c1 that by (simp add: well_behaved_def)
  have none: "no_pending txn ?fr1" if "?ss = []"
    using that prepare_shape(1) [OF inv, of "fresh i" txn ct] pending_keys_set [OF inv, of txn]
    by (auto simp: no_pending_def)
  show ?case
  proof (cases "flip_phase_b_swap ?fr2 ?ss")
    case (Inl e)
    then show ?thesis using c1 c2 none by (simp add: Let_def)
  next
    case (Inr r)
    obtain out fr3 where r: "r = (out, fr3)" by (cases r)
    show ?thesis
    proof (cases out)
      case Success
      then have "cache_exact fr3 \<and> no_pending txn fr3"
        using Inr r by (intro swap_success [OF c1 c2]) (auto intro: less)
      then show ?thesis using Success Inr r c1 none by (simp add: Let_def)
    next
      case Conflict
      then have "fr3 = ?fr2" using Inr r
        by (auto simp: flip_phase_b_swap_def try_swap_chains_if_unchanged_def require_exclusive_def split: if_splits)
      then show ?thesis using Conflict Inr r c1 none Suc.IH [OF c2, of "Suc i"] by (simp add: Let_def)
    qed
  qed
qed simp

section \<open>Properties\<close>


definition ex_frame :: leaf_frame where
  "ex_frame = \<lparr>deltas = [([1], Arc 0 (push_pending ex_chain (Ts 8 0) 3 (Inline [3]) False))],
     live_delta_payload_bytes = 11\<rparr>"

lemma ex_frame_exact: "cache_exact ex_frame"
  by (simp add: cache_exact_def ex_frame_def push_pending_def chain_live_head_bytes_def is_live_head_def
      sm_inv_def SLOT_POINTER_BYTES_def CELL_KEY_LEN_BYTES_def CELL_VALUE_TYPE_BYTES_def CELL_INLINE_LEN_BYTES_def
      OVERFLOW_THRESHOLD_def)


text \<open>Property C17. A flip that reports success is complete: whatever other threads do
  to the frame between the phases (short of creating pending entries of this
  transaction), if \<open>flip_pending_one_page\<close> returns without error then no chain on
  the page holds a pending entry of the transaction, and whether or not it
  succeeds the frame and its running sum stay consistent.\<close>

theorem flip_complete:
  assumes "cache_exact fr" and "\<forall>j. well_behaved txn (other j)"
    and "flip_pending_one_page other fresh txn ct fr = (r, fr')"
  shows "cache_exact fr' \<and>
    (r = Inr () \<longrightarrow> (\<forall>k a. sm_get (deltas fr') k = Some a \<longrightarrow> \<not> has_pending txn (arc_chain a)))"
  using flip_attempts_ok [of fr txn other MAX_FLIP_RETRIES 0 fresh ct] assms
  by (auto simp: flip_pending_one_page_def no_pending_def)

theorem flip_complete_witness:
  "\<exists>fr'. flip_pending_one_page (\<lambda>_ fr. fr) (\<lambda>_ _. 1) 3 (Some (Ts 8 0)) ex_frame = (Inr (), fr') \<and>
     cache_exact fr' \<and> (\<forall>k a. sm_get (deltas fr') k = Some a \<longrightarrow> \<not> has_pending 3 (arc_chain a))"
proof -
  let ?r = "flip_pending_one_page (\<lambda>_ fr. fr) (\<lambda>_ _. 1) 3 (Some (Ts 8 0)) ex_frame"
  have "swap_matches ex_frame s" if "s \<in> set (flip_phase_a_prepare fresh ex_frame txn ct)" for s fresh txn ct
    using prepare_shape(2) [OF _ that] ex_frame_exact by (simp add: swap_matches_def cache_exact_def)
  then have "list_all (swap_matches ex_frame) (flip_phase_a_prepare fresh ex_frame txn ct)" for fresh txn ct
    by (simp add: list_all_iff)
  then have "fst ?r = Inr ()"
    by (simp add: flip_pending_one_page_def MAX_FLIP_RETRIES_def numeral_3_eq_3 Let_def flip_phase_b_swap_def
        try_swap_chains_if_unchanged_def require_exclusive_def)
  then obtain fr' where r: "?r = (Inr (), fr')" by (cases ?r) auto
  have "\<forall>j. well_behaved 3 ((\<lambda>_ fr. fr) j)" by (auto simp: well_behaved_def)
  from flip_complete [OF ex_frame_exact this r] r show ?thesis by auto
qed

end
