(* ===== verification/Read_Views.thy ===== *)
theory Read_Views
  imports Version_Chain
begin

text \<open>
  Read views and their registry (\<open>src/src/mvcc/registry.rs\<close>,
  \<open>src/src/mvcc/read_view.rs\<close>), the open protocol of a snapshot reader
  (\<open>src/src/storage/paged_engine/snapshot_ops/read_exec.rs\<close>) and the forced
  expiry of a view against concurrent chain snapshots
  (\<open>ChainSnapshot::new\<close> in \<open>src/src/mvcc/chain_snapshot.rs\<close>).

  The registry is behind a mutex, so its operations are single steps; the open
  protocol and the expiry are sequences of separate accesses and are step
  relations.
\<close>

section \<open>The registry\<close>

text \<open>The weak back-pointer of a slot is the view it points to, if attached.\<close>

record registry_slot =
  slot_read_ts :: ts
  slot_view :: "u64 option"

type_synonym registry = "(u64, registry_slot) smap"

definition registry_new :: registry where "registry_new = []"

definition register :: "u64 \<Rightarrow> ts \<Rightarrow> u64 option \<Rightarrow> registry \<Rightarrow> registry" where
  "register txn r v reg = sm_insert txn \<lparr>slot_read_ts = r, slot_view = v\<rparr> reg"

definition refine_read_ts :: "u64 \<Rightarrow> ts \<Rightarrow> registry \<Rightarrow> registry" where
  "refine_read_ts txn r reg = sm_update txn (\<lambda>s. s\<lparr>slot_read_ts := r\<rparr>) reg"

definition attach_view_and_refine :: "u64 \<Rightarrow> ts \<Rightarrow> u64 option \<Rightarrow> registry \<Rightarrow> registry" where
  "attach_view_and_refine txn r v reg = sm_update txn (\<lambda>s. \<lparr>slot_read_ts = r, slot_view = v\<rparr>) reg"

definition unregister :: "u64 \<Rightarrow> registry \<Rightarrow> registry" where
  "unregister txn reg = sm_remove txn reg"

definition oldest_required_ts :: "registry \<Rightarrow> ts" where
  "oldest_required_ts reg =
     (case map (slot_read_ts \<circ> snd) reg of [] \<Rightarrow> ts_max | r # rs \<Rightarrow> foldl min r rs)"

definition registry_len :: "registry \<Rightarrow> nat" where "registry_len reg = length reg"
definition registry_is_empty :: "registry \<Rightarrow> bool" where "registry_is_empty reg = (reg = [])"

lemma foldl_min_le: "foldl min r rs \<le> r \<and> (\<forall>x \<in> set rs. foldl min r rs \<le> x)"
  for r :: "'a::linorder"
proof (induction rs arbitrary: r)
  case (Cons x rs)
  have "foldl min (min r x) rs \<le> min r x \<and> (\<forall>y \<in> set rs. foldl min (min r x) rs \<le> y)" by (rule Cons)
  then show ?case by (simp add: min.bounded_iff)
qed simp

lemma oldest_le: "(txn, s) \<in> set reg \<Longrightarrow> oldest_required_ts reg \<le> slot_read_ts s"
proof (cases reg)
  case (Cons a reg')
  assume "(txn, s) \<in> set reg"
  then have "s = snd a \<or> slot_read_ts s \<in> set (map (slot_read_ts \<circ> snd) reg')"
    using Cons by force
  then show ?thesis
    using Cons foldl_min_le [of "slot_read_ts (snd a)" "map (slot_read_ts \<circ> snd) reg'"]
    by (auto simp: oldest_required_ts_def)
qed simp

lemma oldest_le_get: "sm_inv reg \<Longrightarrow> sm_get reg txn = Some s \<Longrightarrow> oldest_required_ts reg \<le> slot_read_ts s"
  using oldest_le [of txn s reg] sm_get_iff [of reg txn s] by simp

lemma registry_ops_inv [inv_rules]:
  assumes "sm_inv reg"
  shows "sm_inv (register txn r v reg)" "sm_inv (refine_read_ts txn r reg)"
    "sm_inv (attach_view_and_refine txn r v reg)" "sm_inv (unregister txn reg)"
  using assms
  by (simp_all add: register_def refine_read_ts_def attach_view_and_refine_def unregister_def
      sm_insert_inv sm_update_inv sm_remove_inv)

section \<open>Opening a snapshot view\<close>

record published_epoch =
  visible_ts :: ts
  catalog_generation :: u64

datatype reader_phase =
    Rd_Pinned
  | Rd_Peeked published_epoch
  | Rd_Loaded published_epoch
  | Rd_Attached published_epoch
  | Rd_Live published_epoch
  | Rd_Expired
  | Rd_Dropped

record reader_world =
  rw_registry :: registry
  rw_epoch :: published_epoch
  rw_frontier :: ts
  rw_txn_counter :: u64
  rw_readers :: "u64 \<Rightarrow> reader_phase option"

definition reader_start :: "reader_world \<Rightarrow> bool" where
  "reader_start w \<longleftrightarrow> rw_registry w = registry_new \<and> rw_readers w = Map.empty"

text \<open>The accesses of \<open>open_snapshot_read_view\<close>: the conservative pin, the epoch
  load and the frontier load after it (an epoch ahead of the frontier is loaded again), the attach,
  the generation recheck, and the drop; and what publishers do meanwhile, the
  epoch store first and the frontier store after it. The transaction counter is
  assumed not to wrap.\<close>

inductive reader_step :: "reader_world \<Rightarrow> reader_world \<Rightarrow> bool" where
  rs_pin: "txn = rw_txn_counter w \<Longrightarrow> txn \<noteq> - 1 \<Longrightarrow>
     reader_step w (w\<lparr>rw_txn_counter := txn + 1,
       rw_registry := register txn ts_default None (rw_registry w),
       rw_readers := (rw_readers w)(txn \<mapsto> Rd_Pinned)\<rparr>)"
| rs_peek: "rw_readers w txn = Some Rd_Pinned \<Longrightarrow>
     reader_step w (w\<lparr>rw_readers := (rw_readers w)(txn \<mapsto> Rd_Peeked (rw_epoch w))\<rparr>)"
| rs_load: "rw_readers w txn = Some (Rd_Peeked ep) \<Longrightarrow> visible_ts ep \<le> rw_frontier w \<Longrightarrow>
     reader_step w (w\<lparr>rw_readers := (rw_readers w)(txn \<mapsto> Rd_Loaded ep)\<rparr>)"
| rs_spin: "rw_readers w txn = Some (Rd_Peeked ep) \<Longrightarrow> \<not> visible_ts ep \<le> rw_frontier w \<Longrightarrow>
     reader_step w (w\<lparr>rw_readers := (rw_readers w)(txn \<mapsto> Rd_Pinned)\<rparr>)"
| rs_attach: "rw_readers w txn = Some (Rd_Loaded ep) \<Longrightarrow>
     reader_step w (w\<lparr>rw_registry := attach_view_and_refine txn (visible_ts ep) (Some txn) (rw_registry w),
       rw_readers := (rw_readers w)(txn \<mapsto> Rd_Attached ep)\<rparr>)"
| rs_recheck_ok: "rw_readers w txn = Some (Rd_Attached ep) \<Longrightarrow>
     catalog_generation (rw_epoch w) = catalog_generation ep \<Longrightarrow>
     reader_step w (w\<lparr>rw_readers := (rw_readers w)(txn \<mapsto> Rd_Live ep)\<rparr>)"
| rs_recheck_fails: "rw_readers w txn = Some (Rd_Attached ep) \<Longrightarrow>
     catalog_generation (rw_epoch w) \<noteq> catalog_generation ep \<Longrightarrow>
     reader_step w (w\<lparr>rw_registry := unregister txn (rw_registry w),
       rw_readers := (rw_readers w)(txn \<mapsto> Rd_Expired)\<rparr>)"
| rs_drop: "rw_readers w txn = Some (Rd_Live ep) \<Longrightarrow>
     reader_step w (w\<lparr>rw_registry := unregister txn (rw_registry w),
       rw_readers := (rw_readers w)(txn \<mapsto> Rd_Dropped)\<rparr>)"
| rs_publish_epoch: "visible_ts (rw_epoch w) < visible_ts ep \<Longrightarrow>
     reader_step w (w\<lparr>rw_epoch := ep\<rparr>)"
| rs_publish_frontier: "rw_frontier w \<le> t \<Longrightarrow>
     reader_step w (w\<lparr>rw_frontier := t\<rparr>)"

inductive reader_reachable :: "reader_world \<Rightarrow> bool" where
  rr_start: "reader_start w \<Longrightarrow> reader_reachable w"
| rr_step: "reader_reachable w \<Longrightarrow> reader_step w w' \<Longrightarrow> reader_reachable w'"

text \<open>What each phase has: a slot at the floor, or a slot at the epoch's timestamp;
  and an epoch that the frontier has reached.\<close>

fun phase_inv :: "reader_world \<Rightarrow> u64 \<Rightarrow> reader_phase \<Rightarrow> bool" where
  "phase_inv w txn Rd_Pinned =
     (\<exists>s. sm_get (rw_registry w) txn = Some s \<and> slot_read_ts s = ts_default)"
| "phase_inv w txn (Rd_Peeked ep) =
     (\<exists>s. sm_get (rw_registry w) txn = Some s \<and> slot_read_ts s = ts_default)"
| "phase_inv w txn (Rd_Loaded ep) =
     ((\<exists>s. sm_get (rw_registry w) txn = Some s \<and> slot_read_ts s = ts_default) \<and> visible_ts ep \<le> rw_frontier w)"
| "phase_inv w txn (Rd_Attached ep) =
     ((\<exists>s. sm_get (rw_registry w) txn = Some s \<and> slot_read_ts s = visible_ts ep) \<and> visible_ts ep \<le> rw_frontier w)"
| "phase_inv w txn (Rd_Live ep) =
     ((\<exists>s. sm_get (rw_registry w) txn = Some s \<and> slot_read_ts s = visible_ts ep) \<and> visible_ts ep \<le> rw_frontier w)"
| "phase_inv w txn _ = True"

definition readers_inv :: "reader_world \<Rightarrow> bool" where
  "readers_inv w \<longleftrightarrow> sm_inv (rw_registry w) \<and>
     (\<forall>txn ph. rw_readers w txn = Some ph \<longrightarrow> txn < rw_txn_counter w \<and> phase_inv w txn ph)"

lemma phase_inv_mono:
  assumes "phase_inv w txn ph"
    and "sm_get (rw_registry w') txn = sm_get (rw_registry w) txn" and "rw_frontier w \<le> rw_frontier w'"
  shows "phase_inv w' txn ph"
  using assms by (cases ph) auto

lemma readers_inv_touch:
  assumes inv: "readers_inv w" and reg: "sm_inv (rw_registry w')"
    and same: "\<And>t. t \<noteq> txn \<Longrightarrow> sm_get (rw_registry w') t = sm_get (rw_registry w) t"
    and fr: "rw_frontier w' = rw_frontier w" and cnt: "rw_txn_counter w \<le> rw_txn_counter w'"
    and rd: "rw_readers w' = (rw_readers w)(txn \<mapsto> ph)" and own: "txn < rw_txn_counter w'" "phase_inv w' txn ph"
  shows "readers_inv w'"
proof -
  have "t < rw_txn_counter w' \<and> phase_inv w' t q" if "rw_readers w' t = Some q" for t q
  proof (cases "t = txn")
    case True
    then show ?thesis using that rd own by simp
  next
    case False
    then have "rw_readers w t = Some q" using that rd by simp
    then have "t < rw_txn_counter w" "phase_inv w t q" using inv by (auto simp: readers_inv_def)
    then show ?thesis
      using less_le_trans [OF _ cnt] phase_inv_mono [OF _ same [OF False]] fr by simp
  qed
  then show ?thesis using reg by (simp add: readers_inv_def)
qed

lemma reader_step_inv [inv_rules]:
  assumes "reader_step w w'" and inv: "readers_inv w"
  shows "readers_inv w'"
proof -
  have reg: "sm_inv (rw_registry w)" using inv by (simp add: readers_inv_def)
  have own: "txn < rw_txn_counter w \<and> phase_inv w txn ph" if "rw_readers w txn = Some ph" for txn ph
    using inv that by (simp add: readers_inv_def)
  note defs = register_def attach_view_and_refine_def unregister_def
    and laws = sm_insert_inv sm_update_inv sm_remove_inv sm_get_insert sm_get_update sm_get_remove
  show ?thesis
    using assms(1)
  proof (cases rule: reader_step.cases)
    case (rs_pin txn)
    have "txn < txn + 1" using rs_pin by (intro word_less_plus_one) simp
    then show ?thesis
      by (intro readers_inv_touch [OF inv, where txn = txn and ph = Rd_Pinned])
         (simp_all add: rs_pin(1) rs_pin(2) [symmetric] defs laws reg)
  next
    case (rs_peek txn)
    show ?thesis using own [OF rs_peek(2)]
      by (intro readers_inv_touch [OF inv, where txn = txn and ph = "Rd_Peeked (rw_epoch w)"])
         (simp_all add: rs_peek(1) reg)
  next
    case (rs_load txn ep)
    show ?thesis using own [OF rs_load(2)] rs_load(3)
      by (intro readers_inv_touch [OF inv, where txn = txn and ph = "Rd_Loaded ep"])
         (simp_all add: rs_load(1) reg)
  next
    case (rs_spin txn ep)
    show ?thesis using own [OF rs_spin(2)]
      by (intro readers_inv_touch [OF inv, where txn = txn and ph = Rd_Pinned])
         (simp_all add: rs_spin(1) reg)
  next
    case (rs_attach txn ep)
    show ?thesis using own [OF rs_attach(2)]
      by (intro readers_inv_touch [OF inv, where txn = txn and ph = "Rd_Attached ep"])
         (auto simp: rs_attach(1) defs laws reg)
  next
    case (rs_recheck_ok txn ep)
    show ?thesis using own [OF rs_recheck_ok(2)]
      by (intro readers_inv_touch [OF inv, where txn = txn and ph = "Rd_Live ep"])
         (simp_all add: rs_recheck_ok(1) reg)
  next
    case (rs_recheck_fails txn ep)
    show ?thesis using own [OF rs_recheck_fails(2)]
      by (intro readers_inv_touch [OF inv, where txn = txn and ph = Rd_Expired])
         (simp_all add: rs_recheck_fails(1) defs laws reg)
  next
    case (rs_drop txn ep)
    show ?thesis using own [OF rs_drop(2)]
      by (intro readers_inv_touch [OF inv, where txn = txn and ph = Rd_Dropped])
         (simp_all add: rs_drop(1) defs laws reg)
  next
    case (rs_publish_epoch ep)
    have "phase_inv w' txn ph" if "phase_inv w txn ph" for txn ph
      using phase_inv_mono [OF that, of w'] rs_publish_epoch by simp
    then show ?thesis using own reg by (simp add: readers_inv_def rs_publish_epoch)
  next
    case (rs_publish_frontier t)
    have "phase_inv w' txn ph" if "phase_inv w txn ph" for txn ph
      using phase_inv_mono [OF that, of w'] rs_publish_frontier by simp
    then show ?thesis using own reg by (simp add: readers_inv_def rs_publish_frontier)
  qed
qed

lemma reader_reachable_inv: "reader_reachable w \<Longrightarrow> readers_inv w"
proof (induction rule: reader_reachable.induct)
  case (rr_start w)
  then show ?case by (simp add: reader_start_def readers_inv_def registry_new_def)
next
  case (rr_step w w')
  then show ?case by (blast intro: reader_step_inv)
qed

section \<open>Forced expiry against chain snapshots\<close>

text \<open>\<open>force_expire\<close> stores the poison flag and then waits until no pin operation is in
  flight; \<open>ChainSnapshot::new\<close> checks the flag, announces itself, clones, checks the
  flag again and retires. Any number of snapshots run against one view;
  \<open>in_flight\<close> is the counter.\<close>

datatype snap_phase =
    Sn_Start
  | Sn_Checked
  | Sn_Cloning
  | Sn_Rechecked bool
  | Sn_Done bool

datatype expire_phase = Ex_Idle | Ex_Poisoned | Ex_Done

record expiry_world =
  ew_poisoned :: bool
  in_flight :: nat
  ew_snaps :: "snap_phase list"
  ew_expire :: expire_phase

text \<open>The flag of \<open>Sn_Rechecked\<close> and \<open>Sn_Done\<close> says whether the snapshot keeps its
  entries.\<close>

inductive expiry_step :: "expiry_world \<Rightarrow> expiry_world \<Rightarrow> bool" where
  es_refused: "i < length (ew_snaps w) \<Longrightarrow> ew_snaps w ! i = Sn_Start \<Longrightarrow> ew_poisoned w \<Longrightarrow>
     expiry_step w (w\<lparr>ew_snaps := (ew_snaps w)[i := Sn_Done False]\<rparr>)"
| es_check: "i < length (ew_snaps w) \<Longrightarrow> ew_snaps w ! i = Sn_Start \<Longrightarrow> \<not> ew_poisoned w \<Longrightarrow>
     expiry_step w (w\<lparr>ew_snaps := (ew_snaps w)[i := Sn_Checked]\<rparr>)"
| es_announce: "i < length (ew_snaps w) \<Longrightarrow> ew_snaps w ! i = Sn_Checked \<Longrightarrow>
     expiry_step w (w\<lparr>in_flight := in_flight w + 1, ew_snaps := (ew_snaps w)[i := Sn_Cloning]\<rparr>)"
| es_recheck: "i < length (ew_snaps w) \<Longrightarrow> ew_snaps w ! i = Sn_Cloning \<Longrightarrow>
     expiry_step w (w\<lparr>ew_snaps := (ew_snaps w)[i := Sn_Rechecked (\<not> ew_poisoned w)]\<rparr>)"
| es_retire: "i < length (ew_snaps w) \<Longrightarrow> ew_snaps w ! i = Sn_Rechecked keep \<Longrightarrow>
     expiry_step w (w\<lparr>in_flight := in_flight w - 1, ew_snaps := (ew_snaps w)[i := Sn_Done keep]\<rparr>)"
| es_poison: "ew_expire w = Ex_Idle \<Longrightarrow>
     expiry_step w (w\<lparr>ew_poisoned := True, ew_expire := Ex_Poisoned\<rparr>)"
| es_drained: "ew_expire w = Ex_Poisoned \<Longrightarrow> in_flight w = 0 \<Longrightarrow>
     expiry_step w (w\<lparr>ew_expire := Ex_Done\<rparr>)"

definition snap_pinned :: "snap_phase \<Rightarrow> bool" where
  "snap_pinned ph = (case ph of Sn_Cloning \<Rightarrow> True | Sn_Rechecked _ \<Rightarrow> True | _ \<Rightarrow> False)"

definition expiry_inv :: "expiry_world \<Rightarrow> bool" where
  "expiry_inv w \<longleftrightarrow>
     in_flight w = length (filter snap_pinned (ew_snaps w)) \<and>
     (ew_poisoned w \<longleftrightarrow> ew_expire w \<noteq> Ex_Idle) \<and>
     (ew_expire w = Ex_Done \<longrightarrow> Sn_Rechecked True \<notin> set (ew_snaps w))"

definition expiry_start :: "expiry_world \<Rightarrow> bool" where
  "expiry_start w \<longleftrightarrow> \<not> ew_poisoned w \<and> in_flight w = 0 \<and> ew_expire w = Ex_Idle \<and>
     set (ew_snaps w) \<subseteq> {Sn_Start}"

lemma snap_pinned_simps [simp]:
  "\<not> snap_pinned Sn_Start" "\<not> snap_pinned Sn_Checked" "snap_pinned Sn_Cloning"
  "snap_pinned (Sn_Rechecked b)" "\<not> snap_pinned (Sn_Done b)"
  by (simp_all add: snap_pinned_def)

text \<open>A pinned-snapshot count changes with one entry of the list.\<close>

lemma length_filter_update:
  assumes "i < length xs"
  shows "length (filter P (xs[i := y])) + (if P (xs ! i) then 1 else 0)
       = length (filter P xs) + (if P y then 1 else 0)"
  using assms
proof (induction xs arbitrary: i)
  case (Cons x xs)
  then show ?case
  proof (cases i)
    case (Suc j)
    then show ?thesis using Cons.IH [of j] Cons.prems by simp
  qed simp
qed simp

lemma length_filter_pos: "i < length xs \<Longrightarrow> P (xs ! i) \<Longrightarrow> 0 < length (filter P xs)"
  by (metis filter_empty_conv length_greater_0_conv nth_mem)

lemma expiry_step_inv [inv_rules]:
  assumes "expiry_step w w'" and inv: "expiry_inv w"
  shows "expiry_inv w'"
proof -
  have upd: "Sn_Rechecked True \<notin> set ((ew_snaps w)[i := ph])"
    if "Sn_Rechecked True \<notin> set (ew_snaps w)" "ph \<noteq> Sn_Rechecked True" for i ph
    using that set_update_subset_insert [of "ew_snaps w" i ph] by auto
  show ?thesis
    using assms(1)
  proof (cases rule: expiry_step.cases)
    case (es_refused i)
    then show ?thesis using inv upd length_filter_update [of i "ew_snaps w" snap_pinned "Sn_Done False"]
      by (auto simp: expiry_inv_def)
  next
    case (es_check i)
    then show ?thesis using inv upd length_filter_update [of i "ew_snaps w" snap_pinned Sn_Checked]
      by (auto simp: expiry_inv_def)
  next
    case (es_announce i)
    then show ?thesis using inv upd length_filter_update [of i "ew_snaps w" snap_pinned Sn_Cloning]
      by (auto simp: expiry_inv_def)
  next
    case (es_recheck i)
    then show ?thesis
      using inv upd length_filter_update [of i "ew_snaps w" snap_pinned "Sn_Rechecked (\<not> ew_poisoned w)"]
      by (auto simp: expiry_inv_def)
  next
    case (es_retire i keep)
    then show ?thesis
      using inv upd length_filter_update [of i "ew_snaps w" snap_pinned "Sn_Done keep"]
      by (auto simp: expiry_inv_def)
  next
    case es_poison
    then show ?thesis using inv by (simp add: expiry_inv_def)
  next
    case es_drained
    then have "\<not> snap_pinned ph" if "ph \<in> set (ew_snaps w)" for ph
      using inv that by (auto simp: expiry_inv_def filter_empty_conv)
    from this [of "Sn_Rechecked True"] have "Sn_Rechecked True \<notin> set (ew_snaps w)" by auto
    then show ?thesis using inv es_drained by (simp add: expiry_inv_def)
  qed
qed

lemma expiry_steps_inv: "expiry_step\<^sup>*\<^sup>* w w' \<Longrightarrow> expiry_inv w \<Longrightarrow> expiry_inv w'"
  by (induction rule: rtranclp_induct) (auto intro: expiry_step_inv)

lemma expiry_start_inv: "expiry_start w \<Longrightarrow> expiry_inv w"
  by (auto simp: expiry_start_def expiry_inv_def filter_empty_conv)

text \<open>Once the view is expired, a step neither revives it nor lets a snapshot keep entries
  it did not already keep.\<close>

lemma expired_step:
  assumes "expiry_step w w'" "expiry_inv w" "ew_expire w = Ex_Done"
  shows "ew_expire w' = Ex_Done"
    and "ew_snaps w' ! i = Sn_Done True \<Longrightarrow> i < length (ew_snaps w') \<Longrightarrow> ew_snaps w ! i = Sn_Done True"
    and "length (ew_snaps w') = length (ew_snaps w)"
proof -
  have "Sn_Rechecked True \<notin> set (ew_snaps w)" using assms by (simp add: expiry_inv_def)
  then have no: "ew_snaps w ! j \<noteq> Sn_Rechecked True" if "j < length (ew_snaps w)" for j
    using that nth_mem by metis
  show "ew_expire w' = Ex_Done" "length (ew_snaps w') = length (ew_snaps w)"
    using assms(1,3) by (cases rule: expiry_step.cases; simp)+
  show "ew_snaps w ! i = Sn_Done True" if "ew_snaps w' ! i = Sn_Done True" "i < length (ew_snaps w')"
    using assms(1,3) that no by (cases rule: expiry_step.cases; auto simp: nth_list_update split: if_splits)
qed

lemma expired_steps:
  assumes "expiry_step\<^sup>*\<^sup>* w w'" "expiry_inv w" "ew_expire w = Ex_Done"
  shows "ew_expire w' = Ex_Done \<and> length (ew_snaps w') = length (ew_snaps w) \<and>
    (i < length (ew_snaps w) \<longrightarrow> ew_snaps w' ! i = Sn_Done True \<longrightarrow> ew_snaps w ! i = Sn_Done True)"
  using assms(1)
proof (induction rule: rtranclp_induct)
  case base
  then show ?case using assms(3) by simp
next
  case (step y z)
  have "expiry_inv y" using expiry_steps_inv [OF step(1) assms(2)] .
  then show ?case using step expired_step(1,3) [OF step(2)] expired_step(2) [OF step(2), of i] by simp
qed

section \<open>Properties\<close>

text \<open>Property C18. While a reader is opening or holds a snapshot view, the reclamation
  horizon \<open>oldest_required_ts\<close> never passes the timestamp it reads at, and that timestamp
  is one the publish frontier has reached, whatever publishers and other readers do
  between its steps.\<close>

theorem open_view_holds_horizon:
  assumes "reader_reachable w" and "rw_readers w txn \<in> {Some (Rd_Loaded ep), Some (Rd_Attached ep), Some (Rd_Live ep)}"
  shows "oldest_required_ts (rw_registry w) \<le> visible_ts ep \<and> visible_ts ep \<le> rw_frontier w"
proof -
  have inv: "readers_inv w" using assms(1) by (rule reader_reachable_inv)
  then have reg: "sm_inv (rw_registry w)" by (simp add: readers_inv_def)
  obtain ph where ph: "rw_readers w txn = Some ph" "ph \<in> {Rd_Loaded ep, Rd_Attached ep, Rd_Live ep}"
    using assms(2) by auto
  then have "phase_inv w txn ph" using inv by (simp add: readers_inv_def)
  then obtain s where "sm_get (rw_registry w) txn = Some s" "slot_read_ts s \<le> visible_ts ep" "visible_ts ep \<le> rw_frontier w"
    using ph(2) by auto
  then show ?thesis using oldest_le_get [OF reg] order_trans by blast
qed

definition ex_epoch :: published_epoch where
  "ex_epoch = \<lparr>visible_ts = (Ts 9 0), catalog_generation = 1\<rparr>"

definition ex_reader_world :: reader_world where
  "ex_reader_world = \<lparr>rw_registry = registry_new, rw_epoch = ex_epoch, rw_frontier = (Ts 9 0),
     rw_txn_counter = 4, rw_readers = Map.empty\<rparr>"

definition ex_reader_loaded :: reader_world where
  "ex_reader_loaded = ex_reader_world\<lparr>rw_txn_counter := 5,
     rw_registry := register 4 ts_default None registry_new,
     rw_readers := [4 \<mapsto> Rd_Loaded ex_epoch]\<rparr>"

lemma ex_reader_loaded_reachable: "reader_reachable ex_reader_loaded"
proof -
  let ?p = "ex_reader_world\<lparr>rw_txn_counter := 5, rw_registry := register 4 ts_default None registry_new,
     rw_readers := [4 \<mapsto> Rd_Pinned]\<rparr>"
  let ?q = "?p\<lparr>rw_readers := [4 \<mapsto> Rd_Peeked ex_epoch]\<rparr>"
  have "reader_step ex_reader_world ?p"
    using rs_pin [of 4 ex_reader_world] by (simp add: ex_reader_world_def)
  moreover have "reader_step ?p ?q"
    using rs_peek [of ?p 4] by (simp add: ex_reader_world_def)
  moreover have "reader_step ?q ex_reader_loaded"
    using rs_load [of ?q 4 ex_epoch] by (simp add: ex_reader_loaded_def ex_reader_world_def ex_epoch_def)
  moreover have "reader_start ex_reader_world" by (simp add: reader_start_def ex_reader_world_def)
  ultimately show ?thesis by (blast intro: rr_start rr_step)
qed

theorem open_view_holds_horizon_witness:
  "reader_reachable ex_reader_loaded \<and> rw_readers ex_reader_loaded 4 = Some (Rd_Loaded ex_epoch) \<and>
   oldest_required_ts (rw_registry ex_reader_loaded) \<le> visible_ts ex_epoch"
  using open_view_holds_horizon [OF ex_reader_loaded_reachable, of 4 ex_epoch] ex_reader_loaded_reachable
  by (simp add: ex_reader_loaded_def)


definition ex_expiry_start :: expiry_world where
  "ex_expiry_start = \<lparr>ew_poisoned = False, in_flight = 0, ew_snaps = [Sn_Start], ew_expire = Ex_Idle\<rparr>"

definition ex_expired :: expiry_world where
  "ex_expired = \<lparr>ew_poisoned = True, in_flight = 0, ew_snaps = [Sn_Checked], ew_expire = Ex_Done\<rparr>"

definition ex_expired_late :: expiry_world where
  "ex_expired_late = ex_expired\<lparr>ew_snaps := [Sn_Done False]\<rparr>"

lemma ex_expired_reached: "expiry_step\<^sup>*\<^sup>* ex_expiry_start ex_expired"
proof -
  let ?c = "ex_expiry_start\<lparr>ew_snaps := [Sn_Checked]\<rparr>"
  let ?p = "?c\<lparr>ew_poisoned := True, ew_expire := Ex_Poisoned\<rparr>"
  have "expiry_step ex_expiry_start ?c"
    using es_check [of 0 ex_expiry_start] by (simp add: ex_expiry_start_def)
  moreover have "expiry_step ?c ?p" using es_poison [of ?c] by (simp add: ex_expiry_start_def)
  moreover have "expiry_step ?p ex_expired"
    using es_drained [of ?p] by (simp add: ex_expiry_start_def ex_expired_def)
  ultimately show ?thesis by (blast intro: rtranclp.rtrancl_into_rtrancl rtranclp.rtrancl_refl)
qed

lemma ex_expired_late_reached: "expiry_step\<^sup>*\<^sup>* ex_expired ex_expired_late"
proof -
  let ?a = "ex_expired\<lparr>in_flight := 1, ew_snaps := [Sn_Cloning]\<rparr>"
  let ?r = "?a\<lparr>ew_snaps := [Sn_Rechecked False]\<rparr>"
  have "expiry_step ex_expired ?a" using es_announce [of 0 ex_expired] by (simp add: ex_expired_def)
  moreover have "expiry_step ?a ?r" using es_recheck [of 0 ?a] by (simp add: ex_expired_def)
  moreover have "expiry_step ?r ex_expired_late"
    using es_retire [of 0 ?r False] by (simp add: ex_expired_def ex_expired_late_def)
  ultimately show ?thesis by (blast intro: rtranclp.rtrancl_into_rtrancl rtranclp.rtrancl_refl)
qed


end
