(* ===== verification/Bson.thy ===== *)
theory Bson
  imports Errors "HOL-Library.Log_Nat" "HOL-Library.Char_ord"
begin

text \<open>
  The values a document holds: the variants of \<open>bson::Bson\<close> the sources match on, a
  document as the ordered list of its fields, strings as their UTF-8 bytes (a
  character of the model is one byte). A double is its 64-bit IEEE 754 pattern; what
  the code does with it (classification, truncation, fractional part) is exact integer
  arithmetic on the pattern, since every finite double is a whole multiple of
  \<open>2\<^sup>-\<^sup>1\<^sup>0\<^sup>7\<^sup>4\<close>. A \<open>Decimal128\<close> carries its \<open>Display\<close> text and a \<open>DbPointer\<close> its \<open>Debug\<close>
  text, the only views of them the sources use.
\<close>

section \<open>Values\<close>

type_synonym f64 = "64 word"

datatype (plugins only: code size) bson =
    Double f64
  | String string
  | Array "bson list"
  | Document "(string \<times> bson) list"
  | Boolean bool
  | Null
  | RegularExpression string string
  | JavaScriptCode string
  | JavaScriptCodeWithScope string "(string \<times> bson) list"
  | Int32 i32
  | Int64 i64
  | Timestamp u32 u32
  | Binary u8 bytes
  | ObjectId bytes
  | DateTime i64
  | Symbol string
  | Decimal128 string
  | Undefined
  | MaxKey
  | MinKey
  | DbPointer string

type_synonym document = "(string \<times> bson) list"

definition as_bytes :: "string \<Rightarrow> bytes" where
  "as_bytes s = map of_char s"

lemma as_bytes_Nil_iff [simp]: "as_bytes s = [] \<longleftrightarrow> s = []"
  by (simp add: as_bytes_def)

lemma of_char_u8_inj: "inj (of_char :: char \<Rightarrow> u8)"
proof (rule injI)
  fix c d :: char
  assume "(of_char c :: u8) = of_char d"
  then have "unat (of_char c :: u8) = unat (of_char d :: u8)" by simp
  moreover have "unat (of_char x :: u8) = (of_char x :: nat)" for x
  proof -
    have "(of_char x :: u8) = of_nat (of_char x)" by (simp only: of_nat_of_char)
    moreover have "(of_char x :: nat) < 2 ^ LENGTH(8)" using nat_of_char_less_256 [of x] by simp
    ultimately show ?thesis by (simp add: unat_of_nat)
  qed
  ultimately have "(of_char c :: nat) = of_char d" by simp
  then show "c = d" by (simp only: of_char_eq_iff)
qed

lemma as_bytes_inj [simp]: "as_bytes s = as_bytes t \<longleftrightarrow> s = t"
  using of_char_u8_inj by (simp add: as_bytes_def inj_map_eq_map)

fun doc_get :: "document \<Rightarrow> string \<Rightarrow> bson option" where
  "doc_get [] k = None"
| "doc_get ((k', v) # d) k = (if k' = k then Some v else doc_get d k)"

section \<open>Doubles\<close>

definition f64_sign :: "f64 \<Rightarrow> bool" where
  "f64_sign b = bit b 63"

definition f64_biased :: "f64 \<Rightarrow> nat" where
  "f64_biased b = unat b div 2 ^ 52 mod 2 ^ 11"

definition f64_fraction :: "f64 \<Rightarrow> nat" where
  "f64_fraction b = unat b mod 2 ^ 52"

definition f64_is_nan :: "f64 \<Rightarrow> bool" where
  "f64_is_nan b \<longleftrightarrow> f64_biased b = 2047 \<and> f64_fraction b \<noteq> 0"

definition f64_is_inf :: "f64 \<Rightarrow> bool" where
  "f64_is_inf b \<longleftrightarrow> f64_biased b = 2047 \<and> f64_fraction b = 0"

text \<open>The absolute value of a finite double, counted in units of \<open>2\<^sup>-\<^sup>1\<^sup>0\<^sup>7\<^sup>4\<close>.\<close>

definition f64_abs_units :: "f64 \<Rightarrow> nat" where
  "f64_abs_units b = (if f64_biased b = 0 then f64_fraction b
     else (f64_fraction b + 2 ^ 52) * 2 ^ (f64_biased b - 1))"

definition f64_is_zero :: "f64 \<Rightarrow> bool" where
  "f64_is_zero b \<longleftrightarrow> f64_biased b = 0 \<and> f64_fraction b = 0"

definition f64_nan :: f64 where "f64_nan = 0x7FF8000000000000"
definition f64_infinity :: f64 where "f64_infinity = 0x7FF0000000000000"
definition f64_neg_infinity :: f64 where "f64_neg_infinity = 0xFFF0000000000000"

text \<open>\<open>abs.trunc() as u64\<close> (a saturating cast) and \<open>(abs.fract() * u64::MAX as f64) as u64\<close>.
  \<open>u64::MAX as f64\<close> is \<open>2\<^sup>6\<^sup>4\<close>, and a fraction scaled by a power of two is exact, so the
  cast is the only rounding.\<close>

definition f64_trunc_u64 :: "f64 \<Rightarrow> u64" where
  "f64_trunc_u64 b = of_nat (min (f64_abs_units b div 2 ^ 1074) (2 ^ 64 - 1))"

definition f64_fract_u64 :: "f64 \<Rightarrow> u64" where
  "f64_fract_u64 b = of_nat (f64_abs_units b mod 2 ^ 1074 div 2 ^ 1010)"

lemma f64_is_zero_units: "f64_abs_units b = 0 \<longleftrightarrow> f64_is_zero b"
  by (simp add: f64_abs_units_def f64_is_zero_def)

section \<open>Decimal text to double\<close>

text \<open>\<open>str::parse::<f64>\<close> of the standard library: the decimal grammar, and the nearest
  double, ties to even.\<close>

definition is_digit :: "char \<Rightarrow> bool" where
  "is_digit c \<longleftrightarrow> c \<in> set ''0123456789''"

definition digits_value :: "string \<Rightarrow> nat" where
  "digits_value ds = foldl (\<lambda>n c. 10 * n + (of_char c - 48)) 0 ds"

definition split_sign :: "string \<Rightarrow> bool \<times> string" where
  "split_sign s = (case s of c # r \<Rightarrow> if c = CHR ''-'' then (True, r) else if c = CHR ''+'' then (False, r) else (False, s)
     | [] \<Rightarrow> (False, s))"

definition parse_exponent :: "string \<Rightarrow> int option" where
  "parse_exponent s = (case s of [] \<Rightarrow> Some 0
     | c # r \<Rightarrow> (let (neg, ds) = split_sign r in
         if (c = CHR ''e'' \<or> c = CHR ''E'') \<and> ds \<noteq> [] \<and> list_all is_digit ds
         then Some (if neg then - int (digits_value ds) else int (digits_value ds)) else None))"

text \<open>A positive fraction \<open>p / q\<close> is \<open>m \<cdot> 2\<^sup>e\<close> with \<open>m\<close> of 53 bits, fewer only at the smallest
  exponent; the pattern of a double is \<open>(e + 1074) \<cdot> 2\<^sup>5\<^sup>2 + m\<close>, a rounding carry included.\<close>

definition round_to_f64 :: "nat \<Rightarrow> nat \<Rightarrow> nat" where
  "round_to_f64 p q = (if p = 0 then 0 else
     let k = int (floorlog 2 p) - int (floorlog 2 q);
         top = (if (if k \<ge> 0 then q * 2 ^ nat k \<le> p else q \<le> p * 2 ^ nat (- k)) then k else k - 1);
         e = max (- 1074) (top - 52);
         n = (if e \<ge> 0 then p else p * 2 ^ nat (- e));
         d = (if e \<ge> 0 then q * 2 ^ nat e else q);
         m = n div d;
         r = n mod d;
         m' = (if 2 * r > d \<or> (2 * r = d \<and> odd m) then m + 1 else m)
     in min (nat (e + 1074) * 2 ^ 52 + m') (2047 * 2 ^ 52))"

definition parse_f64 :: "string \<Rightarrow> f64 option" where
  "parse_f64 s = (let (neg, body) = split_sign s;
       ip = takeWhile is_digit body; r1 = dropWhile is_digit body;
       frac = (case r1 of c # r \<Rightarrow> if c = CHR ''.'' then takeWhile is_digit r else [] | [] \<Rightarrow> []);
       r2 = (case r1 of c # r \<Rightarrow> if c = CHR ''.'' then dropWhile is_digit r else r1 | [] \<Rightarrow> []);
       n = digits_value (ip @ frac);
       withsign = (\<lambda>b. if neg then set_bit 63 b else b) in
     if ip = [] \<and> frac = [] then
       (let low = map (\<lambda>c. if CHR ''A'' \<le> c \<and> c \<le> CHR ''Z'' then char_of (of_char c + (32 :: nat)) else c) body in
        if low = ''inf'' \<or> low = ''infinity'' then Some (withsign f64_infinity)
        else if low = ''nan'' then Some (withsign f64_nan) else None)
     else case parse_exponent r2 of
       None \<Rightarrow> None
     | Some ex \<Rightarrow> let sc = ex - int (length frac) in
         Some (withsign (of_nat (if sc \<ge> 0 then round_to_f64 (n * 10 ^ nat sc) 1
                                 else round_to_f64 n (10 ^ nat (- sc))))))"

end
