(* ===== verification/Key_Encoding.thy ===== *)
theory Key_Encoding
  imports Bson
begin

text \<open>
  The index-key encoding of \<open>keys/mod.rs\<close>: one function per encoder, each returning the
  bytes the Rust function appends to its buffer. The reference is \<open>bson_compare\<close>, the
  type order of the module's header with numbers compared by value, strings byte by
  byte, documents and arrays lexicographically. The central relation is \<open>free_cmp\<close>:
  two byte strings compare at a position inside both, so neither is a proper prefix
  of the other and whatever follows them does not matter.
\<close>

unbundle bit_operations_syntax

section \<open>Encoders\<close>

definition TYPE_MIN_KEY :: u8 where "TYPE_MIN_KEY = 0x00"
definition TYPE_NULL :: u8 where "TYPE_NULL = 0x05"
definition TYPE_NUMBER :: u8 where "TYPE_NUMBER = 0x10"
definition TYPE_SYMBOL :: u8 where "TYPE_SYMBOL = 0x15"
definition TYPE_STRING :: u8 where "TYPE_STRING = 0x20"
definition TYPE_OBJECT :: u8 where "TYPE_OBJECT = 0x30"
definition TYPE_ARRAY :: u8 where "TYPE_ARRAY = 0x40"
definition TYPE_BIN_DATA :: u8 where "TYPE_BIN_DATA = 0x50"
definition TYPE_OBJECT_ID :: u8 where "TYPE_OBJECT_ID = 0x60"
definition TYPE_BOOLEAN :: u8 where "TYPE_BOOLEAN = 0x70"
definition TYPE_DATE :: u8 where "TYPE_DATE = 0x80"
definition TYPE_TIMESTAMP :: u8 where "TYPE_TIMESTAMP = 0x85"
definition TYPE_REGEXP :: u8 where "TYPE_REGEXP = 0x90"
definition TYPE_MAX_KEY :: u8 where "TYPE_MAX_KEY = 0xFF"

definition NUM_NAN :: u8 where "NUM_NAN = 0x00"
definition NUM_NEG :: u8 where "NUM_NEG = 0x40"
definition NUM_ZERO :: u8 where "NUM_ZERO = 0x80"
definition NUM_POS :: u8 where "NUM_POS = 0xC0"

definition COMPOUND_SEP :: u8 where "COMPOUND_SEP = 0x01"

lemmas type_bytes = TYPE_MIN_KEY_def TYPE_NULL_def TYPE_NUMBER_def TYPE_SYMBOL_def TYPE_STRING_def
  TYPE_OBJECT_def TYPE_ARRAY_def TYPE_BIN_DATA_def TYPE_OBJECT_ID_def TYPE_BOOLEAN_def TYPE_DATE_def
  TYPE_TIMESTAMP_def TYPE_REGEXP_def TYPE_MAX_KEY_def

lemmas num_bytes = NUM_NAN_def NUM_NEG_def NUM_ZERO_def NUM_POS_def

definition encode_f64 :: "f64 \<Rightarrow> bytes" where
  "encode_f64 v =
    (if f64_is_nan v then NUM_NAN # replicate 16 0
     else if f64_is_zero v then NUM_ZERO # replicate 16 0
     else if f64_is_inf v \<and> \<not> f64_sign v then NUM_POS # replicate 16 0xFF
     else if f64_is_inf v \<and> f64_sign v then NUM_NEG # replicate 16 0x00
     else let int_part = f64_trunc_u64 v; frac_part = f64_fract_u64 v in
       if f64_sign v then NUM_NEG # u64_to_be_bytes (NOT int_part) @ u64_to_be_bytes (NOT frac_part)
       else NUM_POS # u64_to_be_bytes int_part @ u64_to_be_bytes frac_part)"

definition encode_i64 :: "i64 \<Rightarrow> bytes" where
  "encode_i64 v =
    (if v = 0 then NUM_ZERO # replicate 16 0
     else if v <s 0 then NUM_NEG # u64_to_be_bytes (NOT (- v)) @ replicate 8 0xFF
     else NUM_POS # u64_to_be_bytes v @ replicate 8 0x00)"

definition decimal_as_f64 :: "string \<Rightarrow> f64" where
  "decimal_as_f64 s =
    (if s = ''Inf'' \<or> s = ''Infinity'' then f64_infinity
     else if s = ''-Inf'' \<or> s = ''-Infinity'' then f64_neg_infinity
     else if s = ''NaN'' then f64_nan
     else case parse_f64 s of Some f \<Rightarrow> f | None \<Rightarrow> f64_nan)"

definition encode_decimal128 :: "string \<Rightarrow> bytes" where
  "encode_decimal128 s = encode_f64 (decimal_as_f64 s)"

fun escape_bytes :: "bytes \<Rightarrow> bytes" where
  "escape_bytes [] = []"
| "escape_bytes (b # bs) =
    (if b = 0 then 1 # 1 # escape_bytes bs
     else if b = 1 then 1 # 2 # escape_bytes bs
     else b # escape_bytes bs)"

definition encode_string_bytes :: "bytes \<Rightarrow> bytes" where
  "encode_string_bytes bs = escape_bytes bs @ [0]"

definition encode_binary :: "u8 \<Rightarrow> bytes \<Rightarrow> bytes" where
  "encode_binary subtype bs = subtype # u32_to_be_bytes (of_nat (length bs)) @ bs"

definition encode_signed_i64_be :: "i64 \<Rightarrow> bytes" where
  "encode_signed_i64_be v = u64_to_be_bytes (v XOR 0x8000000000000000)"

fun encode_into :: "bson \<Rightarrow> bytes"
  and encode_document :: "document \<Rightarrow> bytes"
  and encode_array :: "bson list \<Rightarrow> bytes" where
  "encode_into MinKey = [TYPE_MIN_KEY]"
| "encode_into Null = [TYPE_NULL]"
| "encode_into Undefined = [TYPE_NULL]"
| "encode_into (Double v) = TYPE_NUMBER # encode_f64 v"
| "encode_into (Int32 v) = TYPE_NUMBER # encode_i64 (scast v)"
| "encode_into (Int64 v) = TYPE_NUMBER # encode_i64 v"
| "encode_into (Decimal128 v) = TYPE_NUMBER # encode_decimal128 v"
| "encode_into (Symbol s) = TYPE_SYMBOL # encode_string_bytes (as_bytes s)"
| "encode_into (String s) = TYPE_STRING # encode_string_bytes (as_bytes s)"
| "encode_into (Document doc) = TYPE_OBJECT # encode_document doc"
| "encode_into (Array arr) = TYPE_ARRAY # encode_array arr"
| "encode_into (Binary st bs) = TYPE_BIN_DATA # encode_binary st bs"
| "encode_into (ObjectId oid) = TYPE_OBJECT_ID # oid"
| "encode_into (Boolean b) = [TYPE_BOOLEAN, of_bool b]"
| "encode_into (DateTime dt) = TYPE_DATE # encode_signed_i64_be dt"
| "encode_into (Timestamp t i) = TYPE_TIMESTAMP # u32_to_be_bytes t @ u32_to_be_bytes i"
| "encode_into (RegularExpression p opts) =
     TYPE_REGEXP # encode_string_bytes (as_bytes p) @ encode_string_bytes (as_bytes opts)"
| "encode_into MaxKey = [TYPE_MAX_KEY]"
| "encode_into (JavaScriptCode s) = TYPE_STRING # encode_string_bytes (as_bytes s)"
| "encode_into (JavaScriptCodeWithScope s _) = TYPE_STRING # encode_string_bytes (as_bytes s)"
| "encode_into (DbPointer repr) = TYPE_REGEXP # encode_string_bytes (as_bytes repr)"
| "encode_document [] = [0]"
| "encode_document ((key, val) # doc) =
     encode_string_bytes (as_bytes key) @ encode_into val @ encode_document doc"
| "encode_array [] = [0]"
| "encode_array (val # arr) = encode_into val @ 0 # encode_array arr"

definition encode_key :: "bson \<Rightarrow> bytes" where
  "encode_key v = encode_into v"

definition encode_field :: "bson \<times> bool \<Rightarrow> bytes" where
  "encode_field f = (if snd f then encode_into (fst f) else map NOT (encode_into (fst f)))"

fun encode_compound_key :: "(bson \<times> bool) list \<Rightarrow> bytes" where
  "encode_compound_key [] = []"
| "encode_compound_key [f] = encode_field f"
| "encode_compound_key (f # g # fs) = encode_field f @ COMPOUND_SEP # encode_compound_key (g # fs)"

section \<open>The reference order\<close>

datatype ordering = Less | Equal | Greater

definition cmp_of :: "'a::linorder \<Rightarrow> 'a \<Rightarrow> ordering" where
  "cmp_of a b = (if a < b then Less else if a = b then Equal else Greater)"

fun cmp_then :: "ordering \<Rightarrow> ordering \<Rightarrow> ordering" where
  "cmp_then Equal r = r"
| "cmp_then r _ = r"

fun cmp_rev :: "ordering \<Rightarrow> ordering" where
  "cmp_rev Less = Greater"
| "cmp_rev Equal = Equal"
| "cmp_rev Greater = Less"

text \<open>A number, in units of \<open>2\<^sup>-\<^sup>1\<^sup>0\<^sup>7\<^sup>4\<close>, which all four numeric types are multiples of.\<close>

datatype numval = NotANumber | NegInfinity | Finite int | PosInfinity

definition numval_f64 :: "f64 \<Rightarrow> numval" where
  "numval_f64 v = (if f64_is_nan v then NotANumber
     else if f64_is_inf v then (if f64_sign v then NegInfinity else PosInfinity)
     else Finite (if f64_sign v then - int (f64_abs_units v) else int (f64_abs_units v)))"

definition numval_i64 :: "i64 \<Rightarrow> numval" where
  "numval_i64 v = Finite (sint v * 2 ^ 1074)"

fun numval_cmp :: "numval \<Rightarrow> numval \<Rightarrow> ordering" where
  "numval_cmp (Finite a) (Finite b) = cmp_of a b"
| "numval_cmp NotANumber b = (if b = NotANumber then Equal else Less)"
| "numval_cmp a NotANumber = Greater"
| "numval_cmp NegInfinity b = (if b = NegInfinity then Equal else Less)"
| "numval_cmp a NegInfinity = Greater"
| "numval_cmp PosInfinity b = (if b = PosInfinity then Equal else Greater)"
| "numval_cmp a PosInfinity = Less"

fun numeric :: "bson \<Rightarrow> numval option" where
  "numeric (Double v) = Some (numval_f64 v)"
| "numeric (Int32 v) = Some (numval_i64 (scast v))"
| "numeric (Int64 v) = Some (numval_i64 v)"
| "numeric (Decimal128 s) = Some (numval_f64 (decimal_as_f64 s))"
| "numeric _ = None"

fun textual :: "bson \<Rightarrow> string option" where
  "textual (String s) = Some s"
| "textual (JavaScriptCode s) = Some s"
| "textual (JavaScriptCodeWithScope s _) = Some s"
| "textual _ = None"

fun type_rank :: "bson \<Rightarrow> nat" where
  "type_rank MinKey = 0"
| "type_rank Null = 1" | "type_rank Undefined = 1"
| "type_rank (Double _) = 2" | "type_rank (Int32 _) = 2" | "type_rank (Int64 _) = 2" | "type_rank (Decimal128 _) = 2"
| "type_rank (Symbol _) = 3"
| "type_rank (String _) = 4" | "type_rank (JavaScriptCode _) = 4" | "type_rank (JavaScriptCodeWithScope _ _) = 4"
| "type_rank (Document _) = 5"
| "type_rank (Array _) = 6"
| "type_rank (Binary _ _) = 7"
| "type_rank (ObjectId _) = 8"
| "type_rank (Boolean _) = 9"
| "type_rank (DateTime _) = 10"
| "type_rank (Timestamp _ _) = 11"
| "type_rank (RegularExpression _ _) = 12" | "type_rank (DbPointer _) = 12"
| "type_rank MaxKey = 13"

text \<open>Two scalars of one type.\<close>

definition str_cmp :: "string \<Rightarrow> string \<Rightarrow> ordering" where
  "str_cmp s t = cmp_of (as_bytes s) (as_bytes t)"

definition payload_cmp :: "bson \<Rightarrow> bson \<Rightarrow> ordering" where
  "payload_cmp a b = (case a of
     Symbol s \<Rightarrow> (case b of Symbol t \<Rightarrow> str_cmp s t | _ \<Rightarrow> Equal)
   | Binary st bs \<Rightarrow> (case b of Binary st' bs' \<Rightarrow>
       cmp_then (cmp_of st st') (cmp_then (cmp_of (length bs) (length bs')) (cmp_of bs bs')) | _ \<Rightarrow> Equal)
   | ObjectId x \<Rightarrow> (case b of ObjectId y \<Rightarrow> cmp_of x y | _ \<Rightarrow> Equal)
   | Boolean x \<Rightarrow> (case b of Boolean y \<Rightarrow> cmp_of x y | _ \<Rightarrow> Equal)
   | DateTime x \<Rightarrow> (case b of DateTime y \<Rightarrow> cmp_of (sint x) (sint y) | _ \<Rightarrow> Equal)
   | Timestamp t i \<Rightarrow> (case b of Timestamp t' i' \<Rightarrow> cmp_then (cmp_of t t') (cmp_of i i') | _ \<Rightarrow> Equal)
   | RegularExpression p q \<Rightarrow> (case b of RegularExpression p' q' \<Rightarrow>
       cmp_then (str_cmp p p') (str_cmp q q') | _ \<Rightarrow> Equal)
   | _ \<Rightarrow> Equal)"

definition scalar_cmp :: "bson \<Rightarrow> bson \<Rightarrow> ordering" where
  "scalar_cmp a b = (case (numeric a, numeric b) of (Some m, Some n) \<Rightarrow> numval_cmp m n
     | _ \<Rightarrow> (case (textual a, textual b) of (Some s, Some t) \<Rightarrow> str_cmp s t
     | _ \<Rightarrow> payload_cmp a b))"

fun bson_compare :: "bson \<Rightarrow> bson \<Rightarrow> ordering"
  and fields_compare :: "document \<Rightarrow> document \<Rightarrow> ordering"
  and elems_compare :: "bson list \<Rightarrow> bson list \<Rightarrow> ordering" where
  "bson_compare (Document d) b = (case b of Document e \<Rightarrow> fields_compare d e
     | _ \<Rightarrow> cmp_of (type_rank (Document d)) (type_rank b))"
| "bson_compare (Array xs) b = (case b of Array ys \<Rightarrow> elems_compare xs ys
     | _ \<Rightarrow> cmp_of (type_rank (Array xs)) (type_rank b))"
| "bson_compare a b = cmp_then (cmp_of (type_rank a) (type_rank b)) (scalar_cmp a b)"
| "fields_compare [] e = (if e = [] then Equal else Less)"
| "fields_compare ((k, v) # d) e = (case e of [] \<Rightarrow> Greater
     | (k', v') # e' \<Rightarrow> cmp_then (str_cmp k k') (cmp_then (bson_compare v v') (fields_compare d e')))"
| "elems_compare [] ys = (if ys = [] then Equal else Less)"
| "elems_compare (x # xs) ys = (case ys of [] \<Rightarrow> Greater
     | y # ys' \<Rightarrow> cmp_then (bson_compare x y) (elems_compare xs ys'))"

text \<open>The values whose encoding is exact. A double must be a multiple of \<open>2\<^sup>-\<^sup>6\<^sup>4\<close> below \<open>2\<^sup>6\<^sup>4\<close>
  (or not finite); an array must not hold \<open>MinKey\<close> and a document no empty field name,
  whose encodings start with the terminator byte; a \<open>DbPointer\<close> shares the type byte of
  regular expressions.\<close>

definition units_exact :: "nat \<Rightarrow> bool" where
  "units_exact u \<longleftrightarrow> 2 ^ 1010 dvd u \<and> u div 2 ^ 1010 < 2 ^ 128 - 1"

definition f64_key_exact :: "f64 \<Rightarrow> bool" where
  "f64_key_exact v \<longleftrightarrow> f64_is_nan v \<or> f64_is_inf v \<or> units_exact (f64_abs_units v)"

fun key_safe :: "bson \<Rightarrow> bool"
  and fields_safe :: "document \<Rightarrow> bool"
  and elems_safe :: "bson list \<Rightarrow> bool" where
  "key_safe (Document d) = fields_safe d"
| "key_safe (Array xs) = elems_safe xs"
| "key_safe (Double v) = f64_key_exact v"
| "key_safe (Decimal128 s) = f64_key_exact (decimal_as_f64 s)"
| "key_safe (Binary _ bs) = (length bs < 2 ^ 32)"
| "key_safe (ObjectId oid) = (length oid = 12)"
| "key_safe (DbPointer _) = False"
| "key_safe _ = True"
| "fields_safe [] = True"
| "fields_safe ((k, v) # d) = (k \<noteq> [] \<and> key_safe v \<and> fields_safe d)"
| "elems_safe [] = True"
| "elems_safe (x # xs) = (x \<noteq> MinKey \<and> key_safe x \<and> elems_safe xs)"

section \<open>Comparison decided inside both strings\<close>

fun free_cmp :: "'a::linorder list \<Rightarrow> 'a list \<Rightarrow> ordering option" where
  "free_cmp [] [] = Some Equal"
| "free_cmp (a # x) (b # y) = (if a < b then Some Less else if a = b then free_cmp x y else Some Greater)"
| "free_cmp _ _ = None"

lemma cmp_of_simps [simp]:
  "cmp_of a b = Less \<longleftrightarrow> a < b" "cmp_of a b = Equal \<longleftrightarrow> a = b" "cmp_of a b = Greater \<longleftrightarrow> b < a" "cmp_of a a = Equal"
  by (auto simp: cmp_of_def)

lemma cmp_then_Equal [simp]: "cmp_then r Equal = r"
  by (cases r) simp_all

lemma cmp_then_assoc: "cmp_then (cmp_then p q) r = cmp_then p (cmp_then q r)"
  by (cases p) simp_all

lemma free_cmp_append:
  "free_cmp x y = Some r \<Longrightarrow> free_cmp (x @ s) (y @ t) = (if r = Equal then free_cmp s t else Some r)"
  by (induction x y rule: free_cmp.induct) (auto split: if_splits)

lemma free_cmp_append_then:
  "free_cmp x y = Some p \<Longrightarrow> free_cmp s t = Some q \<Longrightarrow> free_cmp (x @ s) (y @ t) = Some (cmp_then p q)"
  by (cases p) (simp_all add: free_cmp_append)

lemma free_cmp_same [simp]: "free_cmp (x @ s) (x @ t) = free_cmp s t"
  by (induction x) simp_all

lemma free_cmp_Equal: "free_cmp x y = Some Equal \<longleftrightarrow> x = y"
  by (induction x y rule: free_cmp.induct) auto

lemma free_cmp_lex: "free_cmp x y = Some r \<Longrightarrow> r = cmp_of x y"
  by (induction x y rule: free_cmp.induct) (auto simp: cmp_of_def split: if_splits)

lemma free_cmp_eq_length: "length x = length y \<Longrightarrow> free_cmp x y = Some (cmp_of x y)"
  by (induction x y rule: list_induct2) (auto simp: cmp_of_def)

lemma free_cmp_NOT:
  fixes x y :: "'a::len word list"
  shows "free_cmp (map NOT x) (map NOT y) = map_option cmp_rev (free_cmp x y)"
  by (induction x y rule: free_cmp.induct) (auto simp: not_word_less_iff)

section \<open>Numbers\<close>

text \<open>The encoding as a function of the number: class byte, then the magnitude in units of
  \<open>2\<^sup>-\<^sup>6\<^sup>4\<close> as sixteen big-endian bytes, complemented for negatives.\<close>

fun num_encode :: "numval \<Rightarrow> bytes" where
  "num_encode NotANumber = NUM_NAN # be_of_nat 16 0"
| "num_encode NegInfinity = NUM_NEG # be_of_nat 16 0"
| "num_encode PosInfinity = NUM_POS # be_of_nat 16 (2 ^ 128 - 1)"
| "num_encode (Finite z) =
     (if z = 0 then NUM_ZERO # be_of_nat 16 0
      else if z < 0 then NUM_NEG # be_of_nat 16 (2 ^ 128 - 1 - nat (- z) div 2 ^ 1010)
      else NUM_POS # be_of_nat 16 (nat z div 2 ^ 1010))"

fun num_exact :: "numval \<Rightarrow> bool" where
  "num_exact (Finite z) = units_exact (nat \<bar>z\<bar>)"
| "num_exact _ = True"

lemma le_of_nat_add: "le_of_nat (m + n) x = le_of_nat m x @ le_of_nat n (x div 256 ^ m)"
  by (induction m arbitrary: x) (simp_all add: div_mult2_eq)

lemma le_of_nat_mod: "le_of_nat n (x mod 256 ^ n) = le_of_nat n x"
proof (induction n arbitrary: x)
  case (Suc n)
  have "x mod 256 ^ Suc n div 256 = x div 256 mod 256 ^ n"
    by (simp add: mod_mult2_eq div_mult2_eq)
  moreover have "(word_of_nat (x mod 256 ^ Suc n) :: u8) = word_of_nat x"
    by (rule word_of_nat_eq_iff [THEN iffD2]) (simp add: take_bit_eq_mod mod_mod_cancel)
  ultimately show ?case using Suc by simp
qed simp

lemma be_of_nat_pair:
  "h < 256 ^ 8 \<Longrightarrow> l < 256 ^ 8 \<Longrightarrow> be_of_nat 16 (h * 256 ^ 8 + l) = be_of_nat 8 h @ be_of_nat 8 l"
  using le_of_nat_add [of 8 8 "h * 256 ^ 8 + l"] le_of_nat_mod [of 8 "h * 256 ^ 8 + l"]
  by (simp add: be_of_nat_def)

lemma free_cmp_be:
  "x < 256 ^ n \<Longrightarrow> y < 256 ^ n \<Longrightarrow> free_cmp (be_of_nat n x) (be_of_nat n y) = Some (cmp_of x y)"
  using be_of_nat_less_iff [of x n y] be_of_nat_less_iff [of y n x] nat_of_be_inverse [of x n] nat_of_be_inverse [of y n]
  by (auto simp: free_cmp_eq_length cmp_of_def)

text \<open>Class byte and magnitude.\<close>

fun num_class :: "numval \<Rightarrow> u8" where
  "num_class NotANumber = NUM_NAN"
| "num_class NegInfinity = NUM_NEG"
| "num_class PosInfinity = NUM_POS"
| "num_class (Finite z) = (if z = 0 then NUM_ZERO else if z < 0 then NUM_NEG else NUM_POS)"

fun num_mag :: "numval \<Rightarrow> nat" where
  "num_mag NotANumber = 0"
| "num_mag NegInfinity = 0"
| "num_mag PosInfinity = 2 ^ 128 - 1"
| "num_mag (Finite z) = (if z = 0 then 0 else if z < 0 then 2 ^ 128 - 1 - nat (- z) div 2 ^ 1010 else nat z div 2 ^ 1010)"

lemma num_encode_parts: "num_encode n = num_class n # be_of_nat 16 (num_mag n)"
  by (cases n) simp_all

lemma units_exactE:
  assumes "units_exact u"
  obtains q where "u = q * 2 ^ 1010" "u div 2 ^ 1010 = q" "q < 2 ^ 128 - 1"
proof -
  obtain q where q: "u = 2 ^ 1010 * q" using assms by (auto simp: units_exact_def simp del: power_numeral elim: dvdE)
  have "u div 2 ^ 1010 = q" unfolding q by (rule nonzero_mult_div_cancel_left) simp
  with q that [of q] assms show ?thesis by (simp only: units_exact_def mult.commute)
qed

lemma num_mag_less: "num_exact n \<Longrightarrow> num_mag n < 2 ^ 128"
proof (cases n)
  case (Finite z)
  assume "num_exact n"
  then have "nat \<bar>z\<bar> div 2 ^ 1010 < 2 ^ 128 - 1" using Finite by (simp only: num_exact.simps units_exact_def)
  then have "nat z div 2 ^ 1010 < 2 ^ 128" if "z > 0" using that by simp
  then show ?thesis unfolding Finite by (simp del: power_numeral)
qed simp_all

lemma units_exact_cmp:
  assumes "units_exact u" "units_exact v"
  shows "cmp_of (u div 2 ^ 1010) (v div 2 ^ 1010) = cmp_of u v"
    and "cmp_of (2 ^ 128 - 1 - u div 2 ^ 1010) (2 ^ 128 - 1 - v div 2 ^ 1010) = cmp_of v u"
proof -
  obtain p where p: "u = p * 2 ^ 1010" "u div 2 ^ 1010 = p" "p < 2 ^ 128 - 1" using units_exactE [OF assms(1)] .
  obtain q where q: "v = q * 2 ^ 1010" "v div 2 ^ 1010 = q" "q < 2 ^ 128 - 1" using units_exactE [OF assms(2)] .
  have ar: "(m - x < m - y) = (y < x)" "(m - x = m - y) = (y = x)" if "x < m" "y < m" for m x y :: nat
    using that by linarith+
  show "cmp_of (u div 2 ^ 1010) (v div 2 ^ 1010) = cmp_of u v"
    unfolding p(2) q(2) unfolding p(1) q(1) by (simp add: cmp_of_def)
  show "cmp_of (2 ^ 128 - 1 - u div 2 ^ 1010) (2 ^ 128 - 1 - v div 2 ^ 1010) = cmp_of v u"
    unfolding p(2) q(2) unfolding p(1) q(1) unfolding cmp_of_def ar [OF p(3) q(3)] by simp
qed

lemma cmp_of_less: "x < y \<Longrightarrow> cmp_of x y = Less" "x < y \<Longrightarrow> cmp_of y x = Greater"
  by simp_all

lemma num_class_simps [simp]:
  "NUM_NAN < NUM_NEG" "NUM_NAN < NUM_ZERO" "NUM_NAN < NUM_POS" "NUM_NEG < NUM_ZERO" "NUM_NEG < NUM_POS" "NUM_ZERO < NUM_POS"
  by (simp_all add: num_bytes)

lemma finite_mag_bounds:
  assumes "units_exact (nat \<bar>z\<bar>)"
  shows "z < 0 \<Longrightarrow> 0 < num_mag (Finite z)" "z > 0 \<Longrightarrow> num_mag (Finite z) < 2 ^ 128 - 1"
proof -
  obtain q where "nat \<bar>z\<bar> div 2 ^ 1010 = q" "q < 2 ^ 128 - 1" using units_exactE [OF assms] by metis
  then show "z < 0 \<Longrightarrow> 0 < num_mag (Finite z)" "z > 0 \<Longrightarrow> num_mag (Finite z) < 2 ^ 128 - 1"
    by simp_all
qed

lemma num_finite_cmp:
  assumes "units_exact (nat \<bar>a\<bar>)" "units_exact (nat \<bar>b\<bar>)"
  shows "cmp_then (cmp_of (num_class (Finite a)) (num_class (Finite b)))
    (cmp_of (num_mag (Finite a)) (num_mag (Finite b))) = cmp_of a b"
proof -
  have cls: "num_class (Finite z) = (if z = 0 then NUM_ZERO else if z < 0 then NUM_NEG else NUM_POS)" for z by simp
  consider "a < 0 \<and> b < 0" | "a > 0 \<and> b > 0" | "a = b" | "a < b \<and> num_class (Finite a) < num_class (Finite b)"
    | "b < a \<and> num_class (Finite b) < num_class (Finite a)"
    unfolding cls by (cases "a = 0"; cases "b = 0"; cases "a < 0"; cases "b < 0") auto
  then show ?thesis
  proof cases
    case 1
    have "cmp_of (nat \<bar>b\<bar>) (nat \<bar>a\<bar>) = cmp_of a b" using 1 unfolding cmp_of_def by auto
    moreover have "num_mag (Finite z) = 2 ^ 128 - 1 - nat \<bar>z\<bar> div 2 ^ 1010" if "z < 0" for z using that by simp
    ultimately show ?thesis using 1 units_exact_cmp(2) [OF assms] by (simp only: cls) simp
  next
    case 2
    have "cmp_of (nat \<bar>a\<bar>) (nat \<bar>b\<bar>) = cmp_of a b" using 2 unfolding cmp_of_def by auto
    moreover have "num_mag (Finite z) = nat \<bar>z\<bar> div 2 ^ 1010" if "z > 0" for z using that by simp
    ultimately show ?thesis using 2 units_exact_cmp(1) [OF assms] by (simp only: cls) simp
  qed (simp_all add: cmp_of_less del: num_mag.simps num_class.simps)
qed

lemma num_finite_infinite:
  assumes "units_exact (nat \<bar>z\<bar>)"
  shows "cmp_then (cmp_of (num_class (Finite z)) NUM_NEG) (cmp_of (num_mag (Finite z)) 0) = Greater"
    "cmp_then (cmp_of NUM_NEG (num_class (Finite z))) (cmp_of 0 (num_mag (Finite z))) = Less"
    "cmp_then (cmp_of (num_class (Finite z)) NUM_POS) (cmp_of (num_mag (Finite z)) (2 ^ 128 - 1)) = Less"
    "cmp_then (cmp_of NUM_POS (num_class (Finite z))) (cmp_of (2 ^ 128 - 1) (num_mag (Finite z))) = Greater"
proof -
  consider "z < 0" | "z = 0" | "z > 0" by linarith
  then have "(num_class (Finite z) = NUM_NEG \<and> 0 < num_mag (Finite z)) \<or> num_class (Finite z) = NUM_ZERO \<or>
    (num_class (Finite z) = NUM_POS \<and> num_mag (Finite z) < 2 ^ 128 - 1)"
    by cases (use finite_mag_bounds [OF assms] in \<open>simp_all del: num_mag.simps\<close>)
  then show "cmp_then (cmp_of (num_class (Finite z)) NUM_NEG) (cmp_of (num_mag (Finite z)) 0) = Greater"
    "cmp_then (cmp_of NUM_NEG (num_class (Finite z))) (cmp_of 0 (num_mag (Finite z))) = Less"
    "cmp_then (cmp_of (num_class (Finite z)) NUM_POS) (cmp_of (num_mag (Finite z)) (2 ^ 128 - 1)) = Less"
    "cmp_then (cmp_of NUM_POS (num_class (Finite z))) (cmp_of (2 ^ 128 - 1) (num_mag (Finite z))) = Greater"
    by (auto simp: cmp_of_less simp del: num_mag.simps num_class.simps power_numeral)
qed

lemma num_cmp_parts:
  assumes "num_exact m" "num_exact n"
  shows "cmp_then (cmp_of (num_class m) (num_class n)) (cmp_of (num_mag m) (num_mag n)) = numval_cmp m n"
proof (cases m; cases n)
  fix a b assume "m = Finite a" "n = Finite b"
  then show ?thesis using num_finite_cmp [of a b] assms by simp
next
  fix a assume "m = Finite a" "n = NotANumber"
  then show ?thesis by (simp add: cmp_of_def num_bytes)
next
  fix a assume "m = Finite a" "n = NegInfinity"
  then show ?thesis using assms num_finite_infinite(1) [of a] by simp
next
  fix a assume "m = Finite a" "n = PosInfinity"
  then show ?thesis using assms num_finite_infinite(3) [of a] by simp
next
  fix b assume "m = NegInfinity" "n = Finite b"
  then show ?thesis using assms num_finite_infinite(2) [of b] by simp
next
  fix b assume "m = PosInfinity" "n = Finite b"
  then show ?thesis using assms num_finite_infinite(4) [of b] by simp
qed (simp_all add: cmp_of_def num_bytes)

lemma num_encode_order:
  assumes "num_exact m" "num_exact n"
  shows "free_cmp (num_encode m) (num_encode n) = Some (numval_cmp m n)"
proof -
  have "free_cmp (be_of_nat 16 (num_mag m)) (be_of_nat 16 (num_mag n)) = Some (cmp_of (num_mag m) (num_mag n))"
    using num_mag_less [OF assms(1)] num_mag_less [OF assms(2)] by (intro free_cmp_be) simp_all
  then show ?thesis using num_cmp_parts [OF assms]
    by (auto simp: num_encode_parts cmp_of_def split: if_splits)
qed

lemma be_of_nat_zero: "be_of_nat n 0 = replicate n 0"
proof -
  have "le_of_nat n 0 = replicate n 0" by (induction n) simp_all
  then show ?thesis by (simp add: be_of_nat_def)
qed

lemma be_of_nat_ones: "be_of_nat n (256 ^ n - 1) = replicate n (- 1)"
proof -
  have "le_of_nat n (256 ^ n - 1) = replicate n (- 1)"
  proof (induction n)
    case (Suc n)
    have e: "256 ^ Suc n - 1 = 256 * (256 ^ n - 1) + (255 :: nat)"
      by (simp add: right_diff_distrib') 
    have "(256 ^ Suc n - 1) div 256 = (256 ^ n - 1 :: nat)" unfolding e by simp
    moreover have "(word_of_nat (256 ^ Suc n - 1) :: u8) = - 1"
      unfolding e by (rule word_of_nat_eq_iff [of _ 255, THEN iffD2, THEN trans]) (simp_all add: take_bit_eq_mod mod_add_left_eq)
    ultimately show ?case using Suc by simp
  qed simp
  then show ?thesis by (simp add: be_of_nat_def)
qed

lemma digits_complement:
  fixes h l m :: nat
  assumes "h < m" "l < m"
  shows "m * m - 1 - (h * m + l) = (m - 1 - h) * m + (m - 1 - l)"
proof -
  obtain a where a: "m = h + a + 1" using assms(1) less_iff_Suc_add by auto
  obtain b where b: "m = l + b + 1" using assms(2) less_iff_Suc_add by auto
  have "m * m = (h + a + 1) * m" by (simp only: a [symmetric])
  then have "m * m = h * m + a * m + m" by (simp add: algebra_simps)
  moreover have "m - 1 - h = a" "m - 1 - l = b" using a b by simp_all
  ultimately show ?thesis using b by simp
qed

lemma be_16_halves:
  assumes "q < 2 ^ 128"
  shows "be_of_nat 16 q = u64_to_be_bytes (of_nat (q div 2 ^ 64)) @ u64_to_be_bytes (of_nat (q mod 2 ^ 64))"
    and "be_of_nat 16 (2 ^ 128 - 1 - q) =
      u64_to_be_bytes (NOT (of_nat (q div 2 ^ 64))) @ u64_to_be_bytes (NOT (of_nat (q mod 2 ^ 64)))"
proof -
  let ?h = "q div 2 ^ 64" and ?l = "q mod 2 ^ 64"
  have h: "?h < 2 ^ 64" using assms by (simp add: less_mult_imp_div_less)
  have l: "?l < 2 ^ 64" by simp
  have q: "q = ?h * 256 ^ 8 + ?l" using div_mult_mod_eq [of q "2 ^ 64"] by simp
  have u: "unat (of_nat ?h :: u64) = ?h" "unat (of_nat ?l :: u64) = ?l"
    using h l by (simp_all add: unat_of_nat)
  show "be_of_nat 16 q = u64_to_be_bytes (of_nat ?h) @ u64_to_be_bytes (of_nat ?l)"
    unfolding u64_to_be_bytes_def u using be_of_nat_pair [of ?h ?l] h l q by simp
  have n: "unat (NOT (of_nat ?h :: u64)) = 2 ^ 64 - 1 - ?h" "unat (NOT (of_nat ?l :: u64)) = 2 ^ 64 - 1 - ?l"
    unfolding unat_not u by simp_all
  have "2 ^ 128 - 1 - q = (2 ^ 64 - 1 - ?h) * 256 ^ 8 + (2 ^ 64 - 1 - ?l)"
    using digits_complement [OF h l] q by simp
  then show "be_of_nat 16 (2 ^ 128 - 1 - q) =
      u64_to_be_bytes (NOT (of_nat ?h)) @ u64_to_be_bytes (NOT (of_nat ?l))"
    
    unfolding u64_to_be_bytes_def n by (simp only:) (rule be_of_nat_pair, simp_all)
qed

lemma units_halves:
  assumes "units_exact u"
  shows "u div 2 ^ 1010 div 2 ^ 64 = min (u div 2 ^ 1074) (2 ^ 64 - 1)" 
    and "u div 2 ^ 1010 mod 2 ^ 64 = u mod 2 ^ 1074 div 2 ^ 1010"
    and "u div 2 ^ 1010 < 2 ^ 128"
proof -
  obtain q where q: "u = q * 2 ^ 1010" "u div 2 ^ 1010 = q" "q < 2 ^ 128 - 1" using units_exactE [OF assms] .
  have e: "(2::nat) ^ 1074 = 2 ^ 1010 * 2 ^ 64" by (simp only: power_add [symmetric]) simp
  show "u div 2 ^ 1010 < 2 ^ 128" using q by simp
  then have "q div 2 ^ 64 < 2 ^ 64" unfolding q(2) by (simp add: less_mult_imp_div_less)
  moreover have "u div 2 ^ 1074 = q div 2 ^ 64" unfolding e div_mult2_eq q(2) ..
  ultimately show "u div 2 ^ 1010 div 2 ^ 64 = min (u div 2 ^ 1074) (2 ^ 64 - 1)"
    unfolding q(2) by (simp del: power_numeral)
  have "u mod 2 ^ 1074 div 2 ^ 1010 = q mod 2 ^ 64"
    
    unfolding e q(1) mult.commute [of q] mult_mod_right [symmetric] by (rule nonzero_mult_div_cancel_left) simp
  then show "u div 2 ^ 1010 mod 2 ^ 64 = u mod 2 ^ 1074 div 2 ^ 1010" unfolding q(2) by (rule sym)
qed

lemma num_exact_f64: "f64_key_exact v \<Longrightarrow> num_exact (numval_f64 v)"
  by (auto simp: f64_key_exact_def numval_f64_def)

lemma encode_f64_num:
  assumes "f64_key_exact v"
  shows "encode_f64 v = num_encode (numval_f64 v)"
proof -
  consider "f64_is_nan v" | "\<not> f64_is_nan v" "f64_is_inf v" | "\<not> f64_is_nan v" "\<not> f64_is_inf v" "f64_is_zero v"
    | "\<not> f64_is_nan v" "\<not> f64_is_inf v" "\<not> f64_is_zero v" by blast
  then show ?thesis
  proof cases
    case 4
    then have ex: "units_exact (f64_abs_units v)" using assms by (simp add: f64_key_exact_def)
    have pos: "0 < f64_abs_units v" using 4 f64_is_zero_units [of v] by simp
    note h = be_16_halves [OF units_halves(3) [OF ex]]
    show ?thesis
    proof (cases "f64_sign v")
      case True
      then have "numval_f64 v = Finite (- int (f64_abs_units v))" using 4 by (simp add: numval_f64_def)
      then have "num_encode (numval_f64 v) = NUM_NEG # be_of_nat 16 (2 ^ 128 - 1 - f64_abs_units v div 2 ^ 1010)"
        using pos by simp
      then show ?thesis using 4 True
        unfolding encode_f64_def h(2) units_halves [OF ex] f64_trunc_u64_def f64_fract_u64_def Let_def by simp
    next
      case False
      then have "numval_f64 v = Finite (int (f64_abs_units v))" using 4 by (simp add: numval_f64_def)
      then have "num_encode (numval_f64 v) = NUM_POS # be_of_nat 16 (f64_abs_units v div 2 ^ 1010)"
        using pos by simp
      then show ?thesis using 4 False
        unfolding encode_f64_def h(1) units_halves [OF ex] f64_trunc_u64_def f64_fract_u64_def Let_def by simp
    qed
  next
    case 2
    then show ?thesis using be_of_nat_ones [of 16]
      by (simp add: encode_f64_def numval_f64_def be_of_nat_zero f64_is_inf_def f64_is_zero_def)
  qed (simp_all add: encode_f64_def numval_f64_def be_of_nat_zero flip: f64_is_zero_units)
qed

lemma i64_units: "nat \<bar>sint (v :: i64) * 2 ^ 1074\<bar> = nat \<bar>sint v\<bar> * 2 ^ 64 * 2 ^ 1010"
proof -
  have e: "(2::int) ^ 1074 = 2 ^ 64 * 2 ^ 1010" by (simp only: power_add [symmetric]) simp
  show ?thesis unfolding e abs_mult nat_mult_distrib [OF abs_ge_zero] by simp
qed

lemma sint_i64_bound: "nat \<bar>sint (v :: i64)\<bar> \<le> 2 ^ 63"
  using sint_greater_eq [of v] sint_less [of v] by simp

lemma num_exact_i64: "num_exact (numval_i64 v)"
proof -
  have "nat \<bar>sint v\<bar> * 2 ^ 64 * 2 ^ 1010 div 2 ^ 1010 = nat \<bar>sint v\<bar> * 2 ^ 64"
    by (rule nonzero_mult_div_cancel_right) simp
  moreover have "nat \<bar>sint v\<bar> * 2 ^ 64 \<le> 2 ^ 63 * 2 ^ 64" using sint_i64_bound [of v] by (rule mult_le_mono1)
  ultimately show ?thesis unfolding numval_i64_def num_exact.simps units_exact_def i64_units
    by (intro conjI dvd_triv_right) (simp only:, simp)
qed

lemma i64_magnitude:
  "sint v < 0 \<Longrightarrow> (of_nat (nat \<bar>sint v\<bar>) :: i64) = - v"
  "0 \<le> sint v \<Longrightarrow> (of_nat (nat \<bar>sint v\<bar>) :: i64) = v"
  by simp_all

lemma encode_i64_num: "encode_i64 v = num_encode (numval_i64 v)"
proof -
  let ?n = "nat \<bar>sint v\<bar>"
  let ?q = "?n * 2 ^ 64"
  have k: "nat \<bar>sint v * 2 ^ 1074\<bar> div 2 ^ 1010 = ?q"
    unfolding i64_units by (rule nonzero_mult_div_cancel_right) simp
  have "?q \<le> 2 ^ 63 * 2 ^ 64" using sint_i64_bound [of v] by (rule mult_le_mono1)
  then have q: "?q < 2 ^ 128" by simp
  have d: "?q div 2 ^ 64 = ?n" "?q mod 2 ^ 64 = 0" by simp_all
  have z: "u64_to_be_bytes (of_nat 0) = replicate 8 0" "u64_to_be_bytes (NOT (of_nat 0)) = replicate 8 0xFF"
    using be_of_nat_ones [of 8] be_of_nat_zero [of 8]
    by (simp_all add: u64_to_be_bytes_def unsigned_minus_1_eq_mask mask_eq_exp_minus_1)
  note h = be_16_halves [OF q, unfolded d z]
  have v0: "v = 0 \<longleftrightarrow> sint v = 0" 
    using sint_64 [of v] uint_lt2p [of v] by (auto simp: unsigned_eq_0_iff split: if_splits)
  consider "sint v = 0" | "sint v < 0" | "sint v > 0" by linarith
  then show ?thesis
  proof cases
    case 1
    then have "v = 0" using v0 by simp
    then show ?thesis using be_of_nat_zero [of 16] by (simp add: encode_i64_def numval_i64_def)
  next
    case 2
    then have "num_encode (numval_i64 v) = NUM_NEG # be_of_nat 16 (2 ^ 128 - 1 - ?q)"
      unfolding k [symmetric] by (simp add: numval_i64_def mult_less_0_iff)
    then show ?thesis using 2 v0 unfolding encode_i64_def h(2) i64_magnitude(1) [OF 2] by (simp add: word_sless_alt)
  next
    case 3
    then have "num_encode (numval_i64 v) = NUM_POS # be_of_nat 16 ?q"
      unfolding k [symmetric] by (simp add: numval_i64_def mult_less_0_iff)
    then show ?thesis using 3 v0 i64_magnitude(2) [of v] unfolding encode_i64_def h(1) by (simp add: word_sless_alt)
  qed
qed

end
