(* ===== verification/Key_Order.thy ===== *)
theory Key_Order
  imports Key_Encoding
begin

text \<open>
  The encoding of \<open>keys/mod.rs\<close> preserves the reference order: values, documents,
  arrays and compound keys with ascending and descending fields.
\<close>

section \<open>Strings\<close>

lemma encode_string_order: "free_cmp (encode_string_bytes x) (encode_string_bytes y) = Some (cmp_of x y)"
proof (induction x arbitrary: y)
  case Nil
  then show ?case by (cases y) (auto simp: encode_string_bytes_def cmp_of_def word_greater_zero_iff)
next
  case (Cons a x)
  show ?case
  proof (cases y)
    case Nil
    then show ?thesis by (auto simp: encode_string_bytes_def cmp_of_def word_greater_zero_iff)
  next
    case (Cons b z)
    have one: "1 < c" if "c \<noteq> 0" "c \<noteq> 1" for c :: u8
      using that by unat_arith
    show ?thesis
      using Cons.IH [of z] Cons one word_neq_0_conv
      by (auto simp: encode_string_bytes_def cmp_of_def)
  qed
qed

lemma encode_string_as_bytes_order:
  "free_cmp (encode_string_bytes (as_bytes s)) (encode_string_bytes (as_bytes t)) = Some (str_cmp s t)"
  by (simp add: encode_string_order str_cmp_def)

section \<open>Types\<close>

definition rank_byte :: "nat \<Rightarrow> u8" where
  "rank_byte r = [0x00, 0x05, 0x10, 0x15, 0x20, 0x30, 0x40, 0x50, 0x60, 0x70, 0x80, 0x85, 0x90, 0xFF] ! r"

definition encode_payload :: "bson \<Rightarrow> bytes" where
  "encode_payload v = tl (encode_into v)"

lemma encode_into_type: "encode_into v = rank_byte (type_rank v) # encode_payload v"
  by (cases v) (simp_all add: encode_payload_def rank_byte_def type_bytes)

lemma type_rank_le: "type_rank v \<le> 13"
  by (cases v) simp_all

lemma rank_byte_mono: "i < j \<Longrightarrow> j \<le> 13 \<Longrightarrow> rank_byte i < rank_byte j"
proof -
  have "sorted_wrt (<) ([0x00, 0x05, 0x10, 0x15, 0x20, 0x30, 0x40, 0x50, 0x60, 0x70, 0x80, 0x85, 0x90, 0xFF] :: u8 list)"
    by simp
  then show "i < j \<Longrightarrow> j \<le> 13 \<Longrightarrow> rank_byte i < rank_byte j"
    unfolding rank_byte_def by (rule sorted_wrt_nth_less) simp_all
qed

lemma encode_into_order_type:
  assumes "type_rank a = type_rank b \<Longrightarrow> free_cmp (encode_payload a) (encode_payload b) = Some r"
  shows "free_cmp (encode_into a) (encode_into b) = Some (cmp_then (cmp_of (type_rank a) (type_rank b)) r)"
proof (cases "type_rank a" "type_rank b" rule: linorder_cases)
  case less
  then have "rank_byte (type_rank a) < rank_byte (type_rank b)" using rank_byte_mono type_rank_le by blast
  then show ?thesis unfolding encode_into_type [of a] encode_into_type [of b] by (simp add: cmp_of_less less)
next
  case equal
  then show ?thesis unfolding encode_into_type [of a] encode_into_type [of b] by (simp add: assms)
next
  case greater
  then have "rank_byte (type_rank b) < rank_byte (type_rank a)" using rank_byte_mono type_rank_le by blast
  then show ?thesis unfolding encode_into_type [of a] encode_into_type [of b]
    by (simp add: cmp_of_less greater order.strict_implies_not_eq [symmetric] order.asym)
qed

lemma numeric_rank: "numeric v = None \<longleftrightarrow> type_rank v \<noteq> 2"
  by (cases v) simp_all

lemma textual_rank: "textual v = None \<longleftrightarrow> type_rank v \<noteq> 4"
  by (cases v) simp_all

lemma numeric_payload:
  "numeric v = Some n \<Longrightarrow> key_safe v \<Longrightarrow> encode_payload v = num_encode n \<and> num_exact n"
  by (cases v) (auto simp: encode_payload_def encode_f64_num encode_i64_num encode_decimal128_def num_exact_f64 num_exact_i64)

lemma textual_payload: "textual v = Some s \<Longrightarrow> encode_payload v = encode_string_bytes (as_bytes s)"
  by (cases v) (auto simp: encode_payload_def)

lemma xor_top_bit: "(v :: u64) XOR 0x8000000000000000 = v + 0x8000000000000000"
proof -
  have p: "(0x8000000000000000 :: u64) = push_bit 63 1" by (simp add: push_bit_eq_mult)
  have "v XOR 0x8000000000000000 = flip_bit 63 v" unfolding p by (rule flip_bit_eq_xor [symmetric])
  also have "\<dots> = (if bit v 63 then v - 2 ^ 63 else v + 2 ^ 63)"
    by (simp add: flip_bit_eq_if set_bit_eq unset_bit_eq)
  also have "v - 2 ^ 63 = v + 2 ^ 63"
  proof -
    have "(2 ^ 63 :: u64) = - (2 ^ 63)" by simp
    then show ?thesis by (metis diff_conv_add_uminus)
  qed
  also have "(if bit v 63 then v + 2 ^ 63 else v + 2 ^ 63) = v + 0x8000000000000000" by simp
  finally show ?thesis .
qed

lemma uint_xor_top_bit: "uint (v XOR 0x8000000000000000) = sint (v :: i64) + 2 ^ 63"
proof -
  have lt: "uint v < 2 ^ 64" "0 \<le> uint v" using uint_lt2p [of v] by simp_all
  have "uint (v + 0x8000000000000000) = (uint v + 2 ^ 63) mod 2 ^ 64"
    by (simp add: uint_word_ariths)
  also have "\<dots> = sint v + 2 ^ 63"
    using lt by (simp add: sint_64 mod_pos_pos_trivial mod_pos_geq)
  finally show ?thesis by (simp only: xor_top_bit)
qed
lemma free_cmp_u64: "free_cmp (u64_to_be_bytes a) (u64_to_be_bytes b) = Some (cmp_of a b)"
  by (simp add: free_cmp_eq_length cmp_of_def u64_be_less_iff)

lemma signed_be_order: "free_cmp (encode_signed_i64_be a) (encode_signed_i64_be b) = Some (cmp_of (sint a) (sint b))"
proof -
  have "cmp_of (a XOR 0x8000000000000000) (b XOR 0x8000000000000000) = cmp_of (sint a) (sint b)"
    unfolding cmp_of_def word_less_def word_uint_eq_iff uint_xor_top_bit by simp
  then show ?thesis
    by (simp only: encode_signed_i64_be_def free_cmp_u64)
qed

lemma free_cmp_u32: "free_cmp (u32_to_be_bytes a) (u32_to_be_bytes b) = Some (cmp_of a b)"
  by (simp add: free_cmp_eq_length cmp_of_def u32_be_less_iff)

lemma binary_order:
  assumes "length bs < 2 ^ 32" "length bs' < 2 ^ 32"
  shows "free_cmp (encode_binary st bs) (encode_binary st' bs') =
    Some (cmp_then (cmp_of st st') (cmp_then (cmp_of (length bs) (length bs')) (cmp_of bs bs')))"
proof -
  have u: "unat (of_nat (length x) :: u32) = length x" if "length x < 2 ^ 32" for x :: bytes
    using that by (simp add: unat_of_nat)
  have w: "cmp_of (of_nat (length bs) :: u32) (of_nat (length bs')) = cmp_of (length bs) (length bs')"
    using u [OF assms(1)] u [OF assms(2)] by (metis cmp_of_def word_less_nat_alt)
  have "free_cmp (u32_to_be_bytes (of_nat (length bs)) @ bs) (u32_to_be_bytes (of_nat (length bs')) @ bs') =
      Some (cmp_then (cmp_of (length bs) (length bs')) (cmp_of bs bs'))"
    unfolding free_cmp_append [OF free_cmp_u32] w
    by (cases "cmp_of (length bs) (length bs')") (simp_all add: free_cmp_eq_length cmp_of_less)
  then show ?thesis by (auto simp: encode_binary_def cmp_of_def)
qed

lemma payload_order:
  assumes "type_rank a = type_rank b" "key_safe a" "key_safe b" "type_rank a \<notin> {2, 4, 5, 6}"
  shows "free_cmp (encode_payload a) (encode_payload b) = Some (payload_cmp a b)"
  using assms
proof (cases a)
  case (Binary st bs)
  then show ?thesis using assms by (cases b) (simp_all add: encode_payload_def payload_cmp_def binary_order)
next
  case (Timestamp t i)
  then show ?thesis using assms
    by (cases b) (simp_all add: encode_payload_def payload_cmp_def free_cmp_append_then [OF free_cmp_u32 free_cmp_u32])
next
  case (RegularExpression p q)
  then show ?thesis using assms
    by (cases b) (simp_all add: encode_payload_def payload_cmp_def
        free_cmp_append_then [OF encode_string_as_bytes_order encode_string_as_bytes_order])
next
  case (ObjectId x)
  then show ?thesis using assms by (cases b) (simp_all add: encode_payload_def payload_cmp_def free_cmp_eq_length)
next
  case (Boolean x)
  then show ?thesis using assms by (cases b) (auto simp: encode_payload_def payload_cmp_def cmp_of_def)
next
  case (DateTime x)
  then show ?thesis using assms by (cases b) (simp_all add: encode_payload_def payload_cmp_def signed_be_order)
next
  case (Symbol x)
  then show ?thesis using assms by (cases b) (simp_all add: encode_payload_def payload_cmp_def encode_string_as_bytes_order)
qed (cases b; simp add: encode_payload_def payload_cmp_def)+

lemma scalar_order:
  assumes "key_safe a" "key_safe b" "type_rank a \<notin> {5, 6}"
  shows "free_cmp (encode_into a) (encode_into b) = Some (cmp_then (cmp_of (type_rank a) (type_rank b)) (scalar_cmp a b))"
proof (rule encode_into_order_type)
  assume eq: "type_rank a = type_rank b"
  show "free_cmp (encode_payload a) (encode_payload b) = Some (scalar_cmp a b)"
  proof (cases "type_rank a \<in> {2, 4}")
    case True
    then show ?thesis
      using eq numeric_rank [of a] numeric_rank [of b] textual_rank [of a] textual_rank [of b] assms
        numeric_payload [of a] numeric_payload [of b] textual_payload [of a] textual_payload [of b]
      by (auto simp: scalar_cmp_def num_encode_order encode_string_as_bytes_order)
  next
    case False
    then have "numeric a = None" "textual a = None" using numeric_rank textual_rank by simp_all
    then have "scalar_cmp a b = payload_cmp a b" by (simp add: scalar_cmp_def)
    then show ?thesis using payload_order [OF eq assms(1,2)] False assms(3) by simp
  qed
qed

section \<open>Documents and arrays\<close>

lemma encode_into_head_pos:
  assumes "v \<noteq> MinKey"
  obtains c bs where "encode_into v = c # bs" "0 < c"
proof -
  have "0 < type_rank v" using assms by (cases v) simp_all
  then have "rank_byte 0 < rank_byte (type_rank v)" using rank_byte_mono type_rank_le by blast
  then show ?thesis using that encode_into_type [of v] by (simp add: rank_byte_def)
qed

lemma encode_string_head_pos:
  assumes "s \<noteq> []"
  obtains c bs where "encode_string_bytes s = c # bs" "0 < c"
proof -
  obtain a t where "s = a # t" using assms by (cases s) auto
  then show ?thesis using that by (cases "a = 0"; cases "a = 1") (auto simp: encode_string_bytes_def word_greater_zero_iff)
qed

lemma bson_compare_scalar:
  "type_rank a \<notin> {5, 6} \<Longrightarrow> bson_compare a b = cmp_then (cmp_of (type_rank a) (type_rank b)) (scalar_cmp a b)"
  by (cases a) simp_all

lemma scalar_bson_order:
  "type_rank a \<notin> {5, 6} \<Longrightarrow> key_safe a \<Longrightarrow> key_safe b \<Longrightarrow>
    free_cmp (encode_into a) (encode_into b) = Some (bson_compare a b)"
  by (simp add: bson_compare_scalar scalar_order)

lemma document_array_order:
  "(\<And>e. b = Document e \<Longrightarrow> free_cmp (encode_document d) (encode_document e) = Some (fields_compare d e)) \<Longrightarrow>
     free_cmp (encode_into (Document d)) (encode_into b) = Some (bson_compare (Document d) b)"
  "(\<And>ys. b = Array ys \<Longrightarrow> free_cmp (encode_array xs) (encode_array ys) = Some (elems_compare xs ys)) \<Longrightarrow>
     free_cmp (encode_into (Array xs)) (encode_into b) = Some (bson_compare (Array xs) b)"
  using encode_into_order_type [of "Document d" b "case b of Document e \<Rightarrow> fields_compare d e | _ \<Rightarrow> Equal"]
    encode_into_order_type [of "Array xs" b "case b of Array ys \<Rightarrow> elems_compare xs ys | _ \<Rightarrow> Equal"]
  by (cases b; simp add: encode_payload_def)+

lemma fields_order_Nil: "fields_safe e \<Longrightarrow> free_cmp [0] (encode_document e) = Some (fields_compare [] e)"
  "fields_safe e \<Longrightarrow> e \<noteq> [] \<Longrightarrow> free_cmp (encode_document e) [0] = Some Greater"
proof -
  have "\<exists>c bs. encode_document e = c # bs \<and> 0 < c" if safe: "fields_safe e" and ne: "e \<noteq> []"
  proof -
    obtain k v d where e: "e = (k, v) # d" using ne by (cases e) auto
    obtain c bs where "encode_string_bytes (as_bytes k) = c # bs" "0 < c"
      using encode_string_head_pos safe e by (metis as_bytes_Nil_iff fields_safe.simps(2))
    then show ?thesis using e by simp
  qed
  then show "fields_safe e \<Longrightarrow> free_cmp [0] (encode_document e) = Some (fields_compare [] e)"
    "fields_safe e \<Longrightarrow> e \<noteq> [] \<Longrightarrow> free_cmp (encode_document e) [0] = Some Greater"
    by (cases "e = []"; force)+
qed

lemma elems_order_Nil: "elems_safe ys \<Longrightarrow> free_cmp [0] (encode_array ys) = Some (elems_compare [] ys)"
  "elems_safe ys \<Longrightarrow> ys \<noteq> [] \<Longrightarrow> free_cmp (encode_array ys) [0] = Some Greater"
proof -
  have "\<exists>c bs. encode_array ys = c # bs \<and> 0 < c" if safe: "elems_safe ys" and ne: "ys \<noteq> []"
  proof -
    obtain v d where e: "ys = v # d" using ne by (cases ys) auto
    obtain c bs where "encode_into v = c # bs" "0 < c"
      using encode_into_head_pos safe e by (metis elems_safe.simps(2))
    then show ?thesis using e by simp
  qed
  then show "elems_safe ys \<Longrightarrow> free_cmp [0] (encode_array ys) = Some (elems_compare [] ys)"
    "elems_safe ys \<Longrightarrow> ys \<noteq> [] \<Longrightarrow> free_cmp (encode_array ys) [0] = Some Greater"
    by (cases "ys = []"; force)+
qed

lemma encode_order:
  "key_safe a \<Longrightarrow> key_safe b \<Longrightarrow> free_cmp (encode_into a) (encode_into b) = Some (bson_compare a b)"
  "fields_safe d \<Longrightarrow> fields_safe e \<Longrightarrow> free_cmp (encode_document d) (encode_document e) = Some (fields_compare d e)"
  "elems_safe xs \<Longrightarrow> elems_safe ys \<Longrightarrow> free_cmp (encode_array xs) (encode_array ys) = Some (elems_compare xs ys)"
proof (induction a b and d e and xs ys rule: bson_compare_fields_compare_elems_compare.induct)
  case (1 d b)
  show ?case by (rule document_array_order(1)) (use 1 in simp)
next
  case (2 xs b)
  show ?case by (rule document_array_order(2)) (use 2 in simp)
next
  case (4 e)
  then show ?case using fields_order_Nil(1) by simp
next
  case (5 k v d e)
  show ?case
  proof (cases e)
    case Nil
    then show ?thesis using fields_order_Nil(2) [of "(k, v) # d"] 5(3) by simp
  next
    case (Cons f e')
    obtain k' v' where f: "f = (k', v')" by (cases f)
    then have "free_cmp (encode_into v) (encode_into v') = Some (bson_compare v v')"
      "free_cmp (encode_document d) (encode_document e') = Some (fields_compare d e')"
      using 5 Cons by simp_all
    then show ?thesis using Cons f
      by (simp add: free_cmp_append_then [OF encode_string_as_bytes_order free_cmp_append_then])
  qed
next
  case (6 ys)
  then show ?case using elems_order_Nil(1) by simp
next
  case (7 x xs ys)
  show ?case
  proof (cases ys)
    case Nil
    then show ?thesis using elems_order_Nil(2) [of "x # xs"] 7(3) by simp
  next
    case (Cons y ys')
    then have "free_cmp (encode_into x) (encode_into y) = Some (bson_compare x y)"
      "free_cmp (0 # encode_array xs) (0 # encode_array ys') = Some (elems_compare xs ys')"
      using 7 by simp_all
    then show ?thesis using Cons by (simp add: free_cmp_append_then)
  qed
qed (rule scalar_bson_order; simp)+

section \<open>Compound keys\<close>

text \<open>Field by field, a descending field reversed.\<close>

definition field_compare :: "bson \<times> bool \<Rightarrow> bson \<times> bool \<Rightarrow> ordering" where
  "field_compare f g = (if snd f then bson_compare (fst f) (fst g) else cmp_rev (bson_compare (fst f) (fst g)))"

fun compound_compare :: "(bson \<times> bool) list \<Rightarrow> (bson \<times> bool) list \<Rightarrow> ordering" where
  "compound_compare (f # fs) (g # gs) = cmp_then (field_compare f g) (compound_compare fs gs)"
| "compound_compare _ _ = Equal"

lemma encode_field_order:
  assumes "key_safe (fst f)" "key_safe (fst g)" "snd f = snd g"
  shows "free_cmp (encode_field f) (encode_field g) = Some (field_compare f g)"
  using encode_order(1) [OF assms(1,2)] assms(3) by (simp add: encode_field_def field_compare_def free_cmp_NOT)

lemma compound_free_order:
  assumes "map snd fs = map snd gs" "list_all (key_safe \<circ> fst) fs" "list_all (key_safe \<circ> fst) gs"
  shows "free_cmp (encode_compound_key fs) (encode_compound_key gs) = Some (compound_compare fs gs)"
  using assms
proof (induction fs arbitrary: gs rule: encode_compound_key.induct)
  case 1
  then show ?case by simp
next
  case (2 f)
  then obtain g where g: "gs = [g]" "snd f = snd g" by (cases gs) auto
  then have "free_cmp (encode_field f) (encode_field g) = Some (field_compare f g)"
    using encode_field_order 2 by simp
  then show ?case using g by simp
next
  case (3 f f' fs)
  then obtain g g' gs' where g: "gs = g # g' # gs'" "snd f = snd g" by (cases gs; cases "tl gs") auto
  have "free_cmp (encode_field f) (encode_field g) = Some (field_compare f g)"
    using encode_field_order 3 g by simp
  moreover have "free_cmp (COMPOUND_SEP # encode_compound_key (f' # fs)) (COMPOUND_SEP # encode_compound_key (g' # gs'))
      = Some (compound_compare (f' # fs) (g' # gs'))"
    using "3.IH" [of "g' # gs'"] "3.prems" g by simp
  ultimately show ?case unfolding g(1) encode_compound_key.simps compound_compare.simps(1) [of f "f' # fs"]
    by (rule free_cmp_append_then)
qed

section \<open>Which doubles are exact\<close>

lemma f64_abs_units_form: "\<exists>m k. f64_abs_units v = m * 2 ^ k \<and> m < 2 ^ 53"
proof -
  have f: "f64_fraction v < 2 ^ 52" by (simp add: f64_fraction_def)
  show ?thesis
  proof (cases "f64_biased v = 0")
    case True
    then have "f64_abs_units v = f64_fraction v * 2 ^ 0 \<and> f64_fraction v < 2 ^ 53" using f by (simp add: f64_abs_units_def)
    then show ?thesis by blast
  next
    case False
    then have "f64_abs_units v = (f64_fraction v + 2 ^ 52) * 2 ^ (f64_biased v - 1)" by (simp add: f64_abs_units_def)
    moreover have "f64_fraction v + 2 ^ 52 < 2 ^ 53" using f by simp
    ultimately show ?thesis by blast
  qed
qed

lemma units_exact_range:
  assumes u: "u = m * 2 ^ k" "m < 2 ^ 53" and r: "2 ^ 1062 \<le> u" "u < 2 ^ 1138"
  shows "units_exact u"
proof -
  have k: "1010 \<le> k"
  proof (rule ccontr)
    assume "\<not> 1010 \<le> k"
    then have "(2::nat) ^ k \<le> 2 ^ 1009" by (intro power_increasing) simp_all
    then have "m * 2 ^ k < 2 ^ 53 * 2 ^ 1009" using u(2) by (intro mult_less_le_imp_less) simp_all
    then show False using r(1) u(1) by (simp only: power_add [symmetric]) simp
  qed
  then have "u = (m * 2 ^ (k - 1010)) * 2 ^ 1010" using u(1) by (simp only: mult.assoc power_add [symmetric]) simp
  then have q: "2 ^ 1010 dvd u" "u div 2 ^ 1010 = m * 2 ^ (k - 1010)"
    using nonzero_mult_div_cancel_right [of "2 ^ 1010" "m * 2 ^ (k - 1010)"] by (metis dvd_triv_right, metis power_not_zero zero_neq_numeral)
  have "u div 2 ^ 1010 \<noteq> 2 ^ 128 - 1"
  proof
    assume e: "u div 2 ^ 1010 = 2 ^ 128 - 1"
    have "odd (m * 2 ^ (k - 1010))" using e q(2) by simp
    then have "k - 1010 = 0" by (simp del: diff_is_0_eq)
    then show False using e q(2) u(2) by simp
  qed
  moreover have "u div 2 ^ 1010 < 2 ^ 128" using r(2) by (intro less_mult_imp_div_less) (simp only: power_add [symmetric], simp)
  ultimately show ?thesis using q(1) unfolding units_exact_def by linarith
qed

text \<open>Every double of absolute value from \<open>2\<^sup>-\<^sup>1\<^sup>2\<close> up to \<open>2\<^sup>6\<^sup>4\<close> is exact.\<close>

lemma f64_key_exact_range:
  "2 ^ 1062 \<le> f64_abs_units v \<Longrightarrow> f64_abs_units v < 2 ^ 1138 \<Longrightarrow> f64_key_exact v"
  using f64_abs_units_form [of v] units_exact_range unfolding f64_key_exact_def by blast

section \<open>Properties\<close>

lemma free_cmp_less_eq:
  assumes "free_cmp x y = Some r"
  shows "(x < y \<longleftrightarrow> r = Less) \<and> (x = y \<longleftrightarrow> r = Equal)"
  using free_cmp_lex [OF assms] by simp

text \<open>Property C12. \<open>encode_key\<close> preserves the order of values: on exactly encodable values the
  bytewise order of two keys is the reference order, and two keys are equal exactly when
  the values are (so \<open>Int32\<close>, \<open>Int64\<close>, \<open>Double\<close> and \<open>Decimal128\<close> of one value share a key).\<close>

theorem encode_key_order:
  assumes "key_safe a" and "key_safe b"
  shows "(encode_key a < encode_key b \<longleftrightarrow> bson_compare a b = Less) \<and>
         (encode_key a = encode_key b \<longleftrightarrow> bson_compare a b = Equal)"
  unfolding encode_key_def by (rule free_cmp_less_eq [OF encode_order(1) [OF assms]])

definition ex_doc :: bson where
  "ex_doc = Document [(''a'', Int32 5), (''b'', Array [Null, String ''x''])]"

theorem encode_key_order_witness:
  "key_safe ex_doc \<and> key_safe (Document [(''a'', Int64 6)]) \<and> encode_key ex_doc < encode_key (Document [(''a'', Int64 6)])"
proof -
  have safe: "key_safe ex_doc" "key_safe (Document [(''a'', Int64 6)])" by (simp_all add: ex_doc_def)
  have "bson_compare ex_doc (Document [(''a'', Int64 6)]) = Less"
    by (simp add: ex_doc_def str_cmp_def scalar_cmp_def numval_i64_def cmp_of_def)
  then show ?thesis using encode_key_order [OF safe] safe by simp
qed

text \<open>Property C13. A compound key compares field by field in the declared directions: two keys
  built with the same directions are ordered as their first differing field is,
  reversed when that field is descending.\<close>

theorem encode_compound_key_order:
  assumes "map snd fs = map snd gs" and "list_all (key_safe \<circ> fst) fs" and "list_all (key_safe \<circ> fst) gs"
  shows "(encode_compound_key fs < encode_compound_key gs \<longleftrightarrow> compound_compare fs gs = Less) \<and>
         (encode_compound_key fs = encode_compound_key gs \<longleftrightarrow> compound_compare fs gs = Equal)"
  by (rule free_cmp_less_eq [OF compound_free_order [OF assms]])

theorem encode_compound_key_order_witness:
  "encode_compound_key [(String ''Al'', True), (Int32 30, False)] < encode_compound_key [(String ''Al'', True), (Int32 20, False)]"
proof -
  let ?f = "[(String ''Al'', True), (Int32 30, False)]" and ?g = "[(String ''Al'', True), (Int32 20, False)]"
  have "compound_compare ?f ?g = Less"
    by (simp add: field_compare_def scalar_cmp_def str_cmp_def numval_i64_def cmp_of_def)
  then show ?thesis using encode_compound_key_order [of ?f ?g] by simp
qed


end
