(* ===== verification/Key_Range.thy ===== *)
theory Key_Range
  imports Key_Order
begin

text \<open>
  The decoder side of \<open>keys/mod.rs\<close>: skipping over the encoded fields of a compound key
  to find the range of keys that share its indexed fields, which is what the
  uniqueness check of a secondary index scans. The three mutually recursive Rust
  functions get one fuel argument, spent once per call or loop iteration; each of
  them consumes a byte, so twice the key's length is always enough
  (\<open>skip_fuel_enough\<close>), and an exhausted fuel is the error \<open>fuel_out\<close> that no input
  reaches.
\<close>

section \<open>Reading\<close>

definition require_byte :: "bytes \<Rightarrow> nat \<Rightarrow> u8 \<Rightarrow> string \<Rightarrow> unit result" where
  "require_byte bs offset expected ctx =
    (if offset < length bs
     then (if bs ! offset = expected then Inr () else Inl (Internal (''compound key: expected '' @ ctx)))
     else Inl (Internal (''compound key: missing '' @ ctx)))"

definition raw_key_byte :: "bytes \<Rightarrow> nat \<Rightarrow> bool \<Rightarrow> u8 result" where
  "raw_key_byte bs offset ascending =
    (if offset < length bs then Inr (if ascending then bs ! offset else NOT (bs ! offset))
     else Inl (Internal ''compound key: truncated''))"

definition checked_skip :: "bytes \<Rightarrow> nat \<Rightarrow> nat \<Rightarrow> string \<Rightarrow> nat result" where
  "checked_skip bs offset len ctx =
    (if offset + len \<ge> 2 ^ 64 then Inl (Internal (''compound key: length overflow in '' @ ctx))
     else if offset + len \<le> length bs then Inr (offset + len)
     else Inl (Internal (''compound key: truncated payload of '' @ ctx)))"

function skip_encoded_string :: "bytes \<Rightarrow> nat \<Rightarrow> bool \<Rightarrow> nat result" where
  "skip_encoded_string bs offset ascending =
    (if offset < length bs then
       (if (if ascending then bs ! offset else NOT (bs ! offset)) = 0 then Inr (offset + 1)
        else skip_encoded_string bs (offset + 1) ascending)
     else Inl (Internal ''compound key: truncated''))"
  by pat_completeness auto
termination by (relation "measure (\<lambda>(bs, offset, _). length bs - offset)") auto

declare skip_encoded_string.simps [simp del]

definition skip_encoded_binary :: "bytes \<Rightarrow> nat \<Rightarrow> bool \<Rightarrow> nat result" where
  "skip_encoded_binary bs offset ascending =
    rbind (checked_skip bs offset 1 ''binary subtype'') (\<lambda>len_offset.
    rbind (checked_skip bs len_offset 4 ''binary length'') (\<lambda>len_end.
    rbind (raw_key_byte bs len_offset ascending) (\<lambda>b0.
    rbind (raw_key_byte bs (len_offset + 1) ascending) (\<lambda>b1.
    rbind (raw_key_byte bs (len_offset + 2) ascending) (\<lambda>b2.
    rbind (raw_key_byte bs (len_offset + 3) ascending) (\<lambda>b3.
      checked_skip bs len_end (unat (u32_from_be_bytes [b0, b1, b2, b3])) ''binary bytes''))))))"

definition fuel_out :: error where
  "fuel_out = Panic ''fuel''"

fun skip_encoded_value :: "nat \<Rightarrow> bytes \<Rightarrow> nat \<Rightarrow> bool \<Rightarrow> nat result"
  and skip_encoded_document :: "nat \<Rightarrow> bytes \<Rightarrow> nat \<Rightarrow> bool \<Rightarrow> nat result"
  and skip_encoded_array :: "nat \<Rightarrow> bytes \<Rightarrow> nat \<Rightarrow> bool \<Rightarrow> nat result" where
  "skip_encoded_value 0 bs offset ascending = Inl fuel_out"
| "skip_encoded_value (Suc n) bs offset ascending =
    rbind (raw_key_byte bs offset ascending) (\<lambda>ty. let offset = offset + 1 in
      if ty \<in> {TYPE_MIN_KEY, TYPE_NULL, TYPE_MAX_KEY} then Inr offset
      else if ty = TYPE_NUMBER then checked_skip bs offset 17 ''number''
      else if ty \<in> {TYPE_SYMBOL, TYPE_STRING} then skip_encoded_string bs offset ascending
      else if ty = TYPE_OBJECT then skip_encoded_document n bs offset ascending
      else if ty = TYPE_ARRAY then skip_encoded_array n bs offset ascending
      else if ty = TYPE_BIN_DATA then skip_encoded_binary bs offset ascending
      else if ty = TYPE_OBJECT_ID then checked_skip bs offset 12 ''object id''
      else if ty = TYPE_BOOLEAN then checked_skip bs offset 1 ''boolean''
      else if ty = TYPE_DATE then checked_skip bs offset 8 ''date''
      else if ty = TYPE_TIMESTAMP then checked_skip bs offset 8 ''timestamp''
      else if ty = TYPE_REGEXP then
        rbind (skip_encoded_string bs offset ascending) (\<lambda>after_pattern.
          skip_encoded_string bs after_pattern ascending)
      else Inl (Internal ''compound key: unknown encoded BSON type''))"
| "skip_encoded_document 0 bs offset ascending = Inl fuel_out"
| "skip_encoded_document (Suc n) bs offset ascending =
    rbind (raw_key_byte bs offset ascending) (\<lambda>b.
      if b = 0 then Inr (offset + 1)
      else rbind (skip_encoded_string bs offset ascending) (\<lambda>offset.
        rbind (skip_encoded_value n bs offset ascending) (\<lambda>offset.
          skip_encoded_document n bs offset ascending)))"
| "skip_encoded_array 0 bs offset ascending = Inl fuel_out"
| "skip_encoded_array (Suc n) bs offset ascending =
    rbind (raw_key_byte bs offset ascending) (\<lambda>b.
      if b = 0 then Inr (offset + 1)
      else rbind (skip_encoded_value n bs offset ascending) (\<lambda>offset.
        rbind (raw_key_byte bs offset ascending) (\<lambda>s.
          if s \<noteq> 0 then Inl (Internal ''compound key: array element separator missing'')
          else skip_encoded_array n bs (offset + 1) ascending)))"

definition skip_fuel :: "bytes \<Rightarrow> nat" where
  "skip_fuel bs = 2 * length bs + 2"

fun skip_fields :: "bytes \<Rightarrow> nat \<Rightarrow> nat \<Rightarrow> bool list \<Rightarrow> nat result" where
  "skip_fields key offset idx [] = Inr offset"
| "skip_fields key offset idx (ascending # dirs) =
    rbind (if idx > 0 then rbind (require_byte key offset COMPOUND_SEP ''compound field separator'') (\<lambda>_. Inr (offset + 1))
           else Inr offset) (\<lambda>offset.
    rbind (skip_encoded_value (skip_fuel key) key offset ascending) (\<lambda>offset.
      skip_fields key offset (idx + 1) dirs))"

definition compound_prefix_range_excluding_trailing_id :: "bytes \<Rightarrow> bool list \<Rightarrow> (bytes \<times> bytes) result" where
  "compound_prefix_range_excluding_trailing_id key field_directions =
    rbind (skip_fields key 0 0 field_directions) (\<lambda>offset.
    rbind (require_byte key offset COMPOUND_SEP ''trailing _id separator'') (\<lambda>_.
      let start = take (offset + 1) key in
      Inr (start, butlast start @ [saturating_add (last start) 1])))"

section \<open>Fuel and progress\<close>

lemma raw_key_byte_Inr: "raw_key_byte bs off asc = Inr b \<Longrightarrow> off < length bs"
  by (simp add: raw_key_byte_def split: if_splits)

lemma raw_key_byte_fuel [simp]: "raw_key_byte bs off asc \<noteq> Inl fuel_out"
  by (simp add: raw_key_byte_def fuel_out_def)

lemma checked_skip_Inr: "checked_skip bs off k ctx = Inr o' \<Longrightarrow> o' = off + k \<and> o' \<le> length bs"
  by (auto simp: checked_skip_def split: if_splits)

lemma checked_skip_fuel [simp]: "checked_skip bs off k ctx \<noteq> Inl fuel_out"
  by (simp add: checked_skip_def fuel_out_def)

lemma skip_string_Inr: "skip_encoded_string bs off asc = Inr o' \<Longrightarrow> off < o' \<and> o' \<le> length bs"
proof (induction bs off asc rule: skip_encoded_string.induct)
  case (1 bs off asc)
  show ?case
    using "1.prems" "1.IH" by (subst (asm) skip_encoded_string.simps) (fastforce split: if_splits)
qed

lemma skip_string_fuel [simp]: "skip_encoded_string bs off asc \<noteq> Inl fuel_out"
proof (induction bs off asc rule: skip_encoded_string.induct)
  case (1 bs off asc)
  then show ?case by (subst skip_encoded_string.simps) (auto simp: fuel_out_def)
qed

text \<open>A skip that consumes at least one byte and stays inside the key.\<close>

definition skips :: "bytes \<Rightarrow> nat \<Rightarrow> nat result \<Rightarrow> bool" where
  "skips bs off r \<longleftrightarrow> r \<noteq> Inl fuel_out \<and> (\<forall>o'. r = Inr o' \<longrightarrow> off < o' \<and> o' \<le> length bs)"

lemma skips_rbind:
  assumes "skips bs off m" and "\<And>o'. m = Inr o' \<Longrightarrow> off < o' \<Longrightarrow> o' \<le> length bs \<Longrightarrow> skips bs o' (f o')"
  shows "skips bs off (rbind m f)"
proof (cases m)
  case (Inl e)
  then show ?thesis using assms(1) by (simp add: skips_def)
next
  case (Inr o')
  then have "off < o'" "o' \<le> length bs" using assms(1) by (simp_all add: skips_def)
  then show ?thesis using assms(2) [OF Inr] Inr by (auto simp: skips_def)
qed

lemma skips_raw:
  assumes "\<And>b. off < length bs \<Longrightarrow> skips bs off (f b)"
  shows "skips bs off (rbind (raw_key_byte bs off asc) f)"
  using assms raw_key_byte_Inr [of bs off asc] by (cases "raw_key_byte bs off asc") (auto simp: skips_def)

lemma skips_basic:
  "off < length bs \<Longrightarrow> skips bs off (Inr (off + 1))"
  "off < length bs \<Longrightarrow> skips bs off (checked_skip bs (off + 1) k ctx)"
  "skips bs off (skip_encoded_string bs off asc)"
  "skips bs off (Inl (Internal msg))"
     apply (simp add: skips_def)
    apply (auto simp: skips_def dest!: checked_skip_Inr)[1]
   apply (auto simp: skips_def dest: skip_string_Inr)[1]
  apply (simp add: skips_def fuel_out_def)
  done

lemma skips_if: "skips bs off r \<Longrightarrow> skips bs off r' \<Longrightarrow> skips bs off (if c then r else r')"
  by simp

lemma skips_later: "skips bs off' r \<Longrightarrow> off \<le> off' \<Longrightarrow> skips bs off r"
  by (auto simp: skips_def)

lemma skips_binary: "skips bs off (skip_encoded_binary bs (off + 1) asc)"
proof -
  have "skip_encoded_binary bs (off + 1) asc \<noteq> Inl fuel_out"
    by (auto simp: skip_encoded_binary_def rbind_def split: sum.splits) 
  moreover have "off < o' \<and> o' \<le> length bs" if "skip_encoded_binary bs (off + 1) asc = Inr o'" for o'
    using that by (auto simp: skip_encoded_binary_def rbind_Inr_iff dest!: checked_skip_Inr)
  ultimately show ?thesis by (simp add: skips_def)
qed

lemma skip_fuel_enough:
  "2 * (length bs - off) + 1 \<le> n \<Longrightarrow> skips bs off (skip_encoded_value n bs off asc)"
  "2 * (length bs - off) + 2 \<le> n \<Longrightarrow> skips bs off (skip_encoded_document n bs off asc)"
  "2 * (length bs - off) + 2 \<le> n \<Longrightarrow> skips bs off (skip_encoded_array n bs off asc)"
proof (induction n arbitrary: off)
  case (Suc n)
  note string_twice = skips_rbind [OF skips_basic(3) skips_basic(3)]
  {
    case 1
    note le = skips_later [where off = off and off' = "off + 1"]
    have "skips bs off (skip_encoded_document n bs (off + 1) asc)" "skips bs off (skip_encoded_array n bs (off + 1) asc)"
      if "off < length bs"
    proof -
      have fuel: "2 * (length bs - (off + 1)) + 2 \<le> n" using 1 that by linarith
      show "skips bs off (skip_encoded_document n bs (off + 1) asc)" by (rule le [OF Suc.IH(2) [OF fuel] le_add1])
      show "skips bs off (skip_encoded_array n bs (off + 1) asc)" by (rule le [OF Suc.IH(3) [OF fuel] le_add1])
    qed
    then show ?case unfolding skip_encoded_value.simps Let_def
      by (intro skips_raw skips_if)
         (assumption | rule skips_basic skips_binary le [OF skips_basic(3) le_add1] le [OF string_twice le_add1])+
  next
    case 2
    show ?case unfolding skip_encoded_document.simps
    proof (rule skips_raw)
      fix b assume lt: "off < length bs"
      have "skips bs off (rbind (skip_encoded_string bs off asc) (\<lambda>offset.
          rbind (skip_encoded_value n bs offset asc) (\<lambda>offset. skip_encoded_document n bs offset asc)))"
        by (intro skips_rbind skips_basic Suc.IH) (use 2 in simp_all)
      then show "skips bs off (if b = 0 then Inr (off + 1) else rbind (skip_encoded_string bs off asc) (\<lambda>offset.
          rbind (skip_encoded_value n bs offset asc) (\<lambda>offset. skip_encoded_document n bs offset asc)))"
        using skips_basic(1) [OF lt] by simp
    qed
  next
    case 3
    show ?case unfolding skip_encoded_array.simps
    proof (rule skips_raw)
      fix b assume lt: "off < length bs"
      have "skips bs off (rbind (skip_encoded_value n bs off asc) (\<lambda>offset. rbind (raw_key_byte bs offset asc) (\<lambda>s.
            if s \<noteq> 0 then Inl (Internal ''compound key: array element separator missing'')
            else skip_encoded_array n bs (offset + 1) asc)))"
      proof (rule skips_rbind)
        show "skips bs off (skip_encoded_value n bs off asc)" using Suc.IH(1) 3 by simp
        fix o' assume o': "off < o'" "o' \<le> length bs"
        show "skips bs o' (rbind (raw_key_byte bs o' asc) (\<lambda>s.
            if s \<noteq> 0 then Inl (Internal ''compound key: array element separator missing'')
            else skip_encoded_array n bs (o' + 1) asc))"
          using Suc.IH(3) [of "o' + 1"] 3 o'
          by (intro skips_raw) (auto intro: skips_basic(4) skips_later [of bs "o' + 1" _ o'])
      qed
      then show "skips bs off (if b = 0 then Inr (off + 1)
        else rbind (skip_encoded_value n bs off asc) (\<lambda>offset. rbind (raw_key_byte bs offset asc) (\<lambda>s.
            if s \<noteq> 0 then Inl (Internal ''compound key: array element separator missing'')
            else skip_encoded_array n bs (offset + 1) asc)))"
        using skips_basic(1) [OF lt] by simp
    qed
  }
qed simp_all

section \<open>Skipping what was encoded\<close>

text \<open>The bytes of the key from an offset on, read in the field's direction.\<close>

fun reads_at :: "bytes \<Rightarrow> nat \<Rightarrow> bool \<Rightarrow> bytes \<Rightarrow> bool" where
  "reads_at bs off asc [] = (off \<le> length bs)"
| "reads_at bs off asc (b # x) = (raw_key_byte bs off asc = Inr b \<and> reads_at bs (off + 1) asc x)"

lemma reads_at_append: "reads_at bs off asc (x @ y) \<longleftrightarrow> reads_at bs off asc x \<and> reads_at bs (off + length x) asc y"
proof (induction x arbitrary: off)
  case Nil
  then show ?case by (cases y) (auto dest: raw_key_byte_Inr)
qed auto

lemma reads_at_le: "reads_at bs off asc x \<Longrightarrow> off + length x \<le> length bs"
  by (induction x arbitrary: off) fastforce+

lemma reads_at_nth: "reads_at (pre @ (if asc then x else map NOT x) @ post) (length pre) asc x"
proof (induction x arbitrary: pre)
  case (Cons b x)
  let ?d = "if asc then b else NOT b"
  have "raw_key_byte (pre @ (if asc then b # x else map NOT (b # x)) @ post) (length pre) asc = Inr b"
    by (simp add: raw_key_byte_def nth_append)
  moreover have "reads_at (pre @ (if asc then b # x else map NOT (b # x)) @ post) (length pre + 1) asc x"
    using Cons [of "pre @ [?d]"] by (cases asc) simp_all
  ultimately show ?case by simp
qed simp

lemma checked_skip_reads:
  "reads_at bs off asc x \<Longrightarrow> length bs < 2 ^ 64 \<Longrightarrow> checked_skip bs off (length x) ctx = Inr (off + length x)"
  using reads_at_le [of bs off asc x] by (simp add: checked_skip_def)

lemma skip_string_step:
  "raw_key_byte bs off asc = Inr b \<Longrightarrow>
    skip_encoded_string bs off asc = (if b = 0 then Inr (off + 1) else skip_encoded_string bs (off + 1) asc)"
  by (subst skip_encoded_string.simps) (auto simp: raw_key_byte_def split: if_splits)

lemma skip_string_reads:
  "reads_at bs off asc (x @ [0]) \<Longrightarrow> 0 \<notin> set x \<Longrightarrow> skip_encoded_string bs off asc = Inr (off + length x + 1)"
  by (induction x arbitrary: off) (auto simp: skip_string_step)

lemma escape_bytes_no_zero: "0 \<notin> set (escape_bytes x)"
  by (induction x) auto

lemma skip_encoded_string_ok:
  "reads_at bs off asc (encode_string_bytes x) \<Longrightarrow>
    skip_encoded_string bs off asc = Inr (off + length (encode_string_bytes x))"
  unfolding encode_string_bytes_def using skip_string_reads [OF _ escape_bytes_no_zero] by simp

lemma length_four: "length xs = 4 \<Longrightarrow> \<exists>a b c d. xs = [a, b, c, d]"
  by (auto simp: numeral_eq_Suc length_Suc_conv)

lemma skip_encoded_binary_ok:
  assumes "reads_at bs off asc (encode_binary st x)" "length bs < 2 ^ 64" "length x < 2 ^ 32"
  shows "skip_encoded_binary bs off asc = Inr (off + length (encode_binary st x))"
proof -
  let ?l = "u32_to_be_bytes (of_nat (length x))"
  obtain b0 b1 b2 b3 where l: "?l = [b0, b1, b2, b3]" using length_four [of ?l] by auto
  have "unat (u32_from_be_bytes ?l) = length x" using assms(3) by (simp add: unat_of_nat)
  then have len: "unat (u32_from_be_bytes [b0, b1, b2, b3]) = length x" by (simp only: l)
  have ra: "raw_key_byte bs (off + 1) asc = Inr b0" "raw_key_byte bs (off + 1 + 1) asc = Inr b1"
    "raw_key_byte bs (off + 1 + 2) asc = Inr b2" "raw_key_byte bs (off + 1 + 3) asc = Inr b3" "reads_at bs (off + 5) asc x"
    using assms(1) by (simp_all add: encode_binary_def l numeral_eq_Suc)
  then have "off + 5 + length x \<le> length bs" using reads_at_le [of bs "off + 5" asc x] by simp
  then have "checked_skip bs off 1 c = Inr (off + 1)" "checked_skip bs (off + 1) 4 c = Inr (off + 5)"
    "checked_skip bs (off + 5) (length x) c = Inr (off + 5 + length x)" for c
    using assms(2) by (simp_all add: checked_skip_def)
  then show ?thesis
    using ra len by (simp add: skip_encoded_binary_def encode_binary_def)
qed

lemma number_length: "length (encode_f64 v) = 17" "length (encode_i64 w) = 17"
  by (simp_all add: encode_f64_def encode_i64_def Let_def)

lemma signed_length: "length (encode_signed_i64_be v) = 8"
  by (simp add: encode_signed_i64_be_def)

lemma skip_value_type:
  assumes "raw_key_byte bs off asc = Inr ty"
  shows "ty \<in> {TYPE_MIN_KEY, TYPE_NULL, TYPE_MAX_KEY} \<Longrightarrow> skip_encoded_value (Suc n) bs off asc = Inr (off + 1)"
    "ty = TYPE_NUMBER \<Longrightarrow> skip_encoded_value (Suc n) bs off asc = checked_skip bs (off + 1) 17 ''number''"
    "ty \<in> {TYPE_SYMBOL, TYPE_STRING} \<Longrightarrow> skip_encoded_value (Suc n) bs off asc = skip_encoded_string bs (off + 1) asc"
    "ty = TYPE_OBJECT \<Longrightarrow> skip_encoded_value (Suc n) bs off asc = skip_encoded_document n bs (off + 1) asc"
    "ty = TYPE_ARRAY \<Longrightarrow> skip_encoded_value (Suc n) bs off asc = skip_encoded_array n bs (off + 1) asc"
    "ty = TYPE_BIN_DATA \<Longrightarrow> skip_encoded_value (Suc n) bs off asc = skip_encoded_binary bs (off + 1) asc"
    "ty = TYPE_OBJECT_ID \<Longrightarrow> skip_encoded_value (Suc n) bs off asc = checked_skip bs (off + 1) 12 ''object id''"
    "ty = TYPE_BOOLEAN \<Longrightarrow> skip_encoded_value (Suc n) bs off asc = checked_skip bs (off + 1) 1 ''boolean''"
    "ty = TYPE_DATE \<Longrightarrow> skip_encoded_value (Suc n) bs off asc = checked_skip bs (off + 1) 8 ''date''"
    "ty = TYPE_TIMESTAMP \<Longrightarrow> skip_encoded_value (Suc n) bs off asc = checked_skip bs (off + 1) 8 ''timestamp''"
    "ty = TYPE_REGEXP \<Longrightarrow> skip_encoded_value (Suc n) bs off asc =
       rbind (skip_encoded_string bs (off + 1) asc) (\<lambda>o'. skip_encoded_string bs o' asc)"
  using assms by (auto simp: Let_def type_bytes)

text \<open>A scalar: what \<open>skip_encoded_value\<close> does on it does not depend on the fuel left.\<close>

lemma skip_scalar_ok:
  assumes "key_safe v" "type_rank v \<notin> {5, 6}" "reads_at bs off asc (encode_into v)" "length bs < 2 ^ 64"
  shows "skip_encoded_value (Suc n) bs off asc = Inr (off + length (encode_into v))"
proof -
  have r: "raw_key_byte bs off asc = Inr (rank_byte (type_rank v))" "reads_at bs (off + 1) asc (encode_payload v)"
    using assms(3) by (simp_all add: encode_into_type)
  have t: "rank_byte (type_rank v) = hd (encode_into v)" by (simp add: encode_into_type)
  note ty = skip_value_type [OF r(1) [unfolded t], where n = n]
  have cs: "checked_skip bs (off + 1) (length (encode_payload v)) ctx = Inr (off + 1 + length (encode_payload v))" for ctx
    by (rule checked_skip_reads [OF r(2) assms(4)])
  show ?thesis
  proof (cases v)
    case (RegularExpression p q)
    have "reads_at bs (off + 1) asc (encode_string_bytes (as_bytes p))"
      "reads_at bs (off + 1 + length (encode_string_bytes (as_bytes p))) asc (encode_string_bytes (as_bytes q))"
      using r(2) unfolding RegularExpression encode_payload_def by (simp_all add: reads_at_append)
    then show ?thesis using ty(11) skip_encoded_string_ok unfolding RegularExpression by simp
  next
    case (Binary st x)
    then show ?thesis using ty(6) skip_encoded_binary_ok [of bs "off + 1" asc st x] r(2) assms(1,4)
      by (simp add: encode_payload_def)
  qed (use ty cs r(2) assms(1,2) number_length signed_length skip_encoded_string_ok in
    \<open>simp_all add: encode_payload_def encode_decimal128_def\<close>)
qed

lemma document_byte_pos:
  assumes "fields_safe ((k, v) # d)" "reads_at bs off asc (encode_document ((k, v) # d))"
  obtains b where "raw_key_byte bs off asc = Inr b" "b \<noteq> 0"
proof -
  obtain c x where "encode_string_bytes (as_bytes k) = c # x" "0 < c"
    using encode_string_head_pos assms(1) by (metis as_bytes_Nil_iff fields_safe.simps(2))
  then show ?thesis using assms(2) that by auto
qed

lemma array_byte_pos:
  assumes "elems_safe (v # xs)" "reads_at bs off asc (encode_array (v # xs))"
  obtains b where "raw_key_byte bs off asc = Inr b" "b \<noteq> 0"
proof -
  obtain c x where "encode_into v = c # x" "0 < c"
    using encode_into_head_pos assms(1) by (metis elems_safe.simps(2))
  then show ?thesis using assms(2) that by auto
qed

lemma skip_document_Cons:
  assumes "fields_safe ((k, v) # d)" "reads_at bs off asc (encode_document ((k, v) # d))"
  shows "skip_encoded_document (Suc n) bs off asc =
    rbind (skip_encoded_value n bs (off + length (encode_string_bytes (as_bytes k))) asc) (\<lambda>o'. skip_encoded_document n bs o' asc)"
proof -
  obtain b where "raw_key_byte bs off asc = Inr b" "b \<noteq> 0" using document_byte_pos [OF assms] .
  moreover have "skip_encoded_string bs off asc = Inr (off + length (encode_string_bytes (as_bytes k)))"
    using skip_encoded_string_ok assms(2) by (simp add: reads_at_append)
  ultimately show ?thesis by simp
qed

lemma skip_value_ok:
  "key_safe v \<Longrightarrow> reads_at bs off asc (encode_into v) \<Longrightarrow> length bs < 2 ^ 64 \<Longrightarrow> length (encode_into v) \<le> n \<Longrightarrow>
     skip_encoded_value n bs off asc = Inr (off + length (encode_into v))"
  "fields_safe d \<Longrightarrow> reads_at bs off asc (encode_document d) \<Longrightarrow> length bs < 2 ^ 64 \<Longrightarrow> length (encode_document d) \<le> n \<Longrightarrow>
     skip_encoded_document n bs off asc = Inr (off + length (encode_document d))"
  "elems_safe xs \<Longrightarrow> reads_at bs off asc (encode_array xs) \<Longrightarrow> length bs < 2 ^ 64 \<Longrightarrow> length (encode_array xs) \<le> n \<Longrightarrow>
     skip_encoded_array n bs off asc = Inr (off + length (encode_array xs))"
proof (induction n arbitrary: v d xs off)
  case 0
  {
    case 1
    then show ?case by (simp add: encode_into_type)
  next
    case 2
    then show ?case by (cases d) (auto simp: encode_string_bytes_def)
  next
    case 3
    then show ?case by (cases xs) auto
  }
next
  case (Suc n)
  {
    case 1
    show ?case
    proof (cases "type_rank v \<in> {5, 6}")
      case True
      then obtain d xs where "v = Document d \<or> v = Array xs" by (cases v) auto
      then show ?thesis
        using 1 Suc.IH(2) [of d "off + 1"] Suc.IH(3) [of xs "off + 1"] skip_value_type(4,5) [of bs off asc] by auto
    next
      case False
      then show ?thesis using skip_scalar_ok 1 by blast
    qed
  next
    case 2
    show ?case
    proof (cases d)
      case Nil
      then show ?thesis using 2 by simp
    next
      case (Cons f e)
      obtain k v where f: "f = (k, v)" by (cases f)
      let ?o = "off + length (encode_string_bytes (as_bytes k))"
      have "length (encode_string_bytes (as_bytes k)) \<ge> 1" by (simp add: encode_string_bytes_def)
      then have le: "length (encode_into v) \<le> n" "length (encode_document e) \<le> n" using 2(4) Cons f by simp_all
      have "skip_encoded_value n bs ?o asc = Inr (?o + length (encode_into v))"
        by (rule Suc.IH(1)) (use 2 Cons f le in \<open>simp_all add: reads_at_append\<close>)
      moreover have "skip_encoded_document n bs (?o + length (encode_into v)) asc =
           Inr (?o + length (encode_into v) + length (encode_document e))"
        by (rule Suc.IH(2)) (use 2 Cons f le in \<open>simp_all add: reads_at_append add.assoc\<close>)
      ultimately show ?thesis using skip_document_Cons [of k v e bs off asc n] 2 unfolding Cons f by (simp add: add.assoc)
    qed
  next
    case 3
    show ?case
    proof (cases xs)
      case Nil
      then show ?thesis using 3 by simp
    next
      case (Cons v ys)
      let ?o = "off + length (encode_into v)"
      obtain b where "raw_key_byte bs off asc = Inr b" "b \<noteq> 0" using array_byte_pos 3 unfolding Cons by blast
      moreover have "skip_encoded_value n bs off asc = Inr ?o" "raw_key_byte bs ?o asc = Inr 0"
        using 3 Cons by (auto simp: reads_at_append intro!: Suc.IH(1))
      moreover have "skip_encoded_array n bs (?o + 1) asc = Inr (?o + 1 + length (encode_array ys))"
        by (rule Suc.IH(3)) (use 3 Cons in \<open>simp_all add: reads_at_append\<close>)
      ultimately show ?thesis unfolding Cons by simp
    qed
  }
qed

section \<open>The range of a unique prefix\<close>

lemma compound_append_id:
  "fs \<noteq> [] \<Longrightarrow> encode_compound_key (fs @ [(i, True)]) = encode_compound_key fs @ COMPOUND_SEP # encode_into i"
  by (induction fs rule: encode_compound_key.induct) (simp_all add: encode_field_def)

lemma compound_Cons:
  "encode_compound_key (f # fs) = encode_field f @ (if fs = [] then [] else COMPOUND_SEP # encode_compound_key fs)"
  by (cases fs) simp_all

lemma require_byte_ok: "require_byte (pre @ b # post) (length pre) b ctx = Inr ()"
  by (simp add: require_byte_def)

lemma skip_field_ok:
  assumes "key_safe (fst f)" "length (pre @ encode_field f @ post) < 2 ^ 64"
  shows "skip_encoded_value (skip_fuel (pre @ encode_field f @ post)) (pre @ encode_field f @ post) (length pre) (snd f)
    = Inr (length pre + length (encode_field f))"
proof -
  have "reads_at (pre @ encode_field f @ post) (length pre) (snd f) (encode_into (fst f))"
    using reads_at_nth [of pre "snd f" "encode_into (fst f)" post] by (simp add: encode_field_def)
  moreover have "length (encode_into (fst f)) = length (encode_field f)" by (simp add: encode_field_def)
  moreover have "length (encode_field f) \<le> skip_fuel (pre @ encode_field f @ post)" by (simp add: skip_fuel_def)
  ultimately show ?thesis using skip_value_ok(1) [OF assms(1) _ assms(2)] by metis
qed

lemma skip_fields_ok:
  assumes "list_all (key_safe \<circ> fst) fs" "length (pre @ sep @ encode_compound_key fs @ post) < 2 ^ 64"
    and "if idx = 0 then sep = [] else sep = [COMPOUND_SEP]" and "fs \<noteq> []"
  shows "skip_fields (pre @ sep @ encode_compound_key fs @ post) (length pre) idx (map snd fs)
    = Inr (length pre + length sep + length (encode_compound_key fs))"
  using assms
proof (induction fs arbitrary: pre sep idx)
  case (Cons f fs)
  let ?rest = "(if fs = [] then [] else COMPOUND_SEP # encode_compound_key fs)"
  let ?key = "pre @ sep @ encode_compound_key (f # fs) @ post"
  have key: "?key = (pre @ sep) @ encode_field f @ (?rest @ post)" unfolding compound_Cons by simp
  have "skip_encoded_value (skip_fuel ?key) ?key (length (pre @ sep)) (snd f) = Inr (length (pre @ sep) + length (encode_field f))"
    unfolding key by (rule skip_field_ok) (use Cons.prems key in \<open>simp_all add: compound_Cons\<close>)
  moreover have "(if idx > 0 then rbind (require_byte ?key (length pre) COMPOUND_SEP ''compound field separator'') (\<lambda>_. Inr (length pre + 1))
      else Inr (length pre)) = Inr (length (pre @ sep))"
    using Cons.prems(3) require_byte_ok by (cases "idx = 0") auto
  moreover have "skip_fields ?key (length (pre @ sep) + length (encode_field f)) (idx + 1) (map snd fs)
      = Inr (length pre + length sep + length (encode_compound_key (f # fs)))"
  proof (cases "fs = []")
    case False
    let ?p = "pre @ sep @ encode_field f"
    have k: "?key = ?p @ [COMPOUND_SEP] @ encode_compound_key fs @ post" unfolding compound_Cons using False by simp
    have "skip_fields (?p @ [COMPOUND_SEP] @ encode_compound_key fs @ post) (length ?p) (idx + 1) (map snd fs) =
        Inr (length ?p + length [COMPOUND_SEP] + length (encode_compound_key fs))"
      by (rule Cons.IH) (use Cons.prems False k in \<open>simp_all add: compound_Cons\<close>)
    then show ?thesis unfolding k using False by (simp add: compound_Cons add.assoc)
  qed simp
  ultimately show ?case by simp
qed simp

text \<open>The keys of a range that starts with a separator and ends just after it.\<close>

lemma prefix_range_iff:
  assumes "free_cmp p q = Some r"
  shows "p @ [COMPOUND_SEP] \<le> q @ COMPOUND_SEP # t \<and> q @ COMPOUND_SEP # t < p @ [2] \<longleftrightarrow> r = Equal"
proof (cases "r = Equal")
  case True
  then have "p = q" using assms by (simp add: free_cmp_Equal)
  then show ?thesis using True by (simp add: COMPOUND_SEP_def flip: linorder_not_less)
next
  case False
  have "free_cmp (p @ [COMPOUND_SEP]) (q @ COMPOUND_SEP # t) = Some r" "free_cmp (p @ [2]) (q @ COMPOUND_SEP # t) = Some r"
    using free_cmp_append [OF assms] False by simp_all
  then have "cmp_of (p @ [COMPOUND_SEP]) (q @ COMPOUND_SEP # t) = r" "cmp_of (p @ [2]) (q @ COMPOUND_SEP # t) = r"
    using free_cmp_lex by metis+
  then show ?thesis using False by (cases r) auto
qed

lemma prefix_range_ok:
  assumes "fs \<noteq> []" "list_all (key_safe \<circ> fst) fs" "length (encode_compound_key (fs @ [(i, True)])) < 2 ^ 64"
  shows "compound_prefix_range_excluding_trailing_id (encode_compound_key (fs @ [(i, True)])) (map snd fs) =
    Inr (encode_compound_key fs @ [COMPOUND_SEP], encode_compound_key fs @ [2])"
proof -
  let ?p = "encode_compound_key fs"
  have "skip_fields (?p @ COMPOUND_SEP # encode_into i) 0 0 (map snd fs) = Inr (length ?p)"
    using skip_fields_ok [of fs "[]" "[]" "COMPOUND_SEP # encode_into i" 0] assms by (simp add: compound_append_id)
  moreover have "saturating_add COMPOUND_SEP 1 = 2" by (simp add: saturating_add_def checked_add_def COMPOUND_SEP_def)
  ultimately show ?thesis
    by (simp add: compound_prefix_range_excluding_trailing_id_def compound_append_id [OF assms(1)] require_byte_ok Let_def butlast_append)
qed

section \<open>Properties\<close>

text \<open>Property C14. The range the uniqueness check scans is exact: for a staged key of a compound
  index the skipper returns a range, and an index key of any other document lies in it
  exactly when its indexed fields equal the staged ones, whatever the two \<open>_id\<close>s are.\<close>

theorem unique_prefix_range_exact:
  assumes "fs \<noteq> []" and "map snd fs = map snd gs" and "list_all (key_safe \<circ> fst) fs" and "list_all (key_safe \<circ> fst) gs"
    and "length (encode_compound_key (fs @ [(i, True)])) < 2 ^ 64"
  shows "\<exists>lo hi. compound_prefix_range_excluding_trailing_id (encode_compound_key (fs @ [(i, True)])) (map snd fs) = Inr (lo, hi) \<and>
    (lo \<le> encode_compound_key (gs @ [(j, True)]) \<and> encode_compound_key (gs @ [(j, True)]) < hi \<longleftrightarrow>
       compound_compare fs gs = Equal)"
proof -
  have "gs \<noteq> []" using assms(1,2) by auto
  then show ?thesis
    using prefix_range_ok [OF assms(1,3,5)] prefix_range_iff [OF compound_free_order [OF assms(2,3,4)]]
    by (simp add: compound_append_id)
qed

theorem unique_prefix_range_exact_witness:
  "\<exists>lo hi. compound_prefix_range_excluding_trailing_id
      (encode_compound_key ([(String ''x'', False)] @ [(Int32 1, True)])) [False] = Inr (lo, hi) \<and>
    lo \<le> encode_compound_key ([(String ''x'', False)] @ [(Int32 2, True)]) \<and>
    encode_compound_key ([(String ''x'', False)] @ [(Int32 2, True)]) < hi"
  using unique_prefix_range_exact [of "[(String ''x'', False)]" "[(String ''x'', False)]" "Int32 1" "Int32 2"]
  by (simp add: field_compare_def scalar_cmp_def str_cmp_def encode_field_def encode_string_bytes_def as_bytes_def number_length)

text \<open>Property C15. Skipping terminates within its fuel on every byte string, valid or not, and
  on success stays inside it and makes progress.\<close>

theorem skip_encoded_value_total:
  "skip_encoded_value (skip_fuel bs) bs off asc \<noteq> Inl fuel_out \<and>
   (\<forall>o'. skip_encoded_value (skip_fuel bs) bs off asc = Inr o' \<longrightarrow> off < o' \<and> o' \<le> length bs)"
  using skip_fuel_enough(1) [of bs off "skip_fuel bs" asc] by (simp add: skips_def skip_fuel_def del: skip_encoded_value.simps)

theorem skip_encoded_value_total_witness:
  "skip_encoded_value (skip_fuel [0x70, 1]) [0x70, 1] 0 True = Inr 2 \<and> (0::nat) < 2"
proof -
  have "skip_encoded_value (skip_fuel [0x70, 1]) [0x70, 1] 0 True = Inr 2"
    using skip_value_type(8) [of "[0x70, 1]" 0 True TYPE_BOOLEAN 5]
    by (simp add: skip_fuel_def raw_key_byte_def checked_skip_def TYPE_BOOLEAN_def del: skip_encoded_value.simps)
  then show ?thesis using skip_encoded_value_total [of "[0x70, 1]" 0 True] by blast
qed


end
