(* ===== verification/Leaf_Node.thy ===== *)
theory Leaf_Node
  imports Pages
begin

text \<open>
  The 32 KiB leaf page of the B+ tree (\<open>storage/btree/leaf_node.rs\<close>, \<open>layout.rs\<close>, and the
  folded-leaf helpers of \<open>storage/btree/reconcile.rs\<close>): cells are written from the end
  of the page downwards, a pointer array of two-byte offsets grows from the header.
\<close>

unbundle bit_operations_syntax

section \<open>Cells\<close>

datatype cell_value = Cell_Inline bytes | Cell_Overflow (cv_first_page: u32) (cv_total_length: u32)

record leaf_cell =
  cell_key :: bytes
  cell_val :: cell_value

record leaf_node =
  ln_flags :: u8
  ln_next_leaf_page :: u32
  ln_prev_leaf_page :: u32
  ln_cells :: "leaf_cell list"

definition leaf_cell_value_size :: "nat \<Rightarrow> nat" where
  "leaf_cell_value_size value_len = (if value_len > OVERFLOW_THRESHOLD then 8 else 4 + value_len)"

definition leaf_cell_encoded_size :: "nat \<Rightarrow> nat \<Rightarrow> nat" where
  "leaf_cell_encoded_size key_len value_size = 2 + key_len + 1 + value_size"

definition encoded_size :: "leaf_cell \<Rightarrow> nat" where
  "encoded_size c = leaf_cell_encoded_size (length (cell_key c))
     (case cell_val c of Cell_Inline v \<Rightarrow> 4 + length v | Cell_Overflow _ _ \<Rightarrow> 8)"

definition used_bytes_for_cells :: "leaf_cell list \<Rightarrow> nat" where
  "used_bytes_for_cells cells = LEAF_HEADER_SIZE + length cells * 2 + sum_list (map encoded_size cells)"

definition used_bytes :: "leaf_node \<Rightarrow> nat" where
  "used_bytes n = used_bytes_for_cells (ln_cells n)"

definition free_bytes :: "leaf_node \<Rightarrow> nat" where
  "free_bytes n = PAGE_SIZE_LEAF - used_bytes n"

definition can_insert :: "leaf_node \<Rightarrow> nat \<Rightarrow> bool" where
  "can_insert n cell_size \<longleftrightarrow> free_bytes n \<ge> cell_size + 2"

definition MIN_LEAF_CELLS :: nat where "MIN_LEAF_CELLS = 4"
definition MIN_LEAF_BYTES :: nat where "MIN_LEAF_BYTES = PAGE_SIZE_LEAF div 2"

definition needs_rebalance :: "leaf_node \<Rightarrow> bool" where
  "needs_rebalance n \<longleftrightarrow> length (ln_cells n) < MIN_LEAF_CELLS \<or> used_bytes n < MIN_LEAF_BYTES"

section \<open>Parsing\<close>

definition cell_value_at :: "bytes \<Rightarrow> nat \<Rightarrow> cell_value result" where
  "cell_value_at data offset =
    rbind (rguard (offset + 2 \<le> length data) (Internal ''leaf cell out of bounds'')) (\<lambda>_.
      let key_len = unat (u16_at data offset); pos = offset + 2 in
    rbind (rguard (pos + key_len + 1 \<le> length data) (Internal ''leaf cell: key or value_type out of bounds'')) (\<lambda>_.
      let value_type = data ! (pos + key_len); value_pos = pos + key_len + 1 in
      if value_type = VALUE_TYPE_INLINE then
        rbind (rguard (value_pos + 4 \<le> length data) (Internal ''leaf cell: inline bson_len out of bounds'')) (\<lambda>_.
          let bson_len = unat (u32_at data value_pos); data_start = value_pos + 4 in
        rbind (rguard (data_start + bson_len \<le> length data) (Internal ''leaf cell: inline bson data out of bounds'')) (\<lambda>_.
          Inr (Cell_Inline (sub data data_start (data_start + bson_len)))))
      else if value_type = VALUE_TYPE_OVERFLOW then
        rbind (rguard (value_pos + 8 \<le> length data) (Internal ''leaf cell: overflow pointer out of bounds'')) (\<lambda>_.
          Inr (Cell_Overflow (u32_at data value_pos) (u32_at data (value_pos + 4))))
      else Inl (Internal ''unknown cell value type'')))"

definition parse_cell :: "bytes \<Rightarrow> nat \<Rightarrow> leaf_cell result" where
  "parse_cell data offset =
    rbind (rguard (offset + 2 \<le> length data) (Internal ''leaf cell out of bounds'')) (\<lambda>_.
      let key_len = unat (u16_at data offset); pos = offset + 2 in
    rbind (rguard (pos + key_len + 1 \<le> length data) (Internal ''leaf cell: key or value_type out of bounds'')) (\<lambda>_.
    rbind (cell_value_at data offset) (\<lambda>value.
      Inr \<lparr>cell_key = sub data pos (pos + key_len), cell_val = value\<rparr>)))"

text \<open>The loop of \<open>parse\<close> over cells \<open>i .. n - 1\<close>; a pointer is in bounds by the check before it.\<close>

fun parse_cells :: "bytes \<Rightarrow> nat \<Rightarrow> nat \<Rightarrow> leaf_cell list result" where
  "parse_cells data i 0 = Inr []"
| "parse_cells data i (Suc left) =
    rbind (parse_cell data (unat (u16_at data (LEAF_HEADER_SIZE + i * 2)))) (\<lambda>cell.
    rbind (parse_cells data (i + 1) left) (\<lambda>cells. Inr (cell # cells)))"

definition parse :: "bytes \<Rightarrow> leaf_node result" where
  "parse data =
    rbind (leaf_from_bytes data) (\<lambda>hdr.
    rbind (leaf_validate_type hdr) (\<lambda>_.
      let n = unat (lh_entry_count hdr) in
    rbind (rguard (LEAF_HEADER_SIZE + n * 2 \<le> length data) (Internal ''leaf page: cell pointer array out of bounds'')) (\<lambda>_.
    rbind (parse_cells data 0 n) (\<lambda>cells.
      Inr \<lparr>ln_flags = lh_flags hdr, ln_next_leaf_page = lh_next_leaf_page hdr,
        ln_prev_leaf_page = lh_prev_leaf_page hdr, ln_cells = cells\<rparr>))))"

definition cell_offset_at :: "bytes \<Rightarrow> nat \<Rightarrow> nat result" where
  "cell_offset_at data index = (let ptr_offset = LEAF_HEADER_SIZE + index * 2 in
    rbind (rguard (ptr_offset + 2 \<le> length data) (Internal ''leaf page: cell pointer out of bounds'')) (\<lambda>_.
      Inr (unat (u16_at data ptr_offset))))"

definition cell_key_at :: "bytes \<Rightarrow> nat \<Rightarrow> bytes result" where
  "cell_key_at data index =
    rbind (cell_offset_at data index) (\<lambda>offset.
    rbind (rguard (offset + 2 \<le> length data) (Internal ''leaf cell out of bounds'')) (\<lambda>_.
      let key_len = unat (u16_at data offset); pos = offset + 2 in
    rbind (rguard (pos + key_len \<le> length data) (Internal ''leaf cell: key out of bounds'')) (\<lambda>_.
      Inr (sub data pos (pos + key_len)))))"

text \<open>Binary search over the pointer array.\<close>

function cell_value_search :: "bytes \<Rightarrow> bytes \<Rightarrow> nat \<Rightarrow> nat \<Rightarrow> cell_value option result" where
  "cell_value_search data key left right =
    (if left < right then
       let mid = left + (right - left) div 2 in
       rbind (cell_key_at data mid) (\<lambda>mid_key.
         if mid_key < key then cell_value_search data key (mid + 1) right
         else if mid_key = key then
           rbind (cell_offset_at data mid) (\<lambda>offset.
           rbind (cell_value_at data offset) (\<lambda>v. Inr (Some v)))
         else cell_value_search data key left mid)
     else Inr None)"
  by pat_completeness auto
termination
  by (relation "measure (\<lambda>(_, _, left, right). right - left)") auto

declare cell_value_search.simps [simp del]

definition lookup_cell_value :: "bytes \<Rightarrow> bytes \<Rightarrow> cell_value option result" where
  "lookup_cell_value data key =
    rbind (leaf_from_bytes data) (\<lambda>hdr.
    rbind (leaf_validate_type hdr) (\<lambda>_.
      let n = unat (lh_entry_count hdr) in
    rbind (rguard (LEAF_HEADER_SIZE + n * 2 \<le> length data) (Internal ''leaf page: cell pointer array out of bounds'')) (\<lambda>_.
      cell_value_search data key 0 n)))"

section \<open>Encoding\<close>

definition encode_cell :: "leaf_cell \<Rightarrow> bytes" where
  "encode_cell c = u16_to_le_bytes (of_nat (length (cell_key c))) @ cell_key c @
    (case cell_val c of
       Cell_Inline bson \<Rightarrow> VALUE_TYPE_INLINE # u32_to_le_bytes (of_nat (length bson)) @ bson
     | Cell_Overflow first_page total_length \<Rightarrow>
         VALUE_TYPE_OVERFLOW # u32_to_le_bytes first_page @ u32_to_le_bytes total_length)"

fun write_cells :: "leaf_cell list \<Rightarrow> nat \<Rightarrow> nat \<Rightarrow> bytes \<Rightarrow> bytes" where
  "write_cells [] i write_pos buf = buf"
| "write_cells (c # cs) i write_pos buf =
    (let write_pos = write_pos - encoded_size c in
     write_cells cs (i + 1) write_pos
       (put (put buf (LEAF_HEADER_SIZE + i * 2) (u16_to_le_bytes (of_nat write_pos))) write_pos (encode_cell c)))"

definition has_overflow :: "leaf_node \<Rightarrow> bool" where
  "has_overflow n = list_ex (\<lambda>c. case cell_val c of Cell_Overflow _ _ \<Rightarrow> True | _ \<Rightarrow> False) (ln_cells n)"

definition encoded_flags :: "leaf_node \<Rightarrow> u8" where
  "encoded_flags n = (if has_overflow n then ln_flags n OR LEAF_FLAG_HAS_OVERFLOW
     else ln_flags n AND NOT LEAF_FLAG_HAS_OVERFLOW)"

definition encoded_header :: "leaf_node \<Rightarrow> leaf_page_header" where
  "encoded_header n = \<lparr>lh_page_type = PAGE_TYPE_LEAF, lh_flags = encoded_flags n,
     lh_entry_count = of_nat (length (ln_cells n)), lh_checksum = 0,
     lh_next_leaf_page = ln_next_leaf_page n, lh_prev_leaf_page = ln_prev_leaf_page n,
     lh_free_space_offset = of_nat (LEAF_HEADER_SIZE + length (ln_cells n) * 2),
     lh_cell_ptr_offset = of_nat LEAF_HEADER_SIZE\<rparr>"

definition encode :: "(bytes \<Rightarrow> u32) \<Rightarrow> (u32 \<Rightarrow> bytes \<Rightarrow> u32) \<Rightarrow> leaf_node \<Rightarrow> bytes result" where
  "encode crc crc_append n =
    (if used_bytes n > PAGE_SIZE_LEAF then Inl (Internal ''leaf node too large'')
     else
       let buf = write_cells (ln_cells n) 0 PAGE_SIZE_LEAF (replicate PAGE_SIZE_LEAF 0);
           buf = leaf_write_to (encoded_header n) buf
       in Inr (put buf 4 (u32_to_le_bytes (leaf_page_checksum crc crc_append buf))))"

section \<open>Folded leaves\<close>

record folded_leaf_links =
  fl_next_leaf_page :: u32
  fl_prev_leaf_page :: u32

record folded_leaf_image =
  fi_cells :: "leaf_cell list"
  fi_links :: folded_leaf_links

definition encode_folded_leaf ::
  "(bytes \<Rightarrow> u32) \<Rightarrow> (u32 \<Rightarrow> bytes \<Rightarrow> u32) \<Rightarrow> leaf_cell list \<Rightarrow> folded_leaf_links \<Rightarrow> bytes result" where
  "encode_folded_leaf crc crc_append winners links =
    encode crc crc_append \<lparr>ln_flags = 0, ln_next_leaf_page = fl_next_leaf_page links,
      ln_prev_leaf_page = fl_prev_leaf_page links, ln_cells = winners\<rparr>"

definition decode_folded_leaf :: "bytes \<Rightarrow> folded_leaf_image result" where
  "decode_folded_leaf img = rbind (parse img) (\<lambda>node.
    Inr \<lparr>fi_cells = ln_cells node, fi_links = \<lparr>fl_next_leaf_page = ln_next_leaf_page node,
      fl_prev_leaf_page = ln_prev_leaf_page node\<rparr>\<rparr>)"

section \<open>Reading back what was written\<close>

definition cell_at :: "bytes \<Rightarrow> nat \<Rightarrow> leaf_cell \<Rightarrow> bool" where
  "cell_at buf off c \<longleftrightarrow> off + length (encode_cell c) \<le> length buf \<and> sub buf off (off + length (encode_cell c)) = encode_cell c"

definition cell_small :: "leaf_cell \<Rightarrow> bool" where
  "cell_small c \<longleftrightarrow> length (cell_key c) < 2 ^ 16 \<and> (case cell_val c of Cell_Inline v \<Rightarrow> length v < 2 ^ 32 | _ \<Rightarrow> True)"

lemma length_encode_cell [simp]: "length (encode_cell c) = encoded_size c"
  by (auto simp: encode_cell_def encoded_size_def leaf_cell_encoded_size_def split: cell_value.split)

text \<open>Peeling a prefix off a written range.\<close>

lemma sub_prefix:
  assumes "sub buf off (off + length (x @ y)) = x @ y" "off + length (x @ y) \<le> length buf"
  shows "sub buf off (off + length x) = x" "sub buf (off + length x) (off + length x + length y) = y"
    "off + length x + length y \<le> length buf"
  using sub_append_parts [of buf off x y] assms by (simp_all add: add.assoc)

lemma cell_at_parse:
  assumes at: "cell_at buf off c" and small: "cell_small c"
  shows "parse_cell buf off = Inr c"
    and "cell_value_at buf off = Inr (cell_val c)"
    and "off + 2 \<le> length buf" "unat (u16_at buf off) = length (cell_key c)"
    and "off + 2 + length (cell_key c) \<le> length buf" "sub buf (off + 2) (off + 2 + length (cell_key c)) = cell_key c"
proof -
  define rest where "rest = (case cell_val c of
       Cell_Inline bson \<Rightarrow> VALUE_TYPE_INLINE # u32_to_le_bytes (of_nat (length bson)) @ bson
     | Cell_Overflow first_page total_length \<Rightarrow>
         VALUE_TYPE_OVERFLOW # u32_to_le_bytes first_page @ u32_to_le_bytes total_length)"
  have enc: "encode_cell c = u16_to_le_bytes (of_nat (length (cell_key c))) @ cell_key c @ rest"
    by (simp add: encode_cell_def rest_def)
  note p1 = sub_prefix [OF at [unfolded cell_at_def enc, THEN conjunct2] at [unfolded cell_at_def enc, THEN conjunct1]]
  show klen: "unat (u16_at buf off) = length (cell_key c)"
    using p1(1) small by (simp add: u16_at_def cell_small_def unat_of_nat)
  note p2 = sub_prefix [of buf "off + 2" "cell_key c" rest]
  let ?v = "off + 2 + length (cell_key c)"
  have rest: "sub buf ?v (?v + length rest) = rest" "?v + length rest \<le> length buf"
    and key: "sub buf (off + 2) ?v = cell_key c"
    using p1 p2 by simp_all
  have ne: "rest \<noteq> []" by (auto simp: rest_def split: cell_value.split)
  then have bounds: "?v + 1 \<le> length buf" using rest(2) by (cases rest) simp_all
  then show "off + 2 \<le> length buf" "?v \<le> length buf" "sub buf (off + 2) ?v = cell_key c" using key by simp_all
  have "cell_value_at buf off = Inr (cell_val c)"
  proof (cases "cell_val c")
    case (Cell_Inline v)
    let ?l = "u32_to_le_bytes (of_nat (length v))"
    have r: "rest = [VALUE_TYPE_INLINE] @ ?l @ v" using Cell_Inline by (simp add: rest_def)
    note q1 = sub_prefix [of buf ?v "[VALUE_TYPE_INLINE]" "?l @ v"]
    note q2 = sub_prefix [of buf "?v + 1" ?l v]
    have "buf ! ?v = VALUE_TYPE_INLINE" using q1(1) rest r nth_of_sub by simp
    moreover have "unat (u32_at buf (?v + 1)) = length v" "?v + 5 + length v \<le> length buf"
      "sub buf (?v + 5) (?v + 5 + length v) = v"
      using q1 q2 rest r Cell_Inline small by (simp_all add: u32_at_def cell_small_def unat_of_nat)
    ultimately show ?thesis using Cell_Inline klen by (simp add: cell_value_at_def Let_def)
  next
    case (Cell_Overflow f t)
    have r: "rest = [VALUE_TYPE_OVERFLOW] @ u32_to_le_bytes f @ u32_to_le_bytes t" using Cell_Overflow by (simp add: rest_def)
    note q1 = sub_prefix [of buf ?v "[VALUE_TYPE_OVERFLOW]" "u32_to_le_bytes f @ u32_to_le_bytes t"]
    note q2 = sub_prefix [of buf "?v + 1" "u32_to_le_bytes f" "u32_to_le_bytes t"]
    have "buf ! ?v = VALUE_TYPE_OVERFLOW" using q1(1) rest r nth_of_sub by simp
    moreover have "u32_at buf (?v + 1) = f" "u32_at buf (?v + 5) = t" "?v + 9 \<le> length buf"
      using q1 q2 rest r by (simp_all add: u32_at_def)
    ultimately show ?thesis using Cell_Overflow klen by (simp add: cell_value_at_def Let_def VALUE_TYPE_INLINE_def VALUE_TYPE_OVERFLOW_def)
  qed
  then show "cell_value_at buf off = Inr (cell_val c)" "parse_cell buf off = Inr c"
    using klen bounds key by (simp_all add: parse_cell_def Let_def)
qed

fun cell_positions :: "leaf_cell list \<Rightarrow> nat \<Rightarrow> nat list" where
  "cell_positions [] wp = []"
| "cell_positions (c # cs) wp = (wp - encoded_size c) # cell_positions cs (wp - encoded_size c)"

lemma length_cell_positions [simp]: "length (cell_positions cs wp) = length cs"
  by (induction cs arbitrary: wp) simp_all

definition laid_out :: "bytes \<Rightarrow> nat \<Rightarrow> leaf_cell list \<Rightarrow> nat list \<Rightarrow> bool" where
  "laid_out buf i cs ps \<longleftrightarrow> length ps = length cs \<and>
     (\<forall>j < length cs. unat (u16_at buf (LEAF_HEADER_SIZE + (i + j) * 2)) = ps ! j \<and> cell_at buf (ps ! j) (cs ! j))"

lemma write_cells_layout:
  assumes "LEAF_HEADER_SIZE + (i + length cs) * 2 + sum_list (map encoded_size cs) \<le> wp"
    and "wp \<le> length buf" and "length buf \<le> 2 ^ 16"
  shows "length (write_cells cs i wp buf) = length buf \<and>
    (\<forall>a b. b \<le> LEAF_HEADER_SIZE + i * 2 \<longrightarrow> sub (write_cells cs i wp buf) a b = sub buf a b) \<and>
    (\<forall>a b. wp \<le> a \<longrightarrow> sub (write_cells cs i wp buf) a b = sub buf a b) \<and>
    laid_out (write_cells cs i wp buf) i cs (cell_positions cs wp)"
  using assms
proof (induction cs arbitrary: i wp buf)
  case Nil
  then show ?case by (simp add: laid_out_def)
next
  case (Cons c cs)
  define wp' where "wp' = wp - encoded_size c"
  define ptr where "ptr = LEAF_HEADER_SIZE + i * 2"
  define b1 where "b1 = put buf ptr (u16_to_le_bytes (of_nat wp'))"
  define b2 where "b2 = put b1 wp' (encode_cell c)"
  define r where "r = write_cells cs (i + 1) wp' b2"
  have room: "encoded_size c \<le> wp" "ptr + 2 \<le> wp'" "wp' + encoded_size c = wp"
    using Cons.prems by (simp_all add: wp'_def ptr_def)
  have pos: "0 < encoded_size c" by (simp add: encoded_size_def leaf_cell_encoded_size_def)
  have l1: "length b1 = length buf" using room Cons.prems by (simp add: b1_def)
  then have l2: "length b2 = length buf" using room Cons.prems by (simp add: b2_def)
  have "LEAF_HEADER_SIZE + (i + 1 + length cs) * 2 + sum_list (map encoded_size cs) \<le> wp'"
    using Cons.prems by (simp add: wp'_def)
  then have ih: "length r = length b2"
    "\<And>a b. b \<le> ptr + 2 \<Longrightarrow> sub r a b = sub b2 a b" "\<And>a b. wp' \<le> a \<Longrightarrow> sub r a b = sub b2 a b"
    "laid_out r (i + 1) cs (cell_positions cs wp')"
    using Cons.IH [of "i + 1" wp' b2] Cons.prems room l2 by (simp_all add: r_def ptr_def)
  have low: "sub r a b = sub buf a b" if "b \<le> ptr" for a b
    using that ih(2) [of b a] room Cons.prems l1
    by (simp add: b2_def b1_def sub_put_before)
  have high: "sub r a b = sub buf a b" if "wp \<le> a" for a b
  proof -
    have "sub r a b = sub b2 a b" using that room by (intro ih(3)) simp
    also have "\<dots> = sub b1 a b" unfolding b2_def using that room l1 Cons.prems by (intro sub_put_after) simp_all
    also have "\<dots> = sub buf a b" unfolding b1_def using that room Cons.prems by (intro sub_put_after) simp_all
    finally show ?thesis .
  qed
  have p: "unat (u16_at r ptr) = wp'"
  proof -
    have "u16_at r ptr = u16_at b2 ptr" unfolding u16_at_def by (subst ih(2)) simp_all
    also have "\<dots> = u16_at b1 ptr" unfolding b2_def using room l1 Cons.prems by (intro at_put_other(1)) simp_all
    also have "\<dots> = of_nat wp'" unfolding b1_def using room Cons.prems by (intro int_at_put_same(1)) simp
    finally show ?thesis using room pos Cons.prems by (simp add: unat_of_nat)
  qed
  have c: "cell_at r wp' c"
    using ih(1,3) l1 l2 room Cons.prems sub_put_same [of wp' "encode_cell c" b1] by (simp add: cell_at_def b2_def)
  have "laid_out r i (c # cs) (wp' # cell_positions cs wp')"
    unfolding laid_out_def
  proof (intro conjI allI impI)
    fix j assume "j < length (c # cs)"
    then show "unat (u16_at r (LEAF_HEADER_SIZE + (i + j) * 2)) = (wp' # cell_positions cs wp') ! j"
      "cell_at r ((wp' # cell_positions cs wp') ! j) ((c # cs) ! j)"
      using p c ih(4) by (cases j; simp add: ptr_def laid_out_def)+
  qed simp
  moreover have "write_cells (c # cs) i wp buf = r" by (simp add: r_def b2_def b1_def wp'_def ptr_def Let_def)
  ultimately show ?case using ih(1) l2 low high by (simp add: wp'_def [symmetric] ptr_def)
qed

lemma parse_cells_laid_out:
  "laid_out buf i cs ps \<Longrightarrow> list_all cell_small cs \<Longrightarrow> parse_cells buf i (length cs) = Inr cs"
proof (induction cs arbitrary: i ps)
  case (Cons c cs)
  then obtain p qs where ps: "ps = p # qs" by (cases ps) (auto simp: laid_out_def)
  have "unat (u16_at buf (LEAF_HEADER_SIZE + i * 2)) = p" "cell_at buf p c"
    using Cons.prems(1) by (force simp: laid_out_def ps)+
  then have "parse_cell buf (unat (u16_at buf (LEAF_HEADER_SIZE + i * 2))) = Inr c"
    using cell_at_parse(1) Cons.prems(2) by simp
  moreover have "laid_out buf (i + 1) cs qs"
    using Cons.prems(1) unfolding laid_out_def ps by (auto simp: nth_Cons' dest!: spec [where x = "Suc _"])
  ultimately show ?case using Cons.IH Cons.prems(2) by simp
qed simp

lemma cell_positions_ge:
  "b + sum_list (map encoded_size cs) \<le> wp \<Longrightarrow> p \<in> set (cell_positions cs wp) \<Longrightarrow> b \<le> p"
proof (induction cs arbitrary: wp)
  case (Cons c cs)
  have "b + sum_list (map encoded_size cs) \<le> wp - encoded_size c" using Cons.prems(1) by simp
  then show ?case using Cons.IH Cons.prems(2) by fastforce
qed simp

lemma laid_out_cong:
  assumes "laid_out buf i cs ps" "length r = length buf" "\<And>p. p \<in> set ps \<Longrightarrow> LEAF_HEADER_SIZE \<le> p"
    and "\<And>a b. LEAF_HEADER_SIZE \<le> a \<Longrightarrow> sub r a b = sub buf a b"
  shows "laid_out r i cs ps"
  using assms by (auto simp: laid_out_def u16_at_def cell_at_def)

lemma leaf_write_to_frame:
  assumes "LEAF_HEADER_SIZE \<le> length buf"
  shows "length (leaf_write_to h buf) = length buf"
    and "LEAF_HEADER_SIZE \<le> a \<Longrightarrow> sub (leaf_write_to h buf) a b = sub buf a b"
  using assms by (simp_all add: leaf_write_to_def LEAF_HEADER_SIZE_def sub_put_after)

lemma used_bytes_bounds:
  assumes "used_bytes n \<le> PAGE_SIZE_LEAF"
  shows "list_all cell_small (ln_cells n)" "length (ln_cells n) < 2 ^ 16"
    "LEAF_HEADER_SIZE + length (ln_cells n) * 2 \<le> PAGE_SIZE_LEAF"
proof -
  have s: "LEAF_HEADER_SIZE + length (ln_cells n) * 2 + sum_list (map encoded_size (ln_cells n)) \<le> PAGE_SIZE_LEAF"
    using assms by (simp add: used_bytes_def used_bytes_for_cells_def)
  have "encoded_size c \<le> PAGE_SIZE_LEAF" if "c \<in> set (ln_cells n)" for c
    using member_le_sum_list [of "encoded_size c" "map encoded_size (ln_cells n)"] that s by simp
  then have "cell_small c" if "c \<in> set (ln_cells n)" for c
    using that by (fastforce simp: cell_small_def encoded_size_def leaf_cell_encoded_size_def PAGE_SIZE_LEAF_def split: cell_value.split)
  then show "list_all cell_small (ln_cells n)" by (simp add: list_all_iff)
  show "length (ln_cells n) < 2 ^ 16" "LEAF_HEADER_SIZE + length (ln_cells n) * 2 \<le> PAGE_SIZE_LEAF"
    using s by (simp_all add: PAGE_SIZE_LEAF_def LEAF_HEADER_SIZE_def)
qed

lemma encode_layout:
  assumes "encode crc crc_append n = Inr page"
  shows "length page = PAGE_SIZE_LEAF"
    and "\<exists>hdr. leaf_from_bytes page = Inr hdr \<and> lh_page_type hdr = PAGE_TYPE_LEAF \<and> lh_flags hdr = encoded_flags n \<and>
      unat (lh_entry_count hdr) = length (ln_cells n) \<and>
      lh_next_leaf_page hdr = ln_next_leaf_page n \<and> lh_prev_leaf_page hdr = ln_prev_leaf_page n"
    and "\<exists>ps. laid_out page 0 (ln_cells n) ps"
    and "used_bytes n \<le> PAGE_SIZE_LEAF"
proof -
  let ?buf = "write_cells (ln_cells n) 0 PAGE_SIZE_LEAF (replicate PAGE_SIZE_LEAF 0)"
  let ?ps = "cell_positions (ln_cells n) PAGE_SIZE_LEAF"
  show u: "used_bytes n \<le> PAGE_SIZE_LEAF" using assms by (simp add: encode_def Let_def split: if_splits)
  note bounds = used_bytes_bounds [OF u]
  let ?hdr = "encoded_header n"
  obtain cs where page: "page = put (leaf_write_to ?hdr ?buf) 4 (u32_to_le_bytes cs)"
    using assms u by (auto simp: encode_def Let_def)
  have room: "LEAF_HEADER_SIZE + (0 + length (ln_cells n)) * 2 + sum_list (map encoded_size (ln_cells n)) \<le> PAGE_SIZE_LEAF"
    using u by (simp add: used_bytes_def used_bytes_for_cells_def)
  have "(PAGE_SIZE_LEAF :: nat) \<le> 2 ^ 16" by (simp add: PAGE_SIZE_LEAF_def)
  then have w: "length ?buf = PAGE_SIZE_LEAF" "laid_out ?buf 0 (ln_cells n) ?ps"
    using write_cells_layout [OF room, of "replicate PAGE_SIZE_LEAF 0"] by simp_all
  have hs: "LEAF_HEADER_SIZE \<le> PAGE_SIZE_LEAF" by (simp add: LEAF_HEADER_SIZE_def PAGE_SIZE_LEAF_def)
  let ?lw = "leaf_write_to ?hdr ?buf"
  have lw: "length ?lw = PAGE_SIZE_LEAF" using leaf_write_to_frame(1) w hs by simp
  then show len: "length page = PAGE_SIZE_LEAF" unfolding page by (simp add: PAGE_SIZE_LEAF_def)
  have ge: "LEAF_HEADER_SIZE \<le> p" if "p \<in> set ?ps" for p
    by (rule cell_positions_ge [OF _ that]) (use room in simp)
  have "laid_out page 0 (ln_cells n) ?ps"
  proof (rule laid_out_cong [OF w(2)])
    show "sub page a b = sub ?buf a b" if "LEAF_HEADER_SIZE \<le> a" for a b
      using that leaf_write_to_frame(2) [of ?buf a ?hdr b] w hs lw
      unfolding page by (simp add: sub_put_after LEAF_HEADER_SIZE_def PAGE_SIZE_LEAF_def)
  qed (use ge len w in simp_all)
  then show "\<exists>ps. laid_out page 0 (ln_cells n) ps" ..
  have "leaf_from_bytes ?lw = Inr ?hdr" using leaf_header_roundtrip w hs by simp
  then have "leaf_from_bytes page = Inr (?hdr\<lparr>lh_checksum := cs\<rparr>)"
    unfolding page by (rule leaf_checksum_patch)
  then show "\<exists>hdr. leaf_from_bytes page = Inr hdr \<and> lh_page_type hdr = PAGE_TYPE_LEAF \<and> lh_flags hdr = encoded_flags n \<and>
      unat (lh_entry_count hdr) = length (ln_cells n) \<and>
      lh_next_leaf_page hdr = ln_next_leaf_page n \<and> lh_prev_leaf_page hdr = ln_prev_leaf_page n"
    using bounds(2) by (intro exI [of _ "?hdr\<lparr>lh_checksum := cs\<rparr>"]) (simp add: unat_of_nat encoded_header_def)
qed

lemma parse_encode:
  assumes "encode crc crc_append n = Inr page"
  shows "parse page = Inr (n\<lparr>ln_flags := encoded_flags n\<rparr>)"
proof -
  obtain hdr where h: "leaf_from_bytes page = Inr hdr" "lh_page_type hdr = PAGE_TYPE_LEAF" "lh_flags hdr = encoded_flags n"
      "unat (lh_entry_count hdr) = length (ln_cells n)" "lh_next_leaf_page hdr = ln_next_leaf_page n"
      "lh_prev_leaf_page hdr = ln_prev_leaf_page n"
    using encode_layout(2) [OF assms] by blast
  obtain ps where "laid_out page 0 (ln_cells n) ps" using encode_layout(3) [OF assms] by blast
  note b = used_bytes_bounds [OF encode_layout(4) [OF assms]]
  have "parse_cells page 0 (length (ln_cells n)) = Inr (ln_cells n)"
    by (rule parse_cells_laid_out) (fact | fact b(1))+
  then show ?thesis using h b(3) encode_layout(1) [OF assms] by (simp add: parse_def leaf_validate_type_def Let_def)
qed

section \<open>Lookup\<close>

definition cell_map :: "leaf_cell list \<Rightarrow> bytes \<Rightarrow> cell_value option" where
  "cell_map cs = map_of (map (\<lambda>c. (cell_key c, cell_val c)) cs)"

definition sorted_cells :: "leaf_cell list \<Rightarrow> bool" where
  "sorted_cells cs \<longleftrightarrow> sorted_wrt (<) (map cell_key cs)"

lemma cell_map_Some:
  assumes "sorted_cells cs" "j < length cs"
  shows "cell_map cs (cell_key (cs ! j)) = Some (cell_val (cs ! j))"
proof -
  have "distinct (map cell_key cs)" using assms(1) strict_sorted_iff by (auto simp: sorted_cells_def)
  then show ?thesis using assms(2) unfolding cell_map_def
    by (intro map_of_is_SomeI) (auto simp: comp_def)
qed

lemma cell_map_None: "(\<And>j. j < length cs \<Longrightarrow> cell_key (cs ! j) \<noteq> k) \<Longrightarrow> cell_map cs k = None"
  unfolding cell_map_def map_of_eq_None_iff by (force simp: in_set_conv_nth)

text \<open>The probes of the binary search find the keys and values of the cells.\<close>

definition probes :: "bytes \<Rightarrow> leaf_cell list \<Rightarrow> bool" where
  "probes page cs \<longleftrightarrow> (\<forall>j < length cs. cell_key_at page j = Inr (cell_key (cs ! j)) \<and>
     (\<exists>off. cell_offset_at page j = Inr off \<and> cell_value_at page off = Inr (cell_val (cs ! j))))"

lemma parse_cells_nth:
  "parse_cells page i n = Inr cs \<Longrightarrow> length cs = n \<and>
    (\<forall>j < n. parse_cell page (unat (u16_at page (LEAF_HEADER_SIZE + (i + j) * 2))) = Inr (cs ! j))"
proof (induction n arbitrary: i cs)
  case (Suc n)
  obtain c ds where c: "parse_cell page (unat (u16_at page (LEAF_HEADER_SIZE + i * 2))) = Inr c"
      "parse_cells page (i + 1) n = Inr ds" "cs = c # ds"
    using Suc.prems by (auto simp: rbind_Inr_iff)
  show ?case
  proof (intro conjI allI impI)
    show "length cs = Suc n" using Suc.IH [OF c(2)] c(3) by simp
    fix j assume "j < Suc n"
    then show "parse_cell page (unat (u16_at page (LEAF_HEADER_SIZE + (i + j) * 2))) = Inr (cs ! j)"
      using Suc.IH [OF c(2)] c(1,3) by (cases j) simp_all
  qed
qed simp

lemma parse_cell_parts:
  assumes "parse_cell page off = Inr c"
  shows "cell_value_at page off = Inr (cell_val c)" "off + 2 \<le> length page"
    "off + 2 + unat (u16_at page off) \<le> length page" "sub page (off + 2) (off + 2 + unat (u16_at page off)) = cell_key c"
  using assms by (auto simp: parse_cell_def Let_def rbind_Inr_iff)

lemma parse_probes:
  assumes "parse page = Inr n"
  shows "probes page (ln_cells n)"
    and "\<exists>hdr. leaf_from_bytes page = Inr hdr \<and> leaf_validate_type hdr = Inr () \<and> unat (lh_entry_count hdr) = length (ln_cells n) \<and>
      LEAF_HEADER_SIZE + length (ln_cells n) * 2 \<le> length page"
proof -
  obtain hdr where h: "leaf_from_bytes page = Inr hdr" "leaf_validate_type hdr = Inr ()"
      "LEAF_HEADER_SIZE + unat (lh_entry_count hdr) * 2 \<le> length page"
      "parse_cells page 0 (unat (lh_entry_count hdr)) = Inr (ln_cells n)"
    using assms by (auto simp: parse_def Let_def rbind_Inr_iff)
  note cells = parse_cells_nth [OF h(4)]
  show "\<exists>hdr. leaf_from_bytes page = Inr hdr \<and> leaf_validate_type hdr = Inr () \<and> unat (lh_entry_count hdr) = length (ln_cells n) \<and>
      LEAF_HEADER_SIZE + length (ln_cells n) * 2 \<le> length page" using h cells by auto
  show "probes page (ln_cells n)"
    unfolding probes_def
  proof (intro allI impI conjI)
    fix j assume j: "j < length (ln_cells n)"
    let ?off = "unat (u16_at page (LEAF_HEADER_SIZE + j * 2))"
    have c: "parse_cell page ?off = Inr (ln_cells n ! j)" using cells j by simp
    have "LEAF_HEADER_SIZE + j * 2 + 2 \<le> length page" using h(3) cells j by simp
    then have off: "cell_offset_at page j = Inr ?off" by (simp add: cell_offset_at_def Let_def)
    then show "\<exists>off. cell_offset_at page j = Inr off \<and> cell_value_at page off = Inr (cell_val (ln_cells n ! j))"
      using parse_cell_parts(1) [OF c] by blast
    show "cell_key_at page j = Inr (cell_key (ln_cells n ! j))"
      using off parse_cell_parts(2-4) [OF c] by (simp add: cell_key_at_def Let_def)
  qed
qed

lemma cell_value_search_correct:
  assumes pr: "probes page cs"
    and sorted: "sorted_cells cs"
    and "right \<le> length cs" "\<forall>j < left. cell_key (cs ! j) < key" "\<forall>j. right \<le> j \<and> j < length cs \<longrightarrow> key < cell_key (cs ! j)"
  shows "cell_value_search page key left right = Inr (cell_map cs key)"
  using assms(3-5)
proof (induction "right - left" arbitrary: left right rule: less_induct)
  case less
  have mono: "cell_key (cs ! i) < cell_key (cs ! j)" if "i < j" "j < length cs" for i j
    using sorted that sorted_wrt_nth_less [of "(<)" "map cell_key cs" i j] by (simp add: sorted_cells_def)
  show ?case
  proof (cases "left < right")
    case False
    then have "cell_key (cs ! j) \<noteq> key" if "j < length cs" for j
      using less.prems(2,3) that by (metis linorder_not_less order_less_imp_not_eq2 order_less_irrefl order_trans)
    then show ?thesis using False cell_map_None [of cs key] by (subst cell_value_search.simps) simp
  next
    case True
    define mid where "mid = left + (right - left) div 2"
    have m: "left \<le> mid" "mid < right" "mid < length cs" using True less.prems(1) by (auto simp: mid_def)
    obtain off where off: "cell_key_at page mid = Inr (cell_key (cs ! mid))" "cell_offset_at page mid = Inr off"
        "cell_value_at page off = Inr (cell_val (cs ! mid))"
      using pr m(3) by (auto simp: probes_def)
    have eqn: "cell_value_search page key left right =
        (if cell_key (cs ! mid) < key then cell_value_search page key (mid + 1) right
         else if cell_key (cs ! mid) = key then Inr (Some (cell_val (cs ! mid)))
         else cell_value_search page key left mid)"
      using True off by (subst cell_value_search.simps) (simp add: mid_def [symmetric] Let_def)
    consider "cell_key (cs ! mid) < key" | "cell_key (cs ! mid) = key" | "key < cell_key (cs ! mid)"
      using linorder_less_linear by blast
    then show ?thesis
    proof cases
      case 1
      then have "\<forall>j < mid + 1. cell_key (cs ! j) < key" using mono m(3) by (metis Suc_eq_plus1 less_SucE order_less_trans)
      then show ?thesis unfolding eqn using 1 less.hyps [of right "mid + 1"] less.prems m by simp
    next
      case 2
      then show ?thesis unfolding eqn using cell_map_Some [OF sorted m(3)] by simp
    next
      case 3
      then have "\<forall>j. mid \<le> j \<and> j < length cs \<longrightarrow> key < cell_key (cs ! j)" using mono by (metis le_neq_implies_less order_less_trans)
      then have "cell_value_search page key left mid = Inr (cell_map cs key)"
        using less.hyps [of mid left] less.prems m by simp
      moreover have "\<not> cell_key (cs ! mid) < key" "cell_key (cs ! mid) \<noteq> key" using 3 by auto
      ultimately show ?thesis unfolding eqn by simp
    qed
  qed
qed

text \<open>On any page that parses, the search agrees with the list of cells.\<close>

lemma lookup_parsed:
  assumes "parse page = Inr n" "sorted_cells (ln_cells n)"
  shows "lookup_cell_value page key = Inr (cell_map (ln_cells n) key)"
proof -
  obtain hdr where h: "leaf_from_bytes page = Inr hdr" "leaf_validate_type hdr = Inr ()"
      "unat (lh_entry_count hdr) = length (ln_cells n)" "LEAF_HEADER_SIZE + length (ln_cells n) * 2 \<le> length page"
    using parse_probes(2) [OF assms(1)] by blast
  have "cell_value_search page key 0 (length (ln_cells n)) = Inr (cell_map (ln_cells n) key)"
    by (rule cell_value_search_correct [OF parse_probes(1) [OF assms(1)] assms(2)]) auto
  then show ?thesis using h by (simp add: lookup_cell_value_def Let_def)
qed

section \<open>Properties\<close>

text \<open>Property C22. A leaf that fits its page is read back as it was: parsing the encoded page
  gives the same cells in the same order and the same sibling links, with the overflow
  flag recomputed; encoding refuses a node only when its cells exceed the page.\<close>

theorem leaf_page_roundtrip:
  assumes "used_bytes n \<le> PAGE_SIZE_LEAF"
  shows "\<exists>page. encode crc crc_append n = Inr page \<and> length page = PAGE_SIZE_LEAF \<and>
    parse page = Inr (n\<lparr>ln_flags := encoded_flags n\<rparr>)"
proof -
  obtain page where "encode crc crc_append n = Inr page" using assms by (simp add: encode_def Let_def)
  then show ?thesis using encode_layout(1) parse_encode by blast
qed

definition ex_leaf :: leaf_node where
  "ex_leaf = \<lparr>ln_flags = 0, ln_next_leaf_page = 7, ln_prev_leaf_page = 0,
     ln_cells = [\<lparr>cell_key = [1], cell_val = Cell_Inline [5, 6]\<rparr>, \<lparr>cell_key = [2, 3], cell_val = Cell_Overflow 9 40000\<rparr>]\<rparr>"

theorem leaf_page_roundtrip_witness:
  "\<exists>page. encode (\<lambda>_. 0) (\<lambda>d _. d) ex_leaf = Inr page \<and> parse page = Inr (ex_leaf\<lparr>ln_flags := 1\<rparr>)"
  using leaf_page_roundtrip [of ex_leaf "\<lambda>_. 0" "\<lambda>d _. d"]
  by (auto simp: ex_leaf_def used_bytes_def used_bytes_for_cells_def encoded_size_def leaf_cell_encoded_size_def
      LEAF_HEADER_SIZE_def PAGE_SIZE_LEAF_def encoded_flags_def has_overflow_def LEAF_FLAG_HAS_OVERFLOW_def)

text \<open>Property C23. The binary search that reads a value straight from the page bytes finds exactly
  what a lookup in the list of cells finds, for every key, when the cells are sorted.\<close>

theorem lookup_on_page_exact:
  assumes "encode crc crc_append n = Inr page" and "sorted_cells (ln_cells n)"
  shows "lookup_cell_value page key = Inr (cell_map (ln_cells n) key)"
  using lookup_parsed [OF parse_encode [OF assms(1)]] assms(2) by simp

theorem lookup_on_page_exact_witness:
  "\<exists>page. encode (\<lambda>_. 0) (\<lambda>d _. d) ex_leaf = Inr page \<and> lookup_cell_value page [2, 3] = Inr (Some (Cell_Overflow 9 40000))"
proof -
  obtain page where p: "encode (\<lambda>_. 0) (\<lambda>d _. d) ex_leaf = Inr page"
    by (simp add: encode_def Let_def ex_leaf_def used_bytes_def used_bytes_for_cells_def encoded_size_def
        leaf_cell_encoded_size_def LEAF_HEADER_SIZE_def PAGE_SIZE_LEAF_def)
  then have "lookup_cell_value page [2, 3] = Inr (cell_map (ln_cells ex_leaf) [2, 3])"
    by (rule lookup_on_page_exact) (simp add: ex_leaf_def sorted_cells_def)
  then show ?thesis using p by (simp add: ex_leaf_def cell_map_def)
qed

end
