(* ===== verification/File_Header.thy ===== *)
theory File_Header
  imports Timestamp Pages
begin

text \<open>
  Page 0 of a database file (\<open>storage/header.rs\<close>): the header record, its byte image
  with the checksum over bytes 0-63 and 76-109, and the checks made when it is read back.
  The CRC32C routine of the \<open>crc32c\<close> crate is the parameter \<open>crc\<close>.
\<close>

definition FILE_MAGIC :: bytes where "FILE_MAGIC = [0x4D, 0x51, 0x4C, 0x54]"
definition FORMAT_VERSION :: u32 where "FORMAT_VERSION = 1"
definition CHECKSUM_ALGO_CRC32C :: u32 where "CHECKSUM_ALGO_CRC32C = 1"
definition HEADER_PAGE_SIZE :: nat where "HEADER_PAGE_SIZE = PAGE_SIZE_INTERNAL"
definition CHECKSUM_FIRST_RANGE_END :: nat where "CHECKSUM_FIRST_RANGE_END = 64"
definition CHECKSUM_SECOND_RANGE_START :: nat where "CHECKSUM_SECOND_RANGE_START = 76"
definition CHECKSUM_SECOND_RANGE_END :: nat where "CHECKSUM_SECOND_RANGE_END = 110"
definition CHECKSUM_OFFSET :: nat where "CHECKSUM_OFFSET = 64"

record file_header =
  magic :: bytes
  format_version :: u32
  page_size_internal :: u32
  page_size_leaf :: u32
  created_at :: u64
  last_checkpoint_ts :: ts
  catalog_root_page :: u32
  free_list_head_4k :: u32
  free_list_head_32k :: u32
  total_page_count :: u32
  free_page_count_4k :: u32
  free_page_count_32k :: u32
  checksum_algo :: u32
  wal_salt1 :: u32
  wal_salt2 :: u32
  catalog_root_backup :: u32
  catalog_root_level :: u8
  next_namespace_id :: u64
  next_index_id :: u64
  history_store_root_page :: u32
  history_store_root_level :: u8
  checkpoint_applied_lsn :: u64

definition header_new :: "u64 \<Rightarrow> u32 \<Rightarrow> u32 \<Rightarrow> file_header" where
  "header_new created salt1 salt2 =
    \<lparr>magic = FILE_MAGIC, format_version = FORMAT_VERSION,
     page_size_internal = of_nat PAGE_SIZE_INTERNAL, page_size_leaf = of_nat PAGE_SIZE_LEAF,
     created_at = created, last_checkpoint_ts = ts_default, catalog_root_page = 0,
     free_list_head_4k = 0, free_list_head_32k = 0, total_page_count = 1,
     free_page_count_4k = 0, free_page_count_32k = 0, checksum_algo = CHECKSUM_ALGO_CRC32C,
     wal_salt1 = salt1, wal_salt2 = salt2, catalog_root_backup = 0, catalog_root_level = 0,
     next_namespace_id = 1, next_index_id = 1, history_store_root_page = 0,
     history_store_root_level = 0, checkpoint_applied_lsn = 0\<rparr>"

definition compute_checksum :: "(bytes \<Rightarrow> u32) \<Rightarrow> bytes \<Rightarrow> u32" where
  "compute_checksum crc buf =
    crc (sub buf 0 CHECKSUM_FIRST_RANGE_END @ sub buf CHECKSUM_SECOND_RANGE_START CHECKSUM_SECOND_RANGE_END)"

text \<open>The writes of \<open>to_bytes\<close>, each a \<open>copy_from_slice\<close> at its offset.\<close>

definition header_fields :: "file_header \<Rightarrow> (nat \<times> bytes) list" where
  "header_fields h =
    [(0, magic h),
     (4, u32_to_le_bytes (format_version h)),
     (8, u32_to_le_bytes (page_size_internal h)),
     (12, u32_to_le_bytes (page_size_leaf h)),
     (16, u64_to_le_bytes (created_at h)),
     (24, ts_to_le_bytes (last_checkpoint_ts h)),
     (36, u32_to_le_bytes (catalog_root_page h)),
     (40, u32_to_le_bytes (free_list_head_4k h)),
     (44, u32_to_le_bytes (free_list_head_32k h)),
     (48, u32_to_le_bytes (total_page_count h)),
     (52, u32_to_le_bytes (free_page_count_4k h)),
     (56, u32_to_le_bytes (free_page_count_32k h)),
     (60, u32_to_le_bytes (checksum_algo h)),
     (68, u32_to_le_bytes (wal_salt1 h)),
     (72, u32_to_le_bytes (wal_salt2 h)),
     (76, u32_to_le_bytes (catalog_root_backup h)),
     (80, [catalog_root_level h]),
     (81, u64_to_le_bytes (next_namespace_id h)),
     (89, u64_to_le_bytes (next_index_id h)),
     (97, u32_to_le_bytes (history_store_root_page h)),
     (101, [history_store_root_level h]),
     (102, u64_to_le_bytes (checkpoint_applied_lsn h))]"

definition write_fields :: "(nat \<times> bytes) list \<Rightarrow> bytes \<Rightarrow> bytes" where
  "write_fields ws buf = fold (\<lambda>(off, bs) b. put b off bs) ws buf"

definition header_to_bytes :: "(bytes \<Rightarrow> u32) \<Rightarrow> file_header \<Rightarrow> bytes" where
  "header_to_bytes crc h =
    (let buf = write_fields (header_fields h) (replicate HEADER_PAGE_SIZE 0) in
     put buf CHECKSUM_OFFSET (u32_to_le_bytes (compute_checksum crc buf)))"

definition corrupt :: "string \<Rightarrow> bool \<Rightarrow> error" where
  "corrupt detail recoverable = CorruptDatabase [] detail recoverable"

definition header_parse :: "bytes \<Rightarrow> file_header" where
  "header_parse buf =
    \<lparr>magic = sub buf 0 4, format_version = u32_at buf 4, page_size_internal = u32_at buf 8,
     page_size_leaf = u32_at buf 12, created_at = u64_at buf 16, last_checkpoint_ts = ts_from_le_bytes (sub buf 24 36),
     catalog_root_page = u32_at buf 36, free_list_head_4k = u32_at buf 40, free_list_head_32k = u32_at buf 44,
     total_page_count = u32_at buf 48, free_page_count_4k = u32_at buf 52, free_page_count_32k = u32_at buf 56,
     checksum_algo = u32_at buf 60, wal_salt1 = u32_at buf 68, wal_salt2 = u32_at buf 72,
     catalog_root_backup = u32_at buf 76, catalog_root_level = buf ! 80, next_namespace_id = u64_at buf 81,
     next_index_id = u64_at buf 89, history_store_root_page = u32_at buf 97, history_store_root_level = buf ! 101,
     checkpoint_applied_lsn = u64_at buf 102\<rparr>"

definition header_from_bytes :: "(bytes \<Rightarrow> u32) \<Rightarrow> bytes \<Rightarrow> file_header result" where
  "header_from_bytes crc buf =
    (if sub buf 0 4 \<noteq> FILE_MAGIC then Inl (corrupt ''invalid magic'' False)
     else if u32_at buf 4 \<noteq> FORMAT_VERSION then Inl (corrupt ''unsupported format version'' False)
     else if u32_at buf 8 \<noteq> of_nat PAGE_SIZE_INTERNAL then Inl (corrupt ''unexpected internal page size'' False)
     else if u32_at buf 12 \<noteq> of_nat PAGE_SIZE_LEAF then Inl (corrupt ''unexpected leaf page size'' False)
     else if u32_at buf CHECKSUM_OFFSET \<noteq> compute_checksum crc buf then Inl (corrupt ''header checksum mismatch'' True)
     else Inr (header_parse buf))"

definition header_validate :: "file_header \<Rightarrow> unit result" where
  "header_validate h =
    (if magic h \<noteq> FILE_MAGIC then Inl (Internal ''magic mismatch after parse'')
     else if checksum_algo h \<noteq> CHECKSUM_ALGO_CRC32C then Inl (corrupt ''unknown checksum algorithm'' False)
     else if total_page_count h = 0 then Inl (corrupt ''total_page_count is 0; page 0 (header) must always exist'' False)
     else Inr ())"

text \<open>The salts of a new file, from the creation time and the process id through the
  standard library's \<open>DefaultHasher\<close>, which is the pair of functions \<open>hash_write\<close> and
  \<open>finish\<close> on a hasher state.\<close>

definition derive_wal_salts :: "('h \<Rightarrow> u64 \<Rightarrow> 'h) \<Rightarrow> ('h \<Rightarrow> u32 \<Rightarrow> 'h) \<Rightarrow> ('h \<Rightarrow> u64) \<Rightarrow> 'h \<Rightarrow> u32 \<Rightarrow> u64 \<Rightarrow> u32 \<times> u32" where
  "derive_wal_salts hash_u64 hash_u32 finish h0 pid created =
    (let h = hash_u32 (hash_u64 h0 created) pid;
         v1 = finish h;
         v2 = finish (hash_u64 h v1)
     in (ucast v1, ucast (drop_bit 32 v1) XOR ucast v2))"

section \<open>Disjoint writes read back\<close>

definition fields_ok :: "(nat \<times> bytes) list \<Rightarrow> nat \<Rightarrow> bool" where
  "fields_ok ws n \<longleftrightarrow> sorted_wrt (\<lambda>(a, x) (b, y). a + length x \<le> b) ws \<and> (\<forall>(a, x) \<in> set ws. a + length x \<le> n)"

lemma length_write_fields: "fields_ok ws (length buf) \<Longrightarrow> length (write_fields ws buf) = length buf"
proof (induction ws arbitrary: buf)
  case (Cons w ws)
  then show ?case by (cases w) (simp add: fields_ok_def write_fields_def)
qed (simp add: write_fields_def)

lemma sub_write_fields_before:
  "fields_ok ws (length buf) \<Longrightarrow> \<forall>(a, x) \<in> set ws. hi \<le> a \<Longrightarrow> sub (write_fields ws buf) lo hi = sub buf lo hi"
proof (induction ws arbitrary: buf)
  case (Cons w ws)
  then show ?case by (cases w) (simp add: fields_ok_def write_fields_def sub_put_before)
qed (simp add: write_fields_def)

lemma sub_write_fields:
  "fields_ok ws (length buf) \<Longrightarrow> (a, x) \<in> set ws \<Longrightarrow> sub (write_fields ws buf) a (a + length x) = x"
proof (induction ws arbitrary: buf)
  case (Cons w ws)
  obtain b y where w: "w = (b, y)" by (cases w)
  have ok: "fields_ok ws (length (put buf b y))" "b + length y \<le> length buf"
    "\<forall>(a, x) \<in> set ws. b + length y \<le> a"
    using Cons.prems(1) w by (auto simp: fields_ok_def)
  have step: "write_fields (w # ws) buf = write_fields ws (put buf b y)" by (simp add: write_fields_def w)
  show ?case
  proof (cases "(a, x) = w")
    case True
    then show ?thesis unfolding step using ok w sub_write_fields_before [OF ok(1), of "a + length x" a] sub_put_same
      by simp
  next
    case False
    then show ?thesis unfolding step using Cons.IH [OF ok(1)] Cons.prems(2) by simp
  qed
qed simp

section \<open>The header image\<close>

definition header_current :: "file_header \<Rightarrow> bool" where
  "header_current h \<longleftrightarrow> magic h = FILE_MAGIC \<and> format_version h = FORMAT_VERSION \<and>
     page_size_internal h = of_nat PAGE_SIZE_INTERNAL \<and> page_size_leaf h = of_nat PAGE_SIZE_LEAF"

lemma header_fields_ok: "length (magic h) = 4 \<Longrightarrow> fields_ok (header_fields h) HEADER_PAGE_SIZE"
  by (simp add: fields_ok_def header_fields_def HEADER_PAGE_SIZE_def PAGE_SIZE_INTERNAL_def)

definition header_image :: "file_header \<Rightarrow> bytes" where
  "header_image h = write_fields (header_fields h) (replicate HEADER_PAGE_SIZE 0)"

lemma length_header_image: "length (magic h) = 4 \<Longrightarrow> length (header_image h) = 4096"
  using length_write_fields [of "header_fields h" "replicate HEADER_PAGE_SIZE 0"] header_fields_ok
  by (simp add: header_image_def HEADER_PAGE_SIZE_def PAGE_SIZE_INTERNAL_def)

lemma header_image_field:
  "length (magic h) = 4 \<Longrightarrow> (a, x) \<in> set (header_fields h) \<Longrightarrow> sub (header_image h) a (a + length x) = x"
  unfolding header_image_def by (rule sub_write_fields) (simp_all add: header_fields_ok)

text \<open>The checksum is written outside the bytes it covers, and outside every field.\<close>

lemma header_to_bytes_image:
  "header_to_bytes crc h = put (header_image h) 64 (u32_to_le_bytes (compute_checksum crc (header_image h)))"
  by (simp add: header_to_bytes_def header_image_def CHECKSUM_OFFSET_def Let_def)

lemma header_to_bytes_field:
  assumes "length (magic h) = 4" "(a, x) \<in> set (header_fields h)"
  shows "sub (header_to_bytes crc h) a (a + length x) = x"
proof -
  have "a + length x \<le> 64 \<or> 68 \<le> a" using assms by (auto simp: header_fields_def)
  then show ?thesis
    using header_image_field [OF assms] length_header_image [OF assms(1)]
    by (auto simp: header_to_bytes_image sub_put_before sub_put_after)
qed

lemma header_checksum_stored:
  assumes "length (magic h) = 4"
  shows "u32_at (header_to_bytes crc h) 64 = compute_checksum crc (header_to_bytes crc h)"
proof -
  have "compute_checksum crc (header_to_bytes crc h) = compute_checksum crc (header_image h)"
    using length_header_image [OF assms]
    by (simp add: compute_checksum_def header_to_bytes_image CHECKSUM_FIRST_RANGE_END_def CHECKSUM_SECOND_RANGE_START_def
        CHECKSUM_SECOND_RANGE_END_def sub_put_before sub_put_after)
  then show ?thesis
    using length_header_image [OF assms] by (simp add: header_to_bytes_image int_at_put_same)
qed

lemma header_field_reads:
  assumes "length (magic h) = 4"
  shows "(a, u32_to_le_bytes v) \<in> set (header_fields h) \<Longrightarrow> u32_at (header_to_bytes crc h) a = v"
    and "(a, u64_to_le_bytes w) \<in> set (header_fields h) \<Longrightarrow> u64_at (header_to_bytes crc h) a = w"
    and "(a, [b]) \<in> set (header_fields h) \<Longrightarrow> header_to_bytes crc h ! a = b"
  using header_to_bytes_field [OF assms, of a "u32_to_le_bytes v" crc] header_to_bytes_field [OF assms, of a "u64_to_le_bytes w" crc]
    header_to_bytes_field [OF assms, of a "[b]" crc]
  by (simp_all add: u32_at_def u64_at_def nth_of_sub)

lemma header_parse_to_bytes:
  assumes "length (magic h) = 4"
  shows "header_parse (header_to_bytes crc h) = h"
proof -
  have m: "sub (header_to_bytes crc h) 0 4 = magic h"
    using header_to_bytes_field [OF assms, of 0 "magic h" crc] assms by (simp add: header_fields_def)
  have t: "sub (header_to_bytes crc h) 24 36 = ts_to_le_bytes (last_checkpoint_ts h)"
    using header_to_bytes_field [OF assms, of 24 "ts_to_le_bytes (last_checkpoint_ts h)" crc] by (simp add: header_fields_def)
  note r = header_field_reads [OF assms, of _ _ crc]
  show ?thesis
    by (rule file_header.equality) (simp_all add: header_parse_def m t, (rule r, simp add: header_fields_def)+)
qed

text \<open>A buffer is determined by contiguous pieces.\<close>

fun contiguous :: "nat \<Rightarrow> (nat \<times> bytes) list \<Rightarrow> nat \<Rightarrow> bool" where
  "contiguous lo [] hi = (lo = hi)"
| "contiguous lo ((a, x) # ws) hi = (a = lo \<and> contiguous (a + length x) ws hi)"

lemma contiguous_le: "contiguous lo ws hi \<Longrightarrow> lo \<le> hi"
  by (induction lo ws hi rule: contiguous.induct) auto

lemma sub_contiguous:
  "contiguous lo ws hi \<Longrightarrow> \<forall>(a, x) \<in> set ws. sub buf a (a + length x) = x \<Longrightarrow> sub buf lo hi = concat (map snd ws)"
proof (induction lo ws hi rule: contiguous.induct)
  case (2 lo a x ws hi)
  then show ?case using sub_split [of lo "a + length x" hi buf] contiguous_le [of "a + length x" ws hi] by auto
qed (simp add: sub_def)

lemma header_fields_parse:
  assumes "length buf = HEADER_PAGE_SIZE"
  shows "\<forall>(a, x) \<in> set (header_fields (header_parse buf)). sub buf a (a + length x) = x"
  using assms sub_single [of 80 buf] sub_single [of 101 buf]
  by (simp add: header_fields_def header_parse_def u32_at_def u64_at_def int_codec_surj ts_from_to_le sub_single
      HEADER_PAGE_SIZE_def PAGE_SIZE_INTERNAL_def)

lemma header_agree:
  assumes "length buf = HEADER_PAGE_SIZE" "h = header_parse buf" "n \<le> m"
    "contiguous lo (take (m - n) (drop n (header_fields h))) hi"
  shows "sub (header_to_bytes crc h) lo hi = sub buf lo hi"
proof -
  have m: "length (magic h) = 4"
    using assms(1,2) by (simp add: header_parse_def HEADER_PAGE_SIZE_def PAGE_SIZE_INTERNAL_def)
  have "set (take (m - n) (drop n (header_fields h))) \<subseteq> set (header_fields h)"
    by (meson set_drop_subset set_take_subset subset_trans)
  then have "sub buf lo hi = concat (map snd (take (m - n) (drop n (header_fields h))))"
    "sub (header_to_bytes crc h) lo hi = concat (map snd (take (m - n) (drop n (header_fields h))))"
    using header_fields_parse [OF assms(1)] header_to_bytes_field [OF m] assms(2)
    by (intro sub_contiguous [OF assms(4)]; blast)+
  then show ?thesis by simp
qed

lemma header_write_back:
  assumes len: "length buf = HEADER_PAGE_SIZE" and "header_from_bytes crc buf = Inr h"
  shows "take 110 (header_to_bytes crc h) = take 110 buf"
proof -
  have h: "h = header_parse buf" and cs: "u32_at buf 64 = compute_checksum crc buf"
    using assms by (auto simp: header_from_bytes_def CHECKSUM_OFFSET_def split: if_splits)
  have m: "length (magic h) = 4" using h len by (simp add: header_parse_def HEADER_PAGE_SIZE_def PAGE_SIZE_INTERNAL_def)
  have lo: "sub (header_to_bytes crc h) 0 64 = sub buf 0 64"
    using m by (intro header_agree [OF len h, of 0 13]) (simp_all add: header_fields_def)
  have mid: "sub (header_to_bytes crc h) 68 76 = sub buf 68 76"
    using m by (intro header_agree [OF len h, of 13 15]) (simp_all add: header_fields_def)
  have hi: "sub (header_to_bytes crc h) 76 110 = sub buf 76 110"
    using m by (intro header_agree [OF len h, of 15 22]) (simp_all add: header_fields_def)
  have "compute_checksum crc (header_to_bytes crc h) = compute_checksum crc buf"
    using lo hi by (simp add: compute_checksum_def CHECKSUM_FIRST_RANGE_END_def CHECKSUM_SECOND_RANGE_START_def
        CHECKSUM_SECOND_RANGE_END_def)
  then have "u32_at (header_to_bytes crc h) 64 = u32_at buf 64" using cs header_checksum_stored [OF m] by simp
  then have "u32_to_le_bytes (u32_from_le_bytes (sub (header_to_bytes crc h) 64 68)) =
      u32_to_le_bytes (u32_from_le_bytes (sub buf 64 68))" by (simp add: u32_at_def)
  then have ck: "sub (header_to_bytes crc h) 64 68 = sub buf 64 68"
    using len length_header_image [OF m]
    by (simp add: int_codec_surj header_to_bytes_image HEADER_PAGE_SIZE_def PAGE_SIZE_INTERNAL_def del: int_codec_inj)
  have "sub b 0 110 = sub b 0 64 @ sub b 64 68 @ sub b 68 76 @ sub b 76 110" for b
    using sub_split [of 0 64 110 b] sub_split [of 64 68 110 b] sub_split [of 68 76 110 b] by simp
  then show ?thesis
    using lo mid hi ck unfolding sub_def by simp
qed

section \<open>Properties\<close>

text \<open>Property C24. A header of the current format written to page 0 is read back unchanged,
  and a header that is read from a page and written again reproduces the page's first 110
  bytes, the stored checksum included.\<close>

theorem file_header_roundtrip:
  "(header_current h \<longrightarrow> header_from_bytes crc (header_to_bytes crc h) = Inr h) \<and>
   (length buf = HEADER_PAGE_SIZE \<and> header_from_bytes crc buf = Inr h \<longrightarrow>
      take 110 (header_to_bytes crc h) = take 110 buf)"
proof (intro conjI impI)
  assume h: "header_current h"
  then have m: "length (magic h) = 4" by (simp add: header_current_def FILE_MAGIC_def)
  have p: "header_parse (header_to_bytes crc h) = h" by (rule header_parse_to_bytes [OF m])
  then have "sub (header_to_bytes crc h) 0 4 = magic h" "u32_at (header_to_bytes crc h) 4 = format_version h"
    "u32_at (header_to_bytes crc h) 8 = page_size_internal h" "u32_at (header_to_bytes crc h) 12 = page_size_leaf h"
    unfolding header_parse_def by (metis file_header.select_convs)+
  then show "header_from_bytes crc (header_to_bytes crc h) = Inr h"
    using h p header_checksum_stored [OF m] by (simp add: header_from_bytes_def header_current_def CHECKSUM_OFFSET_def)
qed (use header_write_back in blast)

theorem file_header_roundtrip_witness:
  "header_from_bytes (\<lambda>_. 5) (header_to_bytes (\<lambda>_. 5) (header_new 17 3 4)) = Inr (header_new 17 3 4)"
  using file_header_roundtrip [of "header_new 17 3 4" "\<lambda>_. 5" "[]"] by (simp add: header_current_def header_new_def)

end
