(* ===== verification/Allocator.thy ===== *)
theory Allocator
  imports File_Header
begin

text \<open>
  Page allocation (\<open>storage/allocator/\<close>): the two free lists embedded in freed pages,
  the allocator handle that owns the file header, the overflow reference counts, and the
  queue of pages whose release waits for a checkpoint (\<open>mvcc/deferred_free.rs\<close>).

  The page source is the file as the pool shows it: one 32 KB slot for each page number, a
  page of either size at the start of its slot, a page that was never written all zero. An
  operation that can fail after it changed the header returns the header next to its result.
  Reference counts change by atomic steps, one operation at a time; \<open>debug_assert\<close> is off, as
  in a release build, so a decrement at zero wraps.
\<close>

section \<open>Page source\<close>

datatype page_size = Small4k | Large32k

fun page_size_bytes :: "page_size \<Rightarrow> nat" where
  "page_size_bytes Small4k = 4096"
| "page_size_bytes Large32k = 32768"

type_synonym slots = "u32 \<Rightarrow> bytes"

definition slots_ok :: "slots \<Rightarrow> bool" where
  "slots_ok sl \<longleftrightarrow> (\<forall>p. length (sl p) = PAGE_SIZE_LEAF)"

definition read_page :: "slots \<Rightarrow> u32 \<Rightarrow> page_size \<Rightarrow> bytes" where
  "read_page sl p sz = take (page_size_bytes sz) (sl p)"

definition write_page :: "slots \<Rightarrow> u32 \<Rightarrow> bytes \<Rightarrow> slots" where
  "write_page sl p buf = sl(p := put (sl p) 0 buf)"

section \<open>Free lists\<close>

definition free_list_head :: "page_size \<Rightarrow> file_header \<Rightarrow> u32" where
  "free_list_head sz h = (case sz of Small4k \<Rightarrow> free_list_head_4k h | Large32k \<Rightarrow> free_list_head_32k h)"

definition free_page_count :: "page_size \<Rightarrow> file_header \<Rightarrow> u32" where
  "free_page_count sz h = (case sz of Small4k \<Rightarrow> free_page_count_4k h | Large32k \<Rightarrow> free_page_count_32k h)"

definition set_free_list_head :: "page_size \<Rightarrow> u32 \<Rightarrow> file_header \<Rightarrow> file_header" where
  "set_free_list_head sz p h = (case sz of Small4k \<Rightarrow> h\<lparr>free_list_head_4k := p\<rparr> | Large32k \<Rightarrow> h\<lparr>free_list_head_32k := p\<rparr>)"

definition set_free_page_count :: "page_size \<Rightarrow> u32 \<Rightarrow> file_header \<Rightarrow> file_header" where
  "set_free_page_count sz n h = (case sz of Small4k \<Rightarrow> h\<lparr>free_page_count_4k := n\<rparr> | Large32k \<Rightarrow> h\<lparr>free_page_count_32k := n\<rparr>)"

definition read_free_link :: "slots \<Rightarrow> u32 \<Rightarrow> page_size \<Rightarrow> u32" where
  "read_free_link sl p sz = u32_at (read_page sl p sz) 0"

definition write_free_link :: "slots \<Rightarrow> u32 \<Rightarrow> u32 \<Rightarrow> page_size \<Rightarrow> slots" where
  "write_free_link sl p nxt sz =
     write_page sl p (put (replicate (page_size_bytes sz) 0) 0 (u32_to_le_bytes nxt))"

definition page_allocate :: "page_size \<Rightarrow> slots \<Rightarrow> file_header \<Rightarrow> u32 result \<times> file_header" where
  "page_allocate sz sl h =
    (let free_head = free_list_head sz h in
     if free_head \<noteq> 0 then
       let nxt = read_free_link sl free_head sz in
       (Inr free_head,
        set_free_page_count sz (saturating_sub (free_page_count sz h) 1) (set_free_list_head sz nxt h))
     else case checked_add (total_page_count h) 1 of
         None \<Rightarrow> (Inl (DiskFull [] 4096 0 ''page count exhausted''), h)
       | Some n \<Rightarrow> (Inr (total_page_count h), h\<lparr>total_page_count := n\<rparr>))"

definition page_free :: "page_size \<Rightarrow> u32 \<Rightarrow> slots \<Rightarrow> file_header \<Rightarrow> unit result \<times> file_header \<times> slots" where
  "page_free sz p sl h =
    (if p = 0 then (Inl (Internal ''cannot free page 0 (file header page)''), h, sl)
     else if p \<ge> total_page_count h then (Inl (Internal ''cannot free page: beyond end of file''), h, sl)
     else
       let old_head = free_list_head sz h;
           sl = write_free_link sl p old_head sz;
           h = set_free_list_head sz p h
       in case checked_add (free_page_count sz h) 1 of
            None \<Rightarrow> (Inl (Internal ''free_page_count overflow''), h, sl)
          | Some n \<Rightarrow> (Inr (), set_free_page_count sz n h, sl))"

section \<open>The page-lifetime queue\<close>

datatype page_lifetime_kind = OverflowDeferredFree | RetiredTree4k | RetiredTree32k

record page_lifetime_entry =
  pl_kind :: page_lifetime_kind
  pl_page :: u32
  enqueue_fence :: u64
  reader_fence_ts :: ts

record page_lifetime_queue =
  pq_overflow :: "page_lifetime_entry list"
  pq_retired :: "page_lifetime_entry list"

definition is_fence_eligible :: "page_lifetime_entry \<Rightarrow> u64 \<Rightarrow> bool" where
  "is_fence_eligible e checkpoint_fence \<longleftrightarrow> checkpoint_fence > enqueue_fence e"

definition push_entry :: "page_lifetime_entry \<Rightarrow> page_lifetime_queue \<Rightarrow> page_lifetime_queue" where
  "push_entry e q = (case pl_kind e of
     OverflowDeferredFree \<Rightarrow> q\<lparr>pq_overflow := pq_overflow q @ [e]\<rparr>
   | _ \<Rightarrow> q\<lparr>pq_retired := pq_retired q @ [e]\<rparr>)"

definition push_overflow_deferred_free :: "u32 \<Rightarrow> u64 \<Rightarrow> page_lifetime_queue \<Rightarrow> page_lifetime_queue" where
  "push_overflow_deferred_free p fence q =
     push_entry \<lparr>pl_kind = OverflowDeferredFree, pl_page = p, enqueue_fence = fence, reader_fence_ts = ts_default\<rparr> q"

definition push_retired_tree :: "page_lifetime_kind \<Rightarrow> u32 \<Rightarrow> u64 \<Rightarrow> ts \<Rightarrow> page_lifetime_queue \<Rightarrow> page_lifetime_queue" where
  "push_retired_tree kind p fence rts q =
     push_entry \<lparr>pl_kind = kind, pl_page = p, enqueue_fence = fence, reader_fence_ts = rts\<rparr> q"

definition take_eligible :: "u64 \<Rightarrow> page_lifetime_queue \<Rightarrow> page_lifetime_entry list \<times> page_lifetime_queue" where
  "take_eligible fence q =
    (filter (\<lambda>e. is_fence_eligible e fence) (pq_overflow q),
     q\<lparr>pq_overflow := filter (\<lambda>e. \<not> is_fence_eligible e fence) (pq_overflow q)\<rparr>)"

definition retired_releasable :: "u64 \<Rightarrow> ts option \<Rightarrow> page_lifetime_entry \<Rightarrow> bool" where
  "retired_releasable fence floor e \<longleftrightarrow> is_fence_eligible e fence \<and>
     (case floor of None \<Rightarrow> False | Some f \<Rightarrow> f \<ge> reader_fence_ts e)"

definition take_eligible_retired :: "u64 \<Rightarrow> ts option \<Rightarrow> page_lifetime_queue \<Rightarrow> page_lifetime_entry list \<times> page_lifetime_queue" where
  "take_eligible_retired fence floor q =
    (filter (retired_releasable fence floor) (pq_retired q),
     q\<lparr>pq_retired := filter (\<lambda>e. \<not> retired_releasable fence floor e) (pq_retired q)\<rparr>)"

definition queue_depth :: "page_lifetime_queue \<Rightarrow> nat" where
  "queue_depth q = length (pq_overflow q) + length (pq_retired q)"

section \<open>The allocator handle\<close>

text \<open>\<open>al_poisoned\<close> records that the freeze-violation hook ran.\<close>

record allocator =
  al_header :: file_header
  header_dirty :: bool
  frozen :: bool
  al_poisoned :: bool
  overflow_refcounts :: "u32 \<Rightarrow> u32 option"
  lifetime_queue :: page_lifetime_queue
  checkpoint_fence :: u64
  retired_overflow_pending :: "u32 \<Rightarrow> ts option"
  retired_overflow_pending_count :: nat

definition allocator_new :: "file_header \<Rightarrow> allocator" where
  "allocator_new h = \<lparr>al_header = h, header_dirty = False, frozen = False, al_poisoned = False,
     overflow_refcounts = (\<lambda>_. None), lifetime_queue = \<lparr>pq_overflow = [], pq_retired = []\<rparr>,
     checkpoint_fence = 0, retired_overflow_pending = (\<lambda>_. None), retired_overflow_pending_count = 0\<rparr>"

definition freeze_violation :: "error" where
  "freeze_violation = Internal ''allocator is frozen; mutation rejected''"

definition freeze_guard :: "allocator \<Rightarrow> unit result \<times> allocator" where
  "freeze_guard a = (if frozen a then (Inl freeze_violation, a\<lparr>al_poisoned := True\<rparr>) else (Inr (), a\<lparr>frozen := True\<rparr>))"

definition freeze_release :: "allocator \<Rightarrow> allocator" where
  "freeze_release a = a\<lparr>frozen := False\<rparr>"

definition advance_page_lifetime_checkpoint_fence :: "allocator \<Rightarrow> u64 \<times> allocator" where
  "advance_page_lifetime_checkpoint_fence a =
    (checkpoint_fence a + 1, a\<lparr>checkpoint_fence := checkpoint_fence a + 1\<rparr>)"

definition al_alloc :: "page_size \<Rightarrow> slots \<Rightarrow> allocator \<Rightarrow> u32 result \<times> allocator" where
  "al_alloc sz sl a =
    (if frozen a then (Inl freeze_violation, a\<lparr>al_poisoned := True\<rparr>)
     else case page_allocate sz sl (al_header a) of
         (Inl e, h) \<Rightarrow> (Inl e, a\<lparr>al_header := h\<rparr>)
       | (Inr p, h) \<Rightarrow> (Inr p, a\<lparr>al_header := h, header_dirty := True\<rparr>))"

definition al_free :: "page_size \<Rightarrow> u32 \<Rightarrow> slots \<Rightarrow> allocator \<Rightarrow> unit result \<times> allocator \<times> slots" where
  "al_free sz p sl a =
    (if frozen a then (Inl freeze_violation, a\<lparr>al_poisoned := True\<rparr>, sl)
     else case page_free sz p sl (al_header a) of
         (Inl e, h, sl) \<Rightarrow> (Inl e, a\<lparr>al_header := h\<rparr>, sl)
       | (Inr u, h, sl) \<Rightarrow> (Inr (), a\<lparr>al_header := h, header_dirty := True\<rparr>, sl))"

definition update_header :: "(file_header \<Rightarrow> file_header) \<Rightarrow> allocator \<Rightarrow> unit result \<times> allocator" where
  "update_header f a =
    (if frozen a then (Inl freeze_violation, a\<lparr>al_poisoned := True\<rparr>)
     else (Inr (), a\<lparr>al_header := f (al_header a), header_dirty := True\<rparr>))"

definition flush_header :: "(bytes \<Rightarrow> u32) \<Rightarrow> slots \<Rightarrow> allocator \<Rightarrow> unit result \<times> allocator \<times> slots" where
  "flush_header crc sl a =
    (if frozen a then (Inl freeze_violation, a\<lparr>al_poisoned := True\<rparr>, sl)
     else if header_dirty a then (Inr (), a\<lparr>header_dirty := False\<rparr>, write_page sl 0 (header_to_bytes crc (al_header a)))
     else (Inr (), a, sl))"

section \<open>Overflow reference counts\<close>

definition incref_overflow :: "u32 \<Rightarrow> allocator \<Rightarrow> u32 result \<times> allocator" where
  "incref_overflow p a =
    (let cur = (case overflow_refcounts a p of None \<Rightarrow> 0 | Some n \<Rightarrow> n) in
     if cur = - 1 then (Inl RefcountOverflow, a\<lparr>overflow_refcounts := (overflow_refcounts a)(p := Some cur)\<rparr>)
     else (Inr (cur + 1), a\<lparr>overflow_refcounts := (overflow_refcounts a)(p := Some (cur + 1))\<rparr>))"

definition try_incref_live_overflow :: "u32 \<Rightarrow> allocator \<Rightarrow> u32 option result \<times> allocator" where
  "try_incref_live_overflow p a = (case overflow_refcounts a p of
     None \<Rightarrow> (Inr None, a)
   | Some cur \<Rightarrow> if cur = 0 then (Inr None, a)
       else if cur = - 1 then (Inl RefcountOverflow, a)
       else (Inr (Some (cur + 1)), a\<lparr>overflow_refcounts := (overflow_refcounts a)(p := Some (cur + 1))\<rparr>))"

definition decref_overflow :: "u32 \<Rightarrow> allocator \<Rightarrow> u32 \<times> allocator" where
  "decref_overflow p a = (case overflow_refcounts a p of
     None \<Rightarrow> (0, a)
   | Some prev \<Rightarrow> (saturating_sub prev 1, a\<lparr>overflow_refcounts := (overflow_refcounts a)(p := Some (prev - 1))\<rparr>))"

definition overflow_refcount :: "allocator \<Rightarrow> u32 \<Rightarrow> u32" where
  "overflow_refcount a p = (case overflow_refcounts a p of None \<Rightarrow> 0 | Some n \<Rightarrow> n)"

definition note_retired_overflow_pending :: "u32 \<Rightarrow> ts \<Rightarrow> allocator \<Rightarrow> allocator" where
  "note_retired_overflow_pending p t a =
    a\<lparr>retired_overflow_pending := (retired_overflow_pending a)(p \<mapsto> t),
      retired_overflow_pending_count := (if retired_overflow_pending a p = None
        then retired_overflow_pending_count a + 1 else retired_overflow_pending_count a)\<rparr>"

definition take_retired_overflow_pending :: "u32 \<Rightarrow> allocator \<Rightarrow> ts option \<times> allocator" where
  "take_retired_overflow_pending p a =
    (if retired_overflow_pending_count a = 0 then (None, a)
     else case retired_overflow_pending a p of None \<Rightarrow> (None, a)
       | Some t \<Rightarrow> (Some t, a\<lparr>retired_overflow_pending := (retired_overflow_pending a)(p := None),
           retired_overflow_pending_count := retired_overflow_pending_count a - 1\<rparr>))"

definition enqueue_retired_tree_page :: "u32 \<Rightarrow> page_size \<Rightarrow> ts \<Rightarrow> allocator \<Rightarrow> allocator" where
  "enqueue_retired_tree_page p sz t a =
    a\<lparr>lifetime_queue := push_retired_tree (case sz of Small4k \<Rightarrow> RetiredTree4k | Large32k \<Rightarrow> RetiredTree32k) p
        (checkpoint_fence a) t (lifetime_queue a)\<rparr>"

definition enqueue_overflow_deferred_free :: "u32 \<Rightarrow> allocator \<Rightarrow> allocator" where
  "enqueue_overflow_deferred_free p a = (case take_retired_overflow_pending p a of
     (Some t, a) \<Rightarrow> enqueue_retired_tree_page p Large32k t a
   | (None, a) \<Rightarrow> a\<lparr>lifetime_queue := push_overflow_deferred_free p (checkpoint_fence a) (lifetime_queue a)\<rparr>)"

text \<open>\<open>OverflowRef\<close>: \<open>new_owned\<close> takes a count, \<open>try_clone\<close> takes one more while the record is
  live, and dropping the handle gives one back.\<close>

definition overflow_ref_new_owned :: "u32 \<Rightarrow> allocator \<Rightarrow> unit result \<times> allocator" where
  "overflow_ref_new_owned p a = (case incref_overflow p a of (Inl e, a) \<Rightarrow> (Inl e, a) | (Inr _, a) \<Rightarrow> (Inr (), a))"

definition overflow_ref_try_clone :: "u32 \<Rightarrow> allocator \<Rightarrow> bool \<times> allocator" where
  "overflow_ref_try_clone p a = (case try_incref_live_overflow p a of
     (Inr (Some _), a) \<Rightarrow> (True, a) | (_, a) \<Rightarrow> (False, a))"

definition overflow_ref_drop :: "u32 \<Rightarrow> allocator \<Rightarrow> allocator" where
  "overflow_ref_drop p a = (case decref_overflow p a of (post, a) \<Rightarrow>
     if post = 0 then enqueue_overflow_deferred_free p a else a)"

section \<open>Draining the queue\<close>

text \<open>The free loop of both drains. A failing free leaves the loop at once: the entries
  after it, and those put aside for requeueing, are no longer queued.\<close>

fun free_loop :: "page_lifetime_entry list \<Rightarrow> nat \<Rightarrow> page_lifetime_entry list \<Rightarrow> allocator \<Rightarrow> slots \<Rightarrow>
    (nat \<times> page_lifetime_entry list) result \<times> allocator \<times> slots" where
  "free_loop [] freed requeue a sl = (Inr (freed, requeue), a, sl)"
| "free_loop (e # es) freed requeue a sl =
    (if pl_kind e = RetiredTree4k then
       (case page_free Small4k (pl_page e) sl (al_header a) of
          (Inl err, h, sl) \<Rightarrow> (Inl err, a\<lparr>al_header := h\<rparr>, sl)
        | (Inr _, h, sl) \<Rightarrow> free_loop es (freed + 1) requeue (a\<lparr>al_header := h\<rparr>) sl)
     else if overflow_refcount a (pl_page e) = 0 then
       (case page_free Large32k (pl_page e) sl (al_header a) of
          (Inl err, h, sl) \<Rightarrow> (Inl err, a\<lparr>al_header := h\<rparr>, sl)
        | (Inr _, h, sl) \<Rightarrow> free_loop es (freed + 1) requeue
            (a\<lparr>al_header := h, overflow_refcounts := (overflow_refcounts a)(pl_page e := None)\<rparr>) sl)
     else free_loop es freed (requeue @ [e]) a sl)"

definition free_drained_entries :: "page_lifetime_entry list \<Rightarrow> allocator \<Rightarrow> slots \<Rightarrow> nat result \<times> allocator \<times> slots" where
  "free_drained_entries es a sl =
    (if es = [] then (Inr 0, a, sl)
     else if frozen a then (Inl freeze_violation, a\<lparr>al_poisoned := True\<rparr>, sl)
     else case free_loop es 0 [] a sl of
         (Inl err, a, sl) \<Rightarrow> (Inl err, a, sl)
       | (Inr (freed, requeue), a, sl) \<Rightarrow>
           (Inr freed, a\<lparr>header_dirty := header_dirty a \<or> freed > 0,
              lifetime_queue := fold push_entry requeue (lifetime_queue a)\<rparr>, sl))"

definition drain_free_queue :: "allocator \<Rightarrow> slots \<Rightarrow> nat result \<times> allocator \<times> slots" where
  "drain_free_queue a sl =
    (if frozen a then (Inl freeze_violation, a\<lparr>al_poisoned := True\<rparr>, sl)
     else case take_eligible (checkpoint_fence a) (lifetime_queue a) of
       (es, q) \<Rightarrow> free_drained_entries es (a\<lparr>lifetime_queue := q\<rparr>) sl)"

definition drain_free_queue_with_retired :: "ts option \<Rightarrow> allocator \<Rightarrow> slots \<Rightarrow> nat result \<times> allocator \<times> slots" where
  "drain_free_queue_with_retired floor a sl =
    (if frozen a then (Inl freeze_violation, a\<lparr>al_poisoned := True\<rparr>, sl)
     else case take_eligible (checkpoint_fence a) (lifetime_queue a) of
       (es, q) \<Rightarrow> (case take_eligible_retired (checkpoint_fence a) floor q of
         (rs, q) \<Rightarrow> free_drained_entries (es @ rs) (a\<lparr>lifetime_queue := q\<rparr>) sl))"

fun ready_loop :: "page_lifetime_entry list \<Rightarrow> allocator \<Rightarrow> u32 list \<times> page_lifetime_entry list \<times> allocator" where
  "ready_loop [] a = ([], [], a)"
| "ready_loop (e # es) a =
    (if pl_kind e \<noteq> OverflowDeferredFree \<or> overflow_refcount a (pl_page e) \<noteq> 0 then
       (case ready_loop es a of (ready, requeue, a) \<Rightarrow> (ready, e # requeue, a))
     else
       (case ready_loop es (a\<lparr>overflow_refcounts := (overflow_refcounts a)(pl_page e := None)\<rparr>) of
          (ready, requeue, a) \<Rightarrow> (pl_page e # ready, requeue, a)))"

definition drain_deferred_free_pages :: "allocator \<Rightarrow> u32 list \<times> allocator" where
  "drain_deferred_free_pages a = (case take_eligible (checkpoint_fence a) (lifetime_queue a) of
     (es, q) \<Rightarrow> (case ready_loop es (a\<lparr>lifetime_queue := q\<rparr>) of
       (ready, requeue, a) \<Rightarrow> (ready, a\<lparr>lifetime_queue := fold push_entry requeue (lifetime_queue a)\<rparr>)))"

section \<open>The free lists are chains through freed pages\<close>

fun free_chain :: "slots \<Rightarrow> page_size \<Rightarrow> u32 \<Rightarrow> u32 list \<Rightarrow> bool" where
  "free_chain sl sz p [] = (p = 0)"
| "free_chain sl sz p (q # qs) = (p = q \<and> q \<noteq> 0 \<and> free_chain sl sz (read_free_link sl q sz) qs)"

definition free_lists :: "file_header \<Rightarrow> slots \<Rightarrow> (page_size \<Rightarrow> u32 list) \<Rightarrow> bool" where
  "free_lists h sl fl \<longleftrightarrow> slots_ok sl \<and> total_page_count h \<noteq> 0 \<and>
     (\<forall>sz. free_chain sl sz (free_list_head sz h) (fl sz) \<and> distinct (fl sz) \<and>
        unat (free_page_count sz h) = length (fl sz) \<and> (\<forall>p \<in> set (fl sz). p < total_page_count h)) \<and>
     set (fl Small4k) \<inter> set (fl Large32k) = {}"

lemma page_size_all: "(\<forall>sz. P sz) \<longleftrightarrow> P Small4k \<and> P Large32k"
  by (metis page_size.exhaust)

lemma header_size_fields [simp]:
  "free_list_head sz (set_free_list_head sz' p h) = (if sz = sz' then p else free_list_head sz h)"
  "free_page_count sz (set_free_page_count sz' n h) = (if sz = sz' then n else free_page_count sz h)"
  "free_list_head sz (set_free_page_count sz' n h) = free_list_head sz h"
  "free_page_count sz (set_free_list_head sz' p h) = free_page_count sz h"
  "free_list_head sz (h\<lparr>total_page_count := t\<rparr>) = free_list_head sz h"
  "free_page_count sz (h\<lparr>total_page_count := t\<rparr>) = free_page_count sz h"
  "total_page_count (set_free_list_head sz p h) = total_page_count h"
  "total_page_count (set_free_page_count sz n h) = total_page_count h"
  by (cases sz; cases sz'; simp add: free_list_head_def free_page_count_def set_free_list_head_def set_free_page_count_def)+

lemma free_chain_other: "p \<notin> set qs \<Longrightarrow> free_chain (write_page sl p b) sz q qs = free_chain sl sz q qs"
  by (induction qs arbitrary: q) (auto simp: read_free_link_def read_page_def write_page_def)

lemma free_chain_nonzero: "free_chain sl sz q qs \<Longrightarrow> 0 \<notin> set qs"
  by (induction qs arbitrary: q) auto

lemma slots_ok_write: "slots_ok sl \<Longrightarrow> length b \<le> PAGE_SIZE_LEAF \<Longrightarrow> slots_ok (write_page sl p b)"
  by (simp add: slots_ok_def write_page_def)

lemma read_write_page:
  assumes "slots_ok sl" "length b = page_size_bytes sz"
  shows "read_page (write_page sl p b) p sz = b"
  using assms by (simp add: read_page_def write_page_def put_def)

lemma read_write_other: "p \<noteq> q \<Longrightarrow> read_page (write_page sl p b) q sz = read_page sl q sz"
  by (simp add: read_page_def write_page_def)

lemma free_link_length: "length (put (replicate (page_size_bytes sz) 0) 0 (u32_to_le_bytes n)) = page_size_bytes sz"
  by (cases sz) simp_all

lemma read_write_free_link: "slots_ok sl \<Longrightarrow> read_free_link (write_free_link sl p n sz) p sz = n"
  unfolding read_free_link_def write_free_link_def
  by (simp add: read_write_page free_link_length) (cases sz; simp add: int_at_put_same)

lemma free_lists_at:
  assumes "free_lists h sl fl"
  shows "free_chain sl sz (free_list_head sz h) (fl sz)" "distinct (fl sz)"
    "unat (free_page_count sz h) = length (fl sz)" "p \<in> set (fl sz) \<Longrightarrow> p < total_page_count h"
  using assms unfolding free_lists_def by blast+

section \<open>Allocation and release\<close>

lemma allocate_pop:
  assumes "free_lists h sl fl" "fl sz = p # ps"
  shows "\<exists>h'. page_allocate sz sl h = (Inr p, h') \<and> free_lists h' sl (fl(sz := ps)) \<and> total_page_count h' = total_page_count h"
proof -
  have c: "free_chain sl sz (free_list_head sz h) (p # ps)" "unat (free_page_count sz h) = Suc (length ps)"
    using free_lists_at(1,3) [OF assms(1), of sz] assms(2) by simp_all
  then have n: "unat (saturating_sub (free_page_count sz h) 1) = length ps"
    by (simp add: saturating_sub_def unat_sub word_le_nat_alt)
  let ?h = "set_free_page_count sz (saturating_sub (free_page_count sz h) 1)
     (set_free_list_head sz (read_free_link sl p sz) h)"
  have "page_allocate sz sl h = (Inr p, ?h)" using c(1) by (simp add: page_allocate_def)
  moreover have "free_lists ?h sl (fl(sz := ps))"
    using assms c n by (cases sz) (auto simp: free_lists_def page_size_all)
  ultimately show ?thesis by simp
qed

lemma allocate_extend:
  assumes "free_lists h sl fl" "fl sz = []" "total_page_count h \<noteq> - 1"
  shows "\<exists>h'. page_allocate sz sl h = (Inr (total_page_count h), h') \<and> free_lists h' sl fl \<and>
    total_page_count h' = total_page_count h + 1"
proof -
  have z: "free_list_head sz h = 0" using free_lists_at(1) [OF assms(1), of sz] assms(2) by simp
  have "checked_add (total_page_count h) 1 = Some (total_page_count h + 1)"
    using assms(3) by (simp add: checked_add_one)
  then have a: "page_allocate sz sl h = (Inr (total_page_count h), h\<lparr>total_page_count := total_page_count h + 1\<rparr>)"
    using z by (simp add: page_allocate_def)
  have "total_page_count h < total_page_count h + 1" using assms(3) by (simp add: word_less_plus_one)
  then have "free_lists (h\<lparr>total_page_count := total_page_count h + 1\<rparr>) sl fl"
    using assms(1) unfolding free_lists_def by (auto intro: less_trans)
  then show ?thesis using a by simp
qed

lemma allocate_full:
  assumes "free_lists h sl fl" "fl sz = []" "total_page_count h = - 1"
  shows "page_allocate sz sl h = (Inl (DiskFull [] 4096 0 ''page count exhausted''), h)"
proof -
  have z: "free_list_head sz h = 0" using free_lists_at(1) [OF assms(1), of sz] assms(2) by simp
  then show ?thesis using assms(3) by (simp add: page_allocate_def checked_add_one)
qed

lemma unused_count:
  assumes fl: "free_lists h sl fl" and p: "p \<noteq> 0" "p < total_page_count h" "p \<notin> set (fl sz)"
  shows "free_page_count sz h \<noteq> - 1"
proof
  assume m: "free_page_count sz h = - 1"
  have "0 \<notin> set (fl sz)" using free_chain_nonzero free_lists_at(1) [OF fl] by blast
  then have d: "distinct (0 # p # fl sz)" using p free_lists_at(2) [OF fl, of sz] by simp
  have "unat ` set (0 # p # fl sz) \<subseteq> {..<unat (total_page_count h)}"
    using p free_lists_at(4) [OF fl, of _ sz] by (auto simp: word_less_nat_alt)
  then have "card (unat ` set (0 # p # fl sz)) \<le> unat (total_page_count h)"
    using card_mono [of "{..<unat (total_page_count h)}"] by (metis card_lessThan finite_lessThan)
  moreover have "card (unat ` set (0 # p # fl sz)) = card (set (0 # p # fl sz))"
    by (rule card_image, rule inj_onI, simp only: word_unat_eq_iff)
  ultimately have "length (0 # p # fl sz) \<le> unat (total_page_count h)" by (simp only: distinct_card [OF d])
  moreover have "length (fl sz) = 2 ^ 32 - 1" using free_lists_at(3) [OF fl, of sz] m
    by (simp add: unsigned_minus_1_eq_mask mask_eq_exp_minus_1)
  ultimately show False using unat_lt_size [of "total_page_count h"] by simp
qed

lemma free_push:
  assumes fl: "free_lists h sl fl" and p: "p \<noteq> 0" "p < total_page_count h" "p \<notin> set (fl Small4k)" "p \<notin> set (fl Large32k)"
  shows "\<exists>h' sl'. page_free sz p sl h = (Inr (), h', sl') \<and> free_lists h' sl' (fl(sz := p # fl sz)) \<and>
    total_page_count h' = total_page_count h \<and> (\<forall>q. q \<noteq> p \<longrightarrow> sl' q = sl q)"
proof -
  have fresh: "p \<notin> set (fl s)" for s using p by (cases s) auto
  define sl' where "sl' = write_free_link sl p (free_list_head sz h) sz"
  define h' where "h' = set_free_page_count sz (free_page_count sz h + 1) (set_free_list_head sz p h)"
  have n: "free_page_count sz h \<noteq> - 1" using unused_count [OF fl p(1,2) fresh] .
  then have eq: "page_free sz p sl h = (Inr (), h', sl')"
    using p(1,2) by (simp add: page_free_def sl'_def h'_def checked_add_one not_le Let_def)
  have sl: "slots_ok sl" using fl by (simp add: free_lists_def)
  have ok': "slots_ok sl'" unfolding sl'_def write_free_link_def
    by (rule slots_ok_write [OF sl]) (simp only: free_link_length, cases sz; simp add: PAGE_SIZE_LEAF_def)
  have other: "free_chain sl' s q (fl s) = free_chain sl s q (fl s)" for s q
    unfolding sl'_def write_free_link_def by (rule free_chain_other [OF fresh])
  have link: "read_free_link sl' p sz = free_list_head sz h" unfolding sl'_def by (rule read_write_free_link [OF sl])
  have "free_lists h' sl' (fl(sz := p # fl sz))"
    unfolding free_lists_def
  proof (intro conjI allI)
    fix s
    show "free_chain sl' s (free_list_head s h') ((fl(sz := p # fl sz)) s)"
      using p(1) link other free_lists_at(1) [OF fl] by (simp add: h'_def)
    show "unat (free_page_count s h') = length ((fl(sz := p # fl sz)) s)"
      using free_lists_at(3) [OF fl] unat_plus_one [OF n] by (simp add: h'_def)
    show "distinct ((fl(sz := p # fl sz)) s)" using fresh free_lists_at(2) [OF fl] by simp
    show "\<forall>q \<in> set ((fl(sz := p # fl sz)) s). q < total_page_count h'"
      using p(2) free_lists_at(4) [OF fl] by (auto simp: h'_def)
  qed (use ok' fl p(3,4) in \<open>cases sz; auto simp: free_lists_def h'_def\<close>)+
  then show ?thesis using eq by (simp add: h'_def sl'_def write_free_link_def write_page_def)
qed

section \<open>The ledger of pages in use\<close>

text \<open>Runs of the allocator from a new file: a holder of a page may write it and give it
  back; \<open>used\<close> lists the pages handed out and not yet given back, with their sizes.\<close>

inductive ledger :: "file_header \<Rightarrow> slots \<Rightarrow> (u32 \<times> page_size) set \<Rightarrow> bool" where
  ledger_fresh: "slots_ok sl \<Longrightarrow> ledger (header_new t s1 s2) sl {}"
| ledger_alloc: "ledger h sl used \<Longrightarrow> page_allocate sz sl h = (Inr p, h') \<Longrightarrow> ledger h' sl (insert (p, sz) used)"
| ledger_alloc_failed: "ledger h sl used \<Longrightarrow> page_allocate sz sl h = (Inl e, h') \<Longrightarrow> ledger h' sl used"
| ledger_free: "ledger h sl used \<Longrightarrow> (p, sz) \<in> used \<Longrightarrow> page_free sz p sl h = (Inr (), h', sl') \<Longrightarrow>
    ledger h' sl' (used - {(p, sz)})"
| ledger_write: "ledger h sl used \<Longrightarrow> (p, sz) \<in> used \<Longrightarrow> length buf = page_size_bytes sz \<Longrightarrow> ledger h (write_page sl p buf) used"

definition ledger_ok :: "file_header \<Rightarrow> slots \<Rightarrow> (u32 \<times> page_size) set \<Rightarrow> (page_size \<Rightarrow> u32 list) \<Rightarrow> bool" where
  "ledger_ok h sl used fl \<longleftrightarrow> free_lists h sl fl \<and> finite used \<and> inj_on fst used \<and>
     (\<forall>q. q < total_page_count h \<longleftrightarrow> q = 0 \<or> q \<in> fst ` used \<or> q \<in> set (fl Small4k) \<or> q \<in> set (fl Large32k)) \<and>
     0 \<notin> fst ` used \<and> fst ` used \<inter> set (fl Small4k) = {} \<and> fst ` used \<inter> set (fl Large32k) = {}"

lemma ledger_ok_fresh: "slots_ok sl \<Longrightarrow> ledger_ok (header_new t s1 s2) sl {} (\<lambda>_. [])"
proof -
  have "q < 1 \<longleftrightarrow> q = 0" for q :: u32 by (simp add: word_less_1)
  then show "slots_ok sl \<Longrightarrow> ?thesis"
    by (simp add: ledger_ok_def free_lists_def page_size_all free_list_head_def free_page_count_def header_new_def)
qed

lemma ledger_ok_alloc:
  assumes ok: "ledger_ok h sl used fl" and al: "page_allocate sz sl h = (Inr p, h')"
  shows "p \<noteq> 0 \<and> p \<notin> fst ` used \<and> (\<exists>fl'. ledger_ok h' sl (insert (p, sz) used) fl')"
proof (cases "fl sz")
  case (Cons q qs)
  have fl: "free_lists h sl fl" using ok by (simp add: ledger_ok_def)
  from allocate_pop [OF fl Cons] al have p: "p = q" and fl': "free_lists h' sl (fl(sz := qs))"
    and t: "total_page_count h' = total_page_count h" by auto
  have q: "q \<noteq> 0" "q \<notin> set qs" "q \<in> set (fl sz)"
    using free_lists_at(1,2) [OF fl, of sz] Cons by auto
  have "ledger_ok h' sl (insert (p, sz) used) (fl(sz := qs))"
    using ok fl' p t q Cons unfolding ledger_ok_def by (cases sz) (auto simp: free_lists_def)
  moreover have "p \<notin> fst ` used" using ok q(3) p unfolding ledger_ok_def by (cases sz) blast+
  ultimately show ?thesis using q(1) p by blast
next
  case Nil
  have fl: "free_lists h sl fl" using ok by (simp add: ledger_ok_def)
  have n: "total_page_count h \<noteq> - 1" using allocate_full [OF fl Nil] al by auto
  from allocate_extend [OF fl Nil n] al have p: "p = total_page_count h" and fl': "free_lists h' sl fl"
    and t: "total_page_count h' = total_page_count h + 1" by auto
  have new: "\<not> p < total_page_count h" "p \<noteq> 0" using p fl by (auto simp: free_lists_def)
  have lt: "q < total_page_count h' \<longleftrightarrow> q < total_page_count h \<or> q = p" for q
    using word_less_succ_iff [OF n] t p by (auto simp: le_less)
  have "p \<notin> fst ` used" "p \<notin> set (fl Small4k)" "p \<notin> set (fl Large32k)"
    using ok new unfolding ledger_ok_def by blast+
  moreover from this have "ledger_ok h' sl (insert (p, sz) used) fl"
    using ok fl' new(2) unfolding ledger_ok_def lt by auto
  ultimately show ?thesis using new(2) by blast
qed

lemma ledger_ok_free:
  assumes ok: "ledger_ok h sl used fl" and u: "(p, sz) \<in> used"
  shows "\<exists>h' sl'. page_free sz p sl h = (Inr (), h', sl') \<and> ledger_ok h' sl' (used - {(p, sz)}) (fl(sz := p # fl sz))"
proof -
  have fl: "free_lists h sl fl" using ok by (simp add: ledger_ok_def)
  have pu: "p \<in> fst ` used" using u by force
  then have p: "p \<noteq> 0" "p < total_page_count h" "p \<notin> set (fl Small4k)" "p \<notin> set (fl Large32k)"
    using ok unfolding ledger_ok_def by blast+
  obtain h' sl' where f: "page_free sz p sl h = (Inr (), h', sl')" "free_lists h' sl' (fl(sz := p # fl sz))"
      "total_page_count h' = total_page_count h"
    using free_push [OF fl p, of sz] by blast
  have im: "fst ` (used - {(p, sz)}) = fst ` used - {p}"
    using inj_on_image_set_diff [of fst used used "{(p, sz)}"] ok u by (simp add: ledger_ok_def)
  have "ledger_ok h' sl' (used - {(p, sz)}) (fl(sz := p # fl sz))"
    using ok f(2,3) p pu unfolding ledger_ok_def im by (cases sz) (auto intro: inj_on_diff)
  then show ?thesis using f(1) by blast
qed

lemma ledger_ok_write:
  assumes ok: "ledger_ok h sl used fl" and u: "(p, sz) \<in> used" and len: "length buf = page_size_bytes sz"
  shows "ledger_ok h (write_page sl p buf) used fl"
proof -
  have pu: "p \<in> fst ` used" using u by force
  then have "p \<notin> set (fl s)" for s using ok unfolding ledger_ok_def by (cases s) blast+
  then have "free_chain (write_page sl p buf) s q (fl s) = free_chain sl s q (fl s)" for s q
    by (rule free_chain_other)
  moreover have "slots_ok (write_page sl p buf)"
  proof (rule slots_ok_write)
    show "slots_ok sl" using ok by (simp add: ledger_ok_def free_lists_def)
    show "length buf \<le> PAGE_SIZE_LEAF" using len by (cases sz) (simp_all add: PAGE_SIZE_LEAF_def)
  qed
  ultimately have "free_lists h (write_page sl p buf) fl"
    using ok unfolding ledger_ok_def free_lists_def by metis
  then show ?thesis using ok unfolding ledger_ok_def by blast
qed

lemma ledger_invariant: "ledger h sl used \<Longrightarrow> \<exists>fl. ledger_ok h sl used fl"
proof (induction rule: ledger.induct)
  case (ledger_fresh sl t s1 s2)
  then show ?case using ledger_ok_fresh by blast
next
  case (ledger_alloc h sl used sz p h')
  then show ?case using ledger_ok_alloc by blast
next
  case (ledger_alloc_failed h sl used sz e h')
  then have "h' = h" by (auto simp: page_allocate_def Let_def split: if_splits option.splits)
  then show ?case using ledger_alloc_failed by simp
next
  case (ledger_free h sl used p sz h' sl')
  then obtain fl where "ledger_ok h sl used fl" by blast
  from ledger_ok_free [OF this ledger_free(2)] show ?case using ledger_free(3) by auto
next
  case (ledger_write h sl used p sz buf)
  then show ?case using ledger_ok_write by blast
qed

lemma ledger_count:
  assumes "ledger_ok h sl used fl"
  shows "unat (total_page_count h) = 1 + card used + unat (free_page_count_4k h) + unat (free_page_count_32k h)"
proof -
  let ?n = "total_page_count h"
  have fl: "free_lists h sl fl" using assms by (simp add: ledger_ok_def)
  have z: "0 \<notin> set (fl s)" for s using free_chain_nonzero free_lists_at(1) [OF fl] by blast
  have inj: "inj_on unat X" for X :: "u32 set" by (rule inj_onI, simp only: word_unat_eq_iff)
  have "unat ` {q. q < ?n} = {..<unat ?n}"
  proof (intro equalityI subsetI)
    fix i assume "i \<in> {..<unat ?n}"
    then have i: "i < unat ?n" by simp
    then have "unat (of_nat i :: u32) = i" using unat_lt_size [of ?n] by (simp add: unat_of_nat)
    then show "i \<in> unat ` {q. q < ?n}" using i by (intro image_eqI [of _ _ "of_nat i"]) (simp_all add: word_less_nat_alt)
  qed (auto simp: word_less_nat_alt)
  then have "card {q. q < ?n} = unat ?n" using card_image [OF inj, of "{q. q < ?n}"] by simp
  also have "{q. q < ?n} = {0} \<union> (fst ` used \<union> (set (fl Small4k) \<union> set (fl Large32k)))"
    using assms by (auto simp: ledger_ok_def)
  also have "card \<dots> = 1 + (card (fst ` used) + (card (set (fl Small4k)) + card (set (fl Large32k))))"
  proof -
    have "finite (fst ` used)" "0 \<notin> fst ` used" "fst ` used \<inter> (set (fl Small4k) \<union> set (fl Large32k)) = {}"
      using assms by (simp_all add: ledger_ok_def Int_Un_distrib)
    moreover have "set (fl Small4k) \<inter> set (fl Large32k) = {}" using fl by (simp add: free_lists_def)
    ultimately show ?thesis using z by (simp add: card_Un_disjoint)
  qed
  finally show ?thesis
    using assms free_lists_at(2,3) [OF fl, of Small4k] free_lists_at(2,3) [OF fl, of Large32k]
    by (simp add: ledger_ok_def card_image distinct_card free_page_count_def)
qed

section \<open>Drains\<close>

lemma page_free_slots: "page_free sz p sl h = (r, h', sl') \<Longrightarrow> q \<noteq> p \<Longrightarrow> sl' q = sl q"
  by (auto simp: page_free_def Let_def write_free_link_def write_page_def split: if_splits option.splits)

definition may_release :: "allocator \<Rightarrow> page_lifetime_entry \<Rightarrow> bool" where
  "may_release a e \<longleftrightarrow> pl_kind e = RetiredTree4k \<or> overflow_refcount a (pl_page e) = 0"

text \<open>The loop rewrites only the pages of entries it may release, leaves every count and
  the queue as they were, and puts aside exactly the other entries.\<close>

lemma free_loop_safe:
  "free_loop es freed rq a sl = (r, a', sl') \<Longrightarrow>
     (\<forall>p. overflow_refcount a' p = overflow_refcount a p) \<and> lifetime_queue a' = lifetime_queue a \<and>
     (\<forall>p. sl' p \<noteq> sl p \<longrightarrow> (\<exists>e \<in> set es. pl_page e = p \<and> may_release a e)) \<and>
     (\<forall>n rq'. r = Inr (n, rq') \<longrightarrow> rq' = rq @ filter (\<lambda>e. \<not> may_release a e) es)"
proof (induction es arbitrary: freed rq a sl)
  case (Cons e es)
  define sz where "sz = (if pl_kind e = RetiredTree4k then Small4k else Large32k)"
  obtain r1 h1 sl1 where pf: "page_free sz (pl_page e) sl (al_header a) = (r1, h1, sl1)"
    by (cases "page_free sz (pl_page e) sl (al_header a)")
  have sl1: "sl1 q = sl q" if "q \<noteq> pl_page e" for q using page_free_slots [OF pf that] .
  show ?case
  proof (cases "may_release a e")
    case False
    then have "free_loop es freed (rq @ [e]) a sl = (r, a', sl')"
      using Cons.prems by (simp add: may_release_def)
    from Cons.IH [OF this] show ?thesis using False by auto
  next
    case True
    define a1 where "a1 = (if pl_kind e = RetiredTree4k then a\<lparr>al_header := h1\<rparr>
        else a\<lparr>al_header := h1, overflow_refcounts := (overflow_refcounts a)(pl_page e := None)\<rparr>)"
    have rc: "overflow_refcount a1 p = overflow_refcount a p" for p
      using True by (auto simp: a1_def overflow_refcount_def may_release_def)
    then have mr: "may_release a1 x = may_release a x" for x by (simp add: may_release_def)
    show ?thesis
    proof (cases r1)
      case (Inl err)
      then have "r = Inl err" "a' = a\<lparr>al_header := h1\<rparr>" "sl' = sl1"
        using Cons.prems pf True by (auto simp: may_release_def sz_def split: if_splits)
      then show ?thesis using sl1 True by (auto simp: overflow_refcount_def)
    next
      case (Inr u)
      then have "free_loop es (freed + 1) rq a1 sl1 = (r, a', sl')"
        using Cons.prems pf True by (auto simp: may_release_def sz_def a1_def split: if_splits)
      from Cons.IH [OF this]
      have ih: "\<forall>p. overflow_refcount a' p = overflow_refcount a p" "lifetime_queue a' = lifetime_queue a1"
        "\<forall>p. sl' p \<noteq> sl1 p \<longrightarrow> (\<exists>e \<in> set es. pl_page e = p \<and> may_release a e)"
        "\<forall>n rq'. r = Inr (n, rq') \<longrightarrow> rq' = rq @ filter (\<lambda>e. \<not> may_release a e) es"
        by (simp_all add: rc mr)
      have "\<exists>x \<in> set (e # es). pl_page x = p \<and> may_release a x" if "sl' p \<noteq> sl p" for p
        using that ih(3) sl1 [of p] True by (cases "p = pl_page e") auto
      then show ?thesis using ih True by (simp add: a1_def)
    qed
  qed
qed auto

definition queue_entries :: "page_lifetime_queue \<Rightarrow> page_lifetime_entry set" where
  "queue_entries q = set (pq_overflow q) \<union> set (pq_retired q)"

lemma queue_entries_push: "queue_entries (push_entry e q) = insert e (queue_entries q)"
  by (cases "pl_kind e") (auto simp: queue_entries_def push_entry_def)

lemma queue_entries_fold: "queue_entries (fold push_entry es q) = set es \<union> queue_entries q"
  by (induction es arbitrary: q) (auto simp: queue_entries_push)

definition released_by :: "allocator \<Rightarrow> ts option \<Rightarrow> page_lifetime_entry \<Rightarrow> bool" where
  "released_by a floor e \<longleftrightarrow> is_fence_eligible e (checkpoint_fence a) \<and> may_release a e \<and>
     (e \<in> set (pq_overflow (lifetime_queue a)) \<or>
      e \<in> set (pq_retired (lifetime_queue a)) \<and> (\<exists>f. floor = Some f \<and> reader_fence_ts e \<le> f))"

lemma free_drained_safe:
  assumes "free_drained_entries es a sl = (r, a', sl')"
  shows "(\<forall>p. sl' p \<noteq> sl p \<longrightarrow> (\<exists>e \<in> set es. pl_page e = p \<and> may_release a e)) \<and>
    (\<forall>n. r = Inr n \<longrightarrow> queue_entries (lifetime_queue a') =
       {e \<in> set es. \<not> may_release a e} \<union> queue_entries (lifetime_queue a))"
proof (cases "es = [] \<or> frozen a")
  case True
  then show ?thesis using assms by (auto simp: free_drained_entries_def split: if_splits)
next
  case False
  obtain r1 a1 sl1 where l: "free_loop es 0 [] a sl = (r1, a1, sl1)" by (cases "free_loop es 0 [] a sl")
  note safe = free_loop_safe [OF l]
  show ?thesis
  proof (cases r1)
    case (Inl e)
    then show ?thesis using assms False l safe by (auto simp: free_drained_entries_def)
  next
    case (Inr x)
    then obtain n rq where x: "r1 = Inr (n, rq)" by (cases x) auto
    then show ?thesis using assms False l safe
      by (auto simp: free_drained_entries_def queue_entries_fold)
  qed
qed

section \<open>Properties\<close>



text \<open>Property C26. A checkpoint drain rewrites a page only on behalf of a queued entry whose
  checkpoint fence has passed, whose overflow count is zero, and, for a page of a dropped
  tree, whose reader fence the oldest required timestamp has reached; a drain that succeeds
  keeps every other entry queued.\<close>

theorem drain_spares_live_pages:
  assumes "drain_free_queue_with_retired floor a sl = (r, a', sl')"
  shows "(\<forall>p. sl' p \<noteq> sl p \<longrightarrow> (\<exists>e. pl_page e = p \<and> released_by a floor e)) \<and>
    (\<forall>n. r = Inr n \<longrightarrow> {e \<in> queue_entries (lifetime_queue a). \<not> released_by a floor e} \<subseteq> queue_entries (lifetime_queue a'))"
proof (cases "frozen a")
  case True
  then show ?thesis using assms by (auto simp: drain_free_queue_with_retired_def)
next
  case False
  let ?q = "lifetime_queue a" and ?f = "checkpoint_fence a"
  define es where "es = filter (\<lambda>e. is_fence_eligible e ?f) (pq_overflow ?q) @ filter (retired_releasable ?f floor) (pq_retired ?q)"
  define a1 where "a1 = a\<lparr>lifetime_queue := ?q\<lparr>pq_overflow := filter (\<lambda>e. \<not> is_fence_eligible e ?f) (pq_overflow ?q),
     pq_retired := filter (\<lambda>e. \<not> retired_releasable ?f floor e) (pq_retired ?q)\<rparr>\<rparr>"
  have "free_drained_entries es a1 sl = (r, a', sl')"
    using assms False by (simp add: drain_free_queue_with_retired_def take_eligible_def take_eligible_retired_def es_def a1_def)
  note safe = free_drained_safe [OF this]
  have mr: "may_release a1 e = may_release a e" for e by (simp add: may_release_def overflow_refcount_def a1_def)
  have rel: "released_by a floor e" if "e \<in> set es" "may_release a e" for e
    using that by (auto simp: es_def released_by_def retired_releasable_def split: option.splits)
  have "e \<in> set es \<and> may_release a e \<or> e \<in> queue_entries (lifetime_queue a1) \<or> e \<in> set es \<and> \<not> may_release a e"
    if "e \<in> queue_entries ?q" for e
    using that by (auto simp: queue_entries_def es_def a1_def)
  then show ?thesis using safe rel unfolding mr by blast
qed

theorem drain_spares_live_pages_witness:
  "\<forall>p. snd (snd (drain_free_queue_with_retired (Some (Ts 4 0))
      ((allocator_new (header_new 0 0 0))\<lparr>checkpoint_fence := 2,
         lifetime_queue := \<lparr>pq_overflow = [], pq_retired = [\<lparr>pl_kind = RetiredTree32k, pl_page = 1, enqueue_fence = 1,
           reader_fence_ts = Ts 5 0\<rparr>]\<rparr>\<rparr>) (\<lambda>_. []))) p = []"
proof -
  define a where "a = (allocator_new (header_new 0 0 0))\<lparr>checkpoint_fence := 2,
         lifetime_queue := \<lparr>pq_overflow = [], pq_retired = [\<lparr>pl_kind = RetiredTree32k, pl_page = 1, enqueue_fence = 1,
           reader_fence_ts = Ts 5 0\<rparr>]\<rparr>\<rparr>"
  obtain r a' sl' where d: "drain_free_queue_with_retired (Some (Ts 4 0)) a (\<lambda>_. []) = (r, a', sl')"
    by (metis prod.exhaust)
  have "\<not> released_by a (Some (Ts 4 0)) e" for e
    by (auto simp: released_by_def a_def less_eq_ts_def less_ts_def)
  then have "sl' p = []" for p using drain_spares_live_pages [OF d] by auto
  then show ?thesis using d by (simp add: a_def)
qed

end
