(* ===== verification/History_Store.thy ===== *)
theory History_Store
  imports Version_Chain Leaf_Node Allocator
begin

text \<open>
  The history store (\<open>storage/history_store.rs\<close>) and its key and value codec
  (\<open>storage/history_store/codec.rs\<close>): superseded versions kept in a B-tree of their own,
  keyed so that the versions of one document are adjacent and ascend by timestamp.

  The B-tree is an ordered map from key to value bytes; a range scan hands back cells,
  and a value above the overflow threshold comes back as an overflow pointer, whose page
  number no operation here reads. The allocator handle a decoded overflow value needs is the
  argument \<open>alloc\<close>, the outcome of \<open>OverflowRef::new_owned\<close> for each first page;
  \<open>try_clone\<close> is the liveness test of a spill. Garbage collection drops references on the
  allocator itself.
\<close>

section \<open>Identities and keys\<close>

datatype tree_kind = Primary | Secondary (tk_index_id: i64)

record tree_ident =
  collection_id :: i64
  tree_kind_of :: tree_kind

definition HISTORY_TREE_KIND_PRIMARY :: u8 where "HISTORY_TREE_KIND_PRIMARY = 0x00"
definition HISTORY_TREE_KIND_SECONDARY :: u8 where "HISTORY_TREE_KIND_SECONDARY = 0x01"
definition HISTORY_PRIMARY_INDEX_ID :: i64 where "HISTORY_PRIMARY_INDEX_ID = 0"
definition HISTORY_KEY_FIXED_PREFIX_LEN :: nat where "HISTORY_KEY_FIXED_PREFIX_LEN = 8 + 1 + 8 + 4"
definition HISTORY_KEY_TS_LEN :: nat where "HISTORY_KEY_TS_LEN = 12"
definition HISTORY_KEY_COUNTER_LEN :: nat where "HISTORY_KEY_COUNTER_LEN = 4"

definition history_tree_parts :: "tree_ident \<Rightarrow> u8 \<times> i64" where
  "history_tree_parts ident = (case tree_kind_of ident of
     Primary \<Rightarrow> (HISTORY_TREE_KIND_PRIMARY, HISTORY_PRIMARY_INDEX_ID)
   | Secondary index_id \<Rightarrow> (HISTORY_TREE_KIND_SECONDARY, index_id))"

definition history_ident_from_parts :: "i64 \<Rightarrow> u8 \<Rightarrow> i64 \<Rightarrow> tree_ident option" where
  "history_ident_from_parts cid kind index_id =
    (if kind = HISTORY_TREE_KIND_PRIMARY \<and> index_id = HISTORY_PRIMARY_INDEX_ID
     then Some \<lparr>collection_id = cid, tree_kind_of = Primary\<rparr>
     else if kind = HISTORY_TREE_KIND_SECONDARY
     then Some \<lparr>collection_id = cid, tree_kind_of = Secondary index_id\<rparr>
     else None)"

definition probe_prefix :: "tree_ident \<Rightarrow> bytes \<Rightarrow> bytes" where
  "probe_prefix ident key_bytes = (let (tree_kind, index_id) = history_tree_parts ident in
     u64_to_be_bytes (collection_id ident) @ [tree_kind] @ u64_to_be_bytes index_id @
     u32_to_be_bytes (of_nat (length key_bytes)) @ key_bytes)"

definition encode_history_key :: "tree_ident \<Rightarrow> bytes \<Rightarrow> ts \<Rightarrow> u32 \<Rightarrow> bytes" where
  "encode_history_key ident key_bytes start counter = (let (tree_kind, index_id) = history_tree_parts ident in
     u64_to_be_bytes (collection_id ident) @ [tree_kind] @ u64_to_be_bytes index_id @
     u32_to_be_bytes (of_nat (length key_bytes)) @ key_bytes @
     ts_to_be_bytes start @ u32_to_be_bytes counter)"

definition decode_history_key :: "bytes \<Rightarrow> (tree_ident \<times> bytes \<times> ts \<times> u32) option" where
  "decode_history_key bs =
    (if length bs < HISTORY_KEY_FIXED_PREFIX_LEN + HISTORY_KEY_TS_LEN + HISTORY_KEY_COUNTER_LEN then None
     else let cid = u64_from_be_bytes (sub bs 0 8);
              kind = bs ! 8;
              index_id = u64_from_be_bytes (sub bs 9 17);
              key_len = unat (u32_from_be_bytes (sub bs 17 21));
              key_start = HISTORY_KEY_FIXED_PREFIX_LEN;
              key_end = key_start + key_len;
              ts_end = key_end + HISTORY_KEY_TS_LEN;
              counter_end = ts_end + HISTORY_KEY_COUNTER_LEN
          in if length bs \<noteq> counter_end then None
             else case history_ident_from_parts cid kind index_id of None \<Rightarrow> None
               | Some ident \<Rightarrow> Some (ident, sub bs key_start key_end,
                   ts_from_be_bytes (sub bs key_end ts_end), u32_from_be_bytes (sub bs ts_end counter_end)))"

section \<open>Values\<close>

definition DATA_KIND_INLINE :: u8 where "DATA_KIND_INLINE = 0"
definition DATA_KIND_OVERFLOW :: u8 where "DATA_KIND_OVERFLOW = 1"
definition VALUE_HEADER_LEN :: nat where "VALUE_HEADER_LEN = 12 + 12 + 8 + 1 + 1"

record value_header =
  vh_start_ts :: ts
  vh_stop_ts :: ts
  vh_txn_id :: u64
  vh_is_tombstone :: bool
  vh_data_kind :: u8

definition decode_value_header :: "bytes \<Rightarrow> value_header result" where
  "decode_value_header bs =
    (if length bs < VALUE_HEADER_LEN then Inl (Internal ''history_store: value buffer truncated before fixed header'')
     else Inr \<lparr>vh_start_ts = ts_from_le_bytes (sub bs 0 12), vh_stop_ts = ts_from_le_bytes (sub bs 12 24),
       vh_txn_id = u64_from_le_bytes (sub bs 24 32), vh_is_tombstone = (bs ! 32 \<noteq> 0), vh_data_kind = bs ! 33\<rparr>)"

definition decode_overflow_payload :: "bytes \<Rightarrow> (u32 \<times> u64) result" where
  "decode_overflow_payload bs =
    (if length bs < VALUE_HEADER_LEN + 4 + 8 then Inl (Internal ''history_store: overflow value truncated'')
     else Inr (u32_from_le_bytes (sub bs 34 38), u64_from_le_bytes (sub bs 38 46)))"

definition encode_version_entry_value :: "version_entry \<Rightarrow> bytes" where
  "encode_version_entry_value e =
    ts_to_le_bytes (start_ts e) @ ts_to_le_bytes (stop_ts e) @ u64_to_le_bytes (txn_id e) @ [of_bool (is_tombstone e)] @
    (case data e of
       Inline bs \<Rightarrow> DATA_KIND_INLINE # u32_to_le_bytes (of_nat (length bs)) @ bs
     | Overflow first_page total_length \<Rightarrow>
         DATA_KIND_OVERFLOW # u32_to_le_bytes first_page @ u64_to_le_bytes total_length)"

type_synonym overflow_alloc = "(u32 \<Rightarrow> unit result) option"

definition decode_version_entry_value :: "bytes \<Rightarrow> overflow_alloc \<Rightarrow> version_entry result" where
  "decode_version_entry_value bs alloc =
    rbind (decode_value_header bs) (\<lambda>h.
    rbind
      (if vh_data_kind h = DATA_KIND_INLINE then
         rbind (rguard (34 + 4 \<le> length bs) (Internal ''history_store: inline value missing length prefix'')) (\<lambda>_.
           let len = unat (u32_from_le_bytes (sub bs 34 38)); end' = 38 + len in
         rbind (rguard (end' \<le> length bs) (Internal ''history_store: inline payload truncated'')) (\<lambda>_.
           Inr (Inline (sub bs 38 end'))))
       else if vh_data_kind h = DATA_KIND_OVERFLOW then
         rbind (decode_overflow_payload bs) (\<lambda>(first_page, total_length).
         rbind (ok_or (Internal ''history_store: overflow entry requires allocator handle'') alloc) (\<lambda>incref.
         rbind (incref first_page) (\<lambda>_. Inr (Overflow first_page total_length))))
       else Inl (Internal ''history_store: unknown data_kind'')) (\<lambda>d.
      Inr \<lparr>start_ts = vh_start_ts h, stop_ts = vh_stop_ts h, txn_id = vh_txn_id h, state = Committed,
        data = d, is_tombstone = vh_is_tombstone h\<rparr>))"

section \<open>The store\<close>

type_synonym history_tree = "(bytes, bytes) smap"

record history_spill =
  hs_ident :: tree_ident
  hs_key :: bytes
  hs_entry :: version_entry
  hs_counter :: u32

text \<open>A cell of the history tree as a range scan returns it.\<close>

definition history_cell :: "bytes \<Rightarrow> cell_value" where
  "history_cell v = (if length v > OVERFLOW_THRESHOLD then Cell_Overflow 0 (of_nat (length v)) else Cell_Inline v)"

definition cell_value_bytes :: "cell_value \<Rightarrow> bytes result" where
  "cell_value_bytes v = (case v of Cell_Inline bs \<Rightarrow> Inr bs
     | Cell_Overflow _ _ \<Rightarrow> Inl (Internal ''history_store: value spilled to overflow''))"

definition tree_range_scan :: "history_tree \<Rightarrow> bytes option \<Rightarrow> bytes option \<Rightarrow> (bytes \<times> cell_value) list" where
  "tree_range_scan t lo hi = map (\<lambda>(k, v). (k, history_cell v))
     (sm_range (\<lambda>k. (case lo of None \<Rightarrow> True | Some l \<Rightarrow> l \<le> k) \<and> (case hi of None \<Rightarrow> True | Some h \<Rightarrow> k \<le> h)) t)"

definition stage :: "(version_entry \<Rightarrow> bool) \<Rightarrow> history_spill list \<Rightarrow> tree_ident \<Rightarrow> bytes \<Rightarrow> version_entry \<Rightarrow> u32 \<Rightarrow>
    history_spill list result" where
  "stage try_clone txn ident key_bytes e counter =
    (if try_clone e then Inr (txn @ [\<lparr>hs_ident = ident, hs_key = key_bytes, hs_entry = e, hs_counter = counter\<rparr>])
     else Inl (Internal ''history_store: overflow ref dropped before history spill''))"

definition spill_primary :: "(version_entry \<Rightarrow> bool) \<Rightarrow> history_spill list \<Rightarrow> tree_ident \<Rightarrow> bytes \<Rightarrow> version_entry \<Rightarrow> u32 \<Rightarrow>
    history_spill list result" where
  "spill_primary try_clone txn ident key_bytes e counter =
    (if tree_kind_of ident \<noteq> Primary then Inl (Internal ''history_store: primary spill requires primary tree identity'')
     else stage try_clone txn ident key_bytes e counter)"

definition spill_sec_index :: "(version_entry \<Rightarrow> bool) \<Rightarrow> history_spill list \<Rightarrow> tree_ident \<Rightarrow> bytes \<Rightarrow> version_entry \<Rightarrow> u32 \<Rightarrow>
    history_spill list result" where
  "spill_sec_index try_clone txn ident key_bytes e counter =
    (if tree_kind_of ident = Primary then Inl (Internal ''history_store: secondary spill requires secondary tree identity'')
     else stage try_clone txn ident key_bytes e counter)"

text \<open>The result says whether a cell was inserted: the inserted cell then owns the
  reference of its producer.\<close>

definition apply_spill :: "history_tree \<Rightarrow> tree_ident \<Rightarrow> bytes \<Rightarrow> version_entry \<Rightarrow> u32 \<Rightarrow> (bool \<times> history_tree) result" where
  "apply_spill t ident key_bytes e counter =
    (let key = encode_history_key ident key_bytes (start_ts e) counter;
         value = encode_version_entry_value e in
     case sm_get t key of
       Some existing \<Rightarrow> if existing = value then Inr (False, t)
         else Inl (DuplicateKey ''history_store: duplicate spill key has different value bytes'')
     | None \<Rightarrow> Inr (True, sm_insert key value t))"

fun commit_spill_txn :: "history_tree \<Rightarrow> history_spill list \<Rightarrow> history_tree result" where
  "commit_spill_txn t [] = Inr t"
| "commit_spill_txn t (w # ws) =
    rbind (apply_spill t (hs_ident w) (hs_key w) (hs_entry w) (hs_counter w)) (\<lambda>(_, t').
      commit_spill_txn t' ws)"

section \<open>Probes\<close>

fun probe_rows :: "bytes \<Rightarrow> ts \<Rightarrow> bool \<Rightarrow> overflow_alloc \<Rightarrow> (bytes \<times> cell_value) list \<Rightarrow> version_entry option result" where
  "probe_rows pre rts skip_tombstones alloc [] = Inr None"
| "probe_rows pre rts skip_tombstones alloc ((key, cell) # rows) =
    (if take (length pre) key \<noteq> pre then probe_rows pre rts skip_tombstones alloc rows
     else rbind (cell_value_bytes cell) (\<lambda>value_bytes.
       rbind (decode_version_entry_value value_bytes alloc) (\<lambda>e.
         if start_ts e > rts \<or> rts \<ge> stop_ts e then probe_rows pre rts skip_tombstones alloc rows
         else if skip_tombstones \<and> is_tombstone e then Inr None
         else Inr (Some e))))"

definition probe_visible_entry ::
  "history_tree \<Rightarrow> overflow_alloc \<Rightarrow> tree_ident \<Rightarrow> bytes \<Rightarrow> ts \<Rightarrow> bool \<Rightarrow> version_entry option result" where
  "probe_visible_entry t alloc ident key_bytes rts skip_tombstones =
    (let pre = probe_prefix ident key_bytes;
         upper = pre @ ts_to_be_bytes rts @ u32_to_be_bytes (- 1);
         rows = tree_range_scan t (Some pre) (Some upper)
     in probe_rows pre rts skip_tombstones alloc (rev rows))"

definition probe_primary :: "history_tree \<Rightarrow> overflow_alloc \<Rightarrow> i64 \<Rightarrow> bytes \<Rightarrow> ts \<Rightarrow> version_entry option result" where
  "probe_primary t alloc cid doc_id rts =
    probe_visible_entry t alloc \<lparr>collection_id = cid, tree_kind_of = Primary\<rparr> doc_id rts False"

definition probe_sec_index :: "history_tree \<Rightarrow> overflow_alloc \<Rightarrow> i64 \<Rightarrow> i64 \<Rightarrow> bytes \<Rightarrow> ts \<Rightarrow> version_entry option result" where
  "probe_sec_index t alloc cid index_id sec_key rts =
    probe_visible_entry t alloc \<lparr>collection_id = cid, tree_kind_of = Secondary index_id\<rparr> sec_key rts True"

section \<open>Garbage collection\<close>

record gc_result =
  entries_deleted :: nat
  pages_freed :: nat

fun gc_victims :: "ts \<Rightarrow> (bytes \<times> cell_value) list \<Rightarrow> (bytes \<times> (u32 \<times> u64) option) list result" where
  "gc_victims ort [] = Inr []"
| "gc_victims ort ((key, cell) # rows) =
    rbind (cell_value_bytes cell) (\<lambda>value_bytes.
    rbind (gc_victims ort rows) (\<lambda>rest.
      case decode_value_header value_bytes of
        Inl _ \<Rightarrow> Inr rest
      | Inr h \<Rightarrow>
          if vh_stop_ts h = ts_max \<or> vh_stop_ts h > ort then Inr rest
          else if vh_data_kind h = DATA_KIND_OVERFLOW then
            (case decode_overflow_payload value_bytes of Inl _ \<Rightarrow> Inr rest
             | Inr payload \<Rightarrow> Inr ((key, Some payload) # rest))
          else Inr ((key, None) # rest)))"

text \<open>Deleting the victims: the cell's reference is given back by dropping an \<open>OverflowRef\<close>
  made from it, and a count that is zero afterwards is a freed page.\<close>

fun gc_delete :: "(bytes \<times> (u32 \<times> u64) option) list \<Rightarrow> gc_result \<Rightarrow> allocator option \<Rightarrow> history_tree \<Rightarrow>
    gc_result \<times> allocator option \<times> history_tree" where
  "gc_delete [] r a t = (r, a, t)"
| "gc_delete ((key, ovf) # vs) r a t =
    (case sm_get t key of None \<Rightarrow> gc_delete vs r a t
     | Some _ \<Rightarrow>
        let r = r\<lparr>entries_deleted := entries_deleted r + 1\<rparr>;
            t = sm_remove key t in
        case (ovf, a) of
          (Some (first_page, _), Some refs) \<Rightarrow>
            let refs = overflow_ref_drop first_page refs in
            gc_delete vs (if overflow_refcount refs first_page = 0 then r\<lparr>pages_freed := pages_freed r + 1\<rparr> else r) (Some refs) t
        | _ \<Rightarrow> gc_delete vs r a t)"

definition gc_pass :: "ts \<Rightarrow> allocator option \<Rightarrow> history_tree \<Rightarrow> (gc_result \<times> allocator option \<times> history_tree) result" where
  "gc_pass ort a t =
    rbind (gc_victims ort (tree_range_scan t None None)) (\<lambda>victims.
      Inr (gc_delete victims \<lparr>entries_deleted = 0, pages_freed = 0\<rparr> a t))"

section \<open>Codec facts\<close>

lemma encode_history_key_prefix:
  "encode_history_key ident k t c = probe_prefix ident k @ ts_to_be_bytes t @ u32_to_be_bytes c"
  by (simp add: encode_history_key_def probe_prefix_def split: prod.split)

lemma history_tree_parts_inj: "history_tree_parts a = history_tree_parts b \<Longrightarrow> tree_kind_of a = tree_kind_of b"
  by (auto simp: history_tree_parts_def HISTORY_TREE_KIND_PRIMARY_def HISTORY_TREE_KIND_SECONDARY_def split: tree_kind.splits)

lemma probe_prefix_inj:
  assumes "probe_prefix i k @ s = probe_prefix j l @ s'" "length k < 2 ^ 32" "length l < 2 ^ 32"
  shows "i = j \<and> k = l \<and> s = s'"
proof -
  obtain ki xi where i: "history_tree_parts i = (ki, xi)" by (cases "history_tree_parts i")
  obtain kj xj where j: "history_tree_parts j = (kj, xj)" by (cases "history_tree_parts j")
  have eq: "u64_to_be_bytes (collection_id i) = u64_to_be_bytes (collection_id j)" "ki = kj"
    "u64_to_be_bytes xi = u64_to_be_bytes xj"
    "u32_to_be_bytes (of_nat (length k)) = u32_to_be_bytes (of_nat (length l))" "k @ s = l @ s'"
    using assms(1) by (simp_all add: probe_prefix_def i j append_eq_append_conv)
  have "(of_nat (length k) :: u32) = of_nat (length l)" using eq(4) by simp
  then have "unat (of_nat (length k) :: u32) = unat (of_nat (length l) :: u32)" by simp
  then have "length k = length l" using assms(2,3) by (simp add: unat_of_nat)
  then have "k = l" "s = s'" using eq(5) by simp_all
  moreover have "history_tree_parts i = history_tree_parts j" using eq i j by simp
  ultimately show ?thesis using eq(1) history_tree_parts_inj by (metis int_codec_inj tree_ident.surjective old.unit.exhaust)
qed

lemma encode_history_key_inj:
  assumes "encode_history_key i k t c = encode_history_key j l u d" "length k < 2 ^ 32" "length l < 2 ^ 32"
  shows "i = j \<and> k = l \<and> t = u \<and> c = d"
  using probe_prefix_inj [OF assms(1) [unfolded encode_history_key_prefix] assms(2,3)] by simp

lemma encode_history_key_decode:
  assumes "length k < 2 ^ 32"
  shows "decode_history_key (encode_history_key i k t c) = Some (i, k, t, c)"
proof -
  obtain kind xi where p: "history_tree_parts i = (kind, xi)" by (cases "history_tree_parts i")
  have id: "history_ident_from_parts (collection_id i) kind xi = Some i"
    using p by (cases i) (auto simp: history_tree_parts_def history_ident_from_parts_def HISTORY_TREE_KIND_PRIMARY_def
        HISTORY_TREE_KIND_SECONDARY_def split: tree_kind.splits)
  have len: "unat (of_nat (length k) :: u32) = length k" using assms by (simp add: unat_of_nat)
  show ?thesis
    by (simp add: encode_history_key_def p decode_history_key_def HISTORY_KEY_FIXED_PREFIX_LEN_def
        HISTORY_KEY_TS_LEN_def HISTORY_KEY_COUNTER_LEN_def sub_def nth_append len id Let_def drop_Cons')
qed

text \<open>What a persisted value may hold: a committed version, inline data short enough
  for its length prefix.\<close>

definition encodable :: "version_entry \<Rightarrow> bool" where
  "encodable e \<longleftrightarrow> state e = Committed \<and> (case data e of Inline bs \<Rightarrow> length bs < 2 ^ 32 | Overflow _ _ \<Rightarrow> True)"

definition readable :: "overflow_alloc \<Rightarrow> version_entry \<Rightarrow> bool" where
  "readable alloc e \<longleftrightarrow> (case data e of Inline _ \<Rightarrow> True
     | Overflow first_page _ \<Rightarrow> (case alloc of None \<Rightarrow> False | Some incref \<Rightarrow> incref first_page = Inr ()))"

lemma encoded_value_header:
  "decode_value_header (encode_version_entry_value e) =
    Inr \<lparr>vh_start_ts = start_ts e, vh_stop_ts = stop_ts e, vh_txn_id = txn_id e, vh_is_tombstone = is_tombstone e,
      vh_data_kind = (case data e of Inline _ \<Rightarrow> DATA_KIND_INLINE | Overflow _ _ \<Rightarrow> DATA_KIND_OVERFLOW)\<rparr>"
  by (cases "data e") (simp_all add: decode_value_header_def encode_version_entry_value_def VALUE_HEADER_LEN_def
      sub_def nth_append)

lemma encoded_overflow_payload:
  "data e = Overflow p n \<Longrightarrow> decode_overflow_payload (encode_version_entry_value e) = Inr (p, n)"
  by (simp add: decode_overflow_payload_def encode_version_entry_value_def VALUE_HEADER_LEN_def sub_def)

lemma encode_value_decode:
  assumes "encodable e" "readable alloc e"
  shows "decode_version_entry_value (encode_version_entry_value e) alloc = Inr e"
proof (cases "data e")
  case (Inline bs)
  have len: "unat (of_nat (length bs) :: u32) = length bs"
    using assms(1) Inline by (simp add: encodable_def unat_of_nat)
  show ?thesis using assms(1) Inline
    by (simp add: decode_version_entry_value_def encoded_value_header encodable_def)
       (simp add: encode_version_entry_value_def sub_def nth_append len)
next
  case (Overflow p n)
  then obtain f where "alloc = Some f" "f p = Inr ()"
    using assms(2) by (auto simp: readable_def split: option.splits)
  then show ?thesis using assms(1) Overflow encoded_overflow_payload [OF Overflow]
    by (simp add: decode_version_entry_value_def encoded_value_header encodable_def
        DATA_KIND_INLINE_def DATA_KIND_OVERFLOW_def)
qed

section \<open>The store invariant\<close>

text \<open>Every cell of the tree is the encoding of one committed version, short enough to
  stay inline in its leaf.\<close>

definition fits_inline :: "version_entry \<Rightarrow> bool" where
  "fits_inline e \<longleftrightarrow> length (encode_version_entry_value e) \<le> OVERFLOW_THRESHOLD"

definition spillable :: "bytes \<Rightarrow> version_entry \<Rightarrow> bool" where
  "spillable k e \<longleftrightarrow> length k < 2 ^ 32 \<and> encodable e \<and> fits_inline e"

definition hist_ok :: "history_tree \<Rightarrow> bool" where
  "hist_ok t \<longleftrightarrow> sm_inv t \<and>
    (\<forall>(key, v) \<in> set t. \<exists>i k c e. key = encode_history_key i k (start_ts e) c \<and> v = encode_version_entry_value e \<and>
       spillable k e)"

definition hist_stored :: "history_tree \<Rightarrow> tree_ident \<Rightarrow> bytes \<Rightarrow> u32 \<Rightarrow> version_entry \<Rightarrow> bool" where
  "hist_stored t i k c e \<longleftrightarrow> spillable k e \<and>
     sm_get t (encode_history_key i k (start_ts e) c) = Some (encode_version_entry_value e)"

definition covers :: "ts \<Rightarrow> version_entry \<Rightarrow> bool" where
  "covers rts e \<longleftrightarrow> start_ts e \<le> rts \<and> rts < stop_ts e"

lemma hist_ok_inv: "hist_ok t \<Longrightarrow> sm_inv t"
  by (simp add: hist_ok_def)

lemma hist_ok_row:
  assumes "hist_ok t" "(key, v) \<in> set t"
  obtains i k c e where "key = encode_history_key i k (start_ts e) c" "v = encode_version_entry_value e" "spillable k e"
    "hist_stored t i k c e"
proof -
  obtain i k c e where kv: "key = encode_history_key i k (start_ts e) c" "v = encode_version_entry_value e" "spillable k e"
    using assms unfolding hist_ok_def by fast
  moreover have "sm_get t key = Some v"
    using assms by (simp add: sm_get_iff hist_ok_inv)
  ultimately show ?thesis using that by (simp add: hist_stored_def)
qed

lemma hist_ok_empty: "hist_ok []"
  by (simp add: hist_ok_def)

lemma hist_ok_insert:
  assumes "hist_ok t" "spillable k e"
  shows "hist_ok (sm_insert (encode_history_key i k (start_ts e) c) (encode_version_entry_value e) t)"
proof -
  let ?key = "encode_history_key i k (start_ts e) c"
  have inv: "sm_inv (sm_insert ?key (encode_version_entry_value e) t)"
    using assms(1) by (simp add: hist_ok_inv sm_insert_inv)
  have "\<exists>i k c e. key = encode_history_key i k (start_ts e) c \<and> v = encode_version_entry_value e \<and> spillable k e"
    if "(key, v) \<in> set (sm_insert ?key (encode_version_entry_value e) t)" for key v
  proof (cases "key = ?key")
    case True
    then have "v = encode_version_entry_value e"
      using that inv assms(1) by (simp add: sm_get_iff sm_get_insert hist_ok_inv)
    then show ?thesis using True assms(2) by blast
  next
    case False
    then have "(key, v) \<in> set t"
      using that inv assms(1) by (simp add: sm_get_iff sm_get_insert hist_ok_inv)
    then show ?thesis using assms(1) unfolding hist_ok_def by fast
  qed
  then show ?thesis using inv by (auto simp: hist_ok_def)
qed

lemma encode_value_inj:
  assumes "encodable e" "encodable e'" "encode_version_entry_value e = encode_version_entry_value e'"
  shows "e = e'"
proof -
  define a :: overflow_alloc where "a = Some (\<lambda>_. Inr ())"
  have "readable a x" for x by (cases "data x") (simp_all add: readable_def a_def)
  then have "(Inr e :: version_entry result) = Inr e'"
    using encode_value_decode [OF assms(1)] encode_value_decode [OF assms(2)] assms(3) by metis
  then show ?thesis by simp
qed

lemma hist_stored_unique:
  "\<lbrakk>hist_stored t i k c e; hist_stored t i k c e'; start_ts e = start_ts e'\<rbrakk> \<Longrightarrow> e = e'"
  by (rule encode_value_inj) (simp_all add: hist_stored_def spillable_def)

section \<open>Probes return the newest covering version\<close>

lemma find_append: "find P (xs @ ys) = (case find P xs of None \<Rightarrow> find P ys | Some x \<Rightarrow> Some x)"
  by (induction xs) auto

lemma find_rev_newest:
  assumes "sorted_wrt (<) (map fst xs)" "find P (rev xs) = Some x"
  shows "x \<in> set xs \<and> P x \<and> (\<forall>y \<in> set xs. P y \<longrightarrow> fst y \<le> (fst x :: 'k :: linorder))"
  using assms
proof (induction xs)
  case (Cons a xs)
  show ?case
  proof (cases "find P (rev xs)")
    case None
    then have "\<forall>y \<in> set xs. \<not> P y" by (auto simp: find_None_iff)
    then show ?thesis using Cons.prems(2) None by (auto simp: find_append split: if_splits)
  next
    case (Some z)
    then have "z = x" using Cons.prems(2) by (simp add: find_append)
    then show ?thesis using Cons Some by (fastforce simp: less_imp_le)
  qed
qed simp

text \<open>The entry a row decodes to.\<close>

definition row_entry :: "overflow_alloc \<Rightarrow> bytes \<times> cell_value \<Rightarrow> version_entry result" where
  "row_entry alloc row = rbind (cell_value_bytes (snd row)) (\<lambda>v. decode_version_entry_value v alloc)"

lemma probe_rows_find:
  assumes "\<forall>row \<in> set rows. take (length pre) (fst row) = pre \<longrightarrow> row_entry alloc row = Inr (ent row)"
  shows "probe_rows pre rts skip alloc rows =
    Inr (case find (\<lambda>row. take (length pre) (fst row) = pre \<and> covers rts (ent row)) rows of
           None \<Rightarrow> None | Some row \<Rightarrow> if skip \<and> is_tombstone (ent row) then None else Some (ent row))"
  using assms
proof (induction rows)
  case (Cons row rows)
  obtain key cell where row: "row = (key, cell)" by (cases row)
  show ?case
  proof (cases "take (length pre) key = pre")
    case True
    then obtain v where "cell_value_bytes cell = Inr v" "decode_version_entry_value v alloc = Inr (ent row)"
      using Cons.prems row by (auto simp: row_entry_def rbind_Inr_iff)
    then show ?thesis using Cons row True
      by (auto simp: covers_def not_le not_less)
  next
    case False
    then show ?thesis using Cons row by simp
  qed
qed simp

lemma history_key_le_iff:
  "encode_history_key i k t c \<le> encode_history_key i k u d \<longleftrightarrow> t < u \<or> t = u \<and> c \<le> d"
  by (auto simp: encode_history_key_prefix append_less_iff ts_be_less_iff u32_be_less_iff not_less [symmetric])

lemma append_le_self [simp]: "(pre :: 'a :: linorder list) \<le> pre @ s"
  by (induction pre) auto

lemma history_key_in_range:
  "probe_prefix i k \<le> encode_history_key i k t c \<and>
   (encode_history_key i k t c \<le> probe_prefix i k @ ts_to_be_bytes u @ u32_to_be_bytes (- 1) \<longleftrightarrow> t \<le> u)"
proof
  show "probe_prefix i k \<le> encode_history_key i k t c"
    by (simp add: encode_history_key_prefix)
  show "encode_history_key i k t c \<le> probe_prefix i k @ ts_to_be_bytes u @ u32_to_be_bytes (- 1) \<longleftrightarrow> t \<le> u"
    unfolding encode_history_key_prefix [symmetric] history_key_le_iff by (simp add: word_le_max le_less [of t u])
qed

text \<open>The prefix test of a row holds exactly for the rows of the probed key.\<close>

lemma history_key_prefix_iff:
  assumes "length k < 2 ^ 32" "length l < 2 ^ 32"
  shows "take (length (probe_prefix i k)) (encode_history_key j l t c) = probe_prefix i k \<longleftrightarrow> j = i \<and> l = k"
proof
  assume "take (length (probe_prefix i k)) (encode_history_key j l t c) = probe_prefix i k"
  then have "probe_prefix i k @ drop (length (probe_prefix i k)) (encode_history_key j l t c) = encode_history_key j l t c"
    by (metis append_take_drop_id)
  then have "probe_prefix i k @ drop (length (probe_prefix i k)) (encode_history_key j l t c) =
      probe_prefix j l @ ts_to_be_bytes t @ u32_to_be_bytes c"
    by (simp only: encode_history_key_prefix)
  from probe_prefix_inj [OF this assms] show "j = i \<and> l = k" by simp
qed (simp add: encode_history_key_prefix)

definition readable_at :: "history_tree \<Rightarrow> overflow_alloc \<Rightarrow> tree_ident \<Rightarrow> bytes \<Rightarrow> bool" where
  "readable_at t alloc i k \<longleftrightarrow> (\<forall>c e. hist_stored t i k c e \<longrightarrow> readable alloc e)"

definition newest_covering :: "history_tree \<Rightarrow> tree_ident \<Rightarrow> bytes \<Rightarrow> ts \<Rightarrow> u32 \<Rightarrow> version_entry \<Rightarrow> bool" where
  "newest_covering t i k rts c e \<longleftrightarrow> hist_stored t i k c e \<and> covers rts e \<and>
     (\<forall>c' e'. hist_stored t i k c' e' \<longrightarrow> covers rts e' \<longrightarrow> start_ts e' < start_ts e \<or> start_ts e' = start_ts e \<and> c' \<le> c)"

lemma row_entry_stored:
  "hist_stored t i k c e \<Longrightarrow> readable alloc e \<Longrightarrow> row_entry alloc (key, history_cell (encode_version_entry_value e)) = Inr e"
  by (simp add: row_entry_def history_cell_def cell_value_bytes_def hist_stored_def spillable_def fits_inline_def
      encode_value_decode)

lemma scan_sorted: "sm_inv t \<Longrightarrow> sorted_wrt (<) (map fst (tree_range_scan t lo hi))"
proof -
  have "map fst (tree_range_scan t lo hi) = map fst
     (sm_range (\<lambda>k. (case lo of None \<Rightarrow> True | Some l \<Rightarrow> l \<le> k) \<and> (case hi of None \<Rightarrow> True | Some h \<Rightarrow> k \<le> h)) t)"
    by (auto simp: tree_range_scan_def)
  then show "sm_inv t \<Longrightarrow> ?thesis" using sm_range_inv [of t] by (simp add: sm_inv_def)
qed

lemma scan_iff:
  assumes "sm_inv t"
  shows "(key, cell) \<in> set (tree_range_scan t (Some lo) (Some hi)) \<longleftrightarrow>
    (\<exists>v. sm_get t key = Some v \<and> cell = history_cell v \<and> lo \<le> key \<and> key \<le> hi)"
  using assms by (auto simp: tree_range_scan_def sm_range_def sm_get_iff image_iff)

lemma probe_row_iff:
  assumes "hist_ok t" "length k < 2 ^ 32"
  shows "(key, cell) \<in> set (tree_range_scan t (Some (probe_prefix i k))
      (Some (probe_prefix i k @ ts_to_be_bytes rts @ u32_to_be_bytes (- 1)))) \<and>
      take (length (probe_prefix i k)) key = probe_prefix i k \<longleftrightarrow>
    (\<exists>c e. hist_stored t i k c e \<and> start_ts e \<le> rts \<and> key = encode_history_key i k (start_ts e) c \<and>
       cell = history_cell (encode_version_entry_value e))" (is "?l \<longleftrightarrow> ?r")
proof
  assume l: ?l
  then obtain v where v: "sm_get t key = Some v" "cell = history_cell v" "probe_prefix i k \<le> key"
      "key \<le> probe_prefix i k @ ts_to_be_bytes rts @ u32_to_be_bytes (- 1)"
    by (auto simp: scan_iff [OF hist_ok_inv [OF assms(1)]])
  then have "(key, v) \<in> set t" by (simp add: sm_get_iff hist_ok_inv [OF assms(1)])
  then obtain j l c e where
    e: "key = encode_history_key j l (start_ts e) c" "v = encode_version_entry_value e" "spillable l e" "hist_stored t j l c e"
    by (rule hist_ok_row [OF assms(1)])
  then have "j = i \<and> l = k"
    using l history_key_prefix_iff [OF assms(2), of l i j "start_ts e" c] by (simp add: spillable_def)
  then show ?r using e v history_key_in_range [of i k "start_ts e" c rts] by blast
next
  assume ?r
  then obtain c e where e: "hist_stored t i k c e" "start_ts e \<le> rts" "key = encode_history_key i k (start_ts e) c"
    "cell = history_cell (encode_version_entry_value e)" by blast
  then have "take (length (probe_prefix i k)) key = probe_prefix i k" using history_key_prefix_iff [OF assms(2,2)] by blast
  then show ?l using e history_key_in_range [of i k "start_ts e" c rts]
    by (simp add: scan_iff [OF hist_ok_inv [OF assms(1)]] hist_stored_def)
qed

lemma probe_visible_cases:
  assumes "hist_ok t" "length k < 2 ^ 32" "readable_at t alloc i k"
  shows "(\<exists>c e. newest_covering t i k rts c e \<and> probe_visible_entry t alloc i k rts skip =
            Inr (if skip \<and> is_tombstone e then None else Some e)) \<or>
         (\<forall>c e. hist_stored t i k c e \<longrightarrow> \<not> covers rts e) \<and> probe_visible_entry t alloc i k rts skip = Inr None"
proof -
  define rows where "rows = tree_range_scan t (Some (probe_prefix i k))
      (Some (probe_prefix i k @ ts_to_be_bytes rts @ u32_to_be_bytes (- 1)))"
  define ent where "ent row = projr (row_entry alloc row)" for row
  define P where "P row \<longleftrightarrow> take (length (probe_prefix i k)) (fst row) = probe_prefix i k \<and> covers rts (ent row)" for row
  have ent: "row_entry alloc (key, history_cell (encode_version_entry_value e)) = Inr e"
    if "hist_stored t i k c e" for key c e
    using that assms(3) row_entry_stored unfolding readable_at_def by blast
  have row: "row \<in> set rows \<and> take (length (probe_prefix i k)) (fst row) = probe_prefix i k \<longleftrightarrow>
     (\<exists>c e. hist_stored t i k c e \<and> start_ts e \<le> rts \<and> row = (encode_history_key i k (start_ts e) c,
       history_cell (encode_version_entry_value e)))" for row
    using probe_row_iff [OF assms(1,2), of "fst row" "snd row" i rts] by (cases row) (simp add: rows_def)
  have "\<forall>row \<in> set (rev rows). take (length (probe_prefix i k)) (fst row) = probe_prefix i k \<longrightarrow>
      row_entry alloc row = Inr (ent row)"
    using row ent unfolding ent_def by (metis set_rev sum.sel(2))
  from probe_rows_find [OF this]
  have probe: "probe_visible_entry t alloc i k rts skip = Inr (case find P (rev rows) of None \<Rightarrow> None
     | Some row \<Rightarrow> if skip \<and> is_tombstone (ent row) then None else Some (ent row))"
    by (simp add: probe_visible_entry_def Let_def rows_def P_def [abs_def])
  have mem: "\<exists>row \<in> set rows. row = (encode_history_key i k (start_ts e) c, history_cell (encode_version_entry_value e)) \<and>
      P row \<and> ent row = e" if "hist_stored t i k c e" "covers rts e" for c e
    using that row [of "(encode_history_key i k (start_ts e) c, history_cell (encode_version_entry_value e))"]
      ent [OF that(1)] by (auto simp: P_def ent_def covers_def)
  show ?thesis
  proof (cases "find P (rev rows)")
    case None
    then have "\<not> P row" if "row \<in> set rows" for row using that by (cases row) (auto simp: find_None_iff)
    then show ?thesis using probe None mem by auto
  next
    case (Some r)
    then have r: "r \<in> set rows" "P r" "\<forall>y \<in> set rows. P y \<longrightarrow> fst y \<le> fst r"
      using find_rev_newest [OF _ Some] scan_sorted [OF hist_ok_inv [OF assms(1)]] by (auto simp: rows_def)
    then obtain c e where e: "hist_stored t i k c e" "r = (encode_history_key i k (start_ts e) c,
       history_cell (encode_version_entry_value e))" using row [of r] by (auto simp: P_def)
    then have re: "ent r = e" "covers rts e" using ent r(2) by (simp_all add: ent_def P_def)
    have "newest_covering t i k rts c e"
      unfolding newest_covering_def using e re r(3) mem history_key_le_iff by fastforce
    then show ?thesis using probe Some re by auto
  qed
qed

lemma newest_covering_unique:
  assumes "newest_covering t i k rts c e" "newest_covering t i k rts d x"
  shows "e = x"
proof -
  have "start_ts e = start_ts x \<and> c = d" using assms unfolding newest_covering_def by fastforce
  then show ?thesis using assms hist_stored_unique unfolding newest_covering_def by blast
qed

section \<open>Spills\<close>

lemma apply_spill_stored:
  assumes "hist_ok t" "spillable k e" "apply_spill t i k e c = Inr (b, t')"
  shows "hist_ok t' \<and> (\<forall>j l d x. hist_stored t' j l d x \<longleftrightarrow> hist_stored t j l d x \<or> (j, l, d, x) = (i, k, c, e))"
proof (cases "sm_get t (encode_history_key i k (start_ts e) c)")
  case None
  then have t': "t' = sm_insert (encode_history_key i k (start_ts e) c) (encode_version_entry_value e) t"
    using assms(3) by (simp add: apply_spill_def)
  have "hist_stored t' j l d x \<longleftrightarrow> hist_stored t j l d x \<or> (j, l, d, x) = (i, k, c, e)" for j l d x
  proof (cases "spillable l x \<and> encode_history_key j l (start_ts x) d = encode_history_key i k (start_ts e) c")
    case True
    then have eq: "j = i" "l = k" "start_ts x = start_ts e" "d = c"
      using encode_history_key_inj assms(2) by (simp_all add: spillable_def) blast+
    moreover have "encode_version_entry_value x = encode_version_entry_value e \<longleftrightarrow> x = e"
      using encode_value_inj assms(2) True by (auto simp: spillable_def)
    ultimately show ?thesis
      using True None assms(1,2) by (auto simp: hist_stored_def t' sm_get_insert hist_ok_inv)
  next
    case False
    then show ?thesis using assms(1,2) by (auto simp: hist_stored_def t' sm_get_insert hist_ok_inv)
  qed
  then show ?thesis using hist_ok_insert [OF assms(1,2)] t' by blast
next
  case (Some v)
  then have "t' = t" "v = encode_version_entry_value e"
    using assms(3) by (simp_all add: apply_spill_def split: if_splits)
  then show ?thesis using assms(1,2) Some by (auto simp: hist_stored_def)
qed

definition spill_ok :: "history_spill list \<Rightarrow> bool" where
  "spill_ok ws \<longleftrightarrow> (\<forall>w \<in> set ws. spillable (hs_key w) (hs_entry w))"

lemma commit_spill_stored:
  assumes "hist_ok t" "spill_ok ws" "commit_spill_txn t ws = Inr t'"
  shows "hist_ok t' \<and> (\<forall>j l d x. hist_stored t' j l d x \<longleftrightarrow> hist_stored t j l d x \<or>
           \<lparr>hs_ident = j, hs_key = l, hs_entry = x, hs_counter = d\<rparr> \<in> set ws)"
  using assms
proof (induction ws arbitrary: t)
  case (Cons w ws)
  obtain b u where u: "apply_spill t (hs_ident w) (hs_key w) (hs_entry w) (hs_counter w) = Inr (b, u)"
      "commit_spill_txn u ws = Inr t'"
    using Cons.prems(3) by (auto simp: rbind_Inr_iff)
  have sp: "spillable (hs_key w) (hs_entry w)" "spill_ok ws" using Cons.prems(2) by (simp_all add: spill_ok_def)
  have w: "\<lparr>hs_ident = j, hs_key = l, hs_entry = x, hs_counter = d\<rparr> = w \<longleftrightarrow>
      (j, l, d, x) = (hs_ident w, hs_key w, hs_counter w, hs_entry w)" for j l d x
    by (cases w) auto
  show ?case
    using apply_spill_stored [OF Cons.prems(1) sp(1) u(1)] Cons.IH [OF _ sp(2) u(2)] by (auto simp: w)
qed simp

lemma commit_spill_keeps: "commit_spill_txn t ws = Inr t' \<Longrightarrow> sm_inv t \<Longrightarrow> sm_get t key = Some v \<Longrightarrow>
   sm_get t' key = Some v \<and> sm_inv t'"
proof (induction ws arbitrary: t)
  case (Cons w ws)
  obtain b u where u: "apply_spill t (hs_ident w) (hs_key w) (hs_entry w) (hs_counter w) = Inr (b, u)"
      "commit_spill_txn u ws = Inr t'"
    using Cons.prems(1) by (auto simp: rbind_Inr_iff)
  have "sm_get u key = Some v \<and> sm_inv u"
    using u(1) Cons.prems(2,3)
    by (auto simp: apply_spill_def Let_def sm_get_insert sm_insert_inv split: option.splits if_splits)
  then show ?case using Cons.IH [OF u(2)] by simp
qed simp

lemma commit_spill_present:
  "(\<And>w. w \<in> set ws \<Longrightarrow> sm_get t (encode_history_key (hs_ident w) (hs_key w) (start_ts (hs_entry w)) (hs_counter w)) =
     Some (encode_version_entry_value (hs_entry w))) \<Longrightarrow> commit_spill_txn t ws = Inr t"
  by (induction ws) (simp_all add: apply_spill_def)

lemma commit_spill_retry_present:
  assumes "commit_spill_txn t ws = Inr t'" "sm_inv t" "w \<in> set ws"
  shows "sm_get t' (encode_history_key (hs_ident w) (hs_key w) (start_ts (hs_entry w)) (hs_counter w)) =
     Some (encode_version_entry_value (hs_entry w))"
  using assms
proof (induction ws arbitrary: t)
  case (Cons v ws)
  obtain b u where u: "apply_spill t (hs_ident v) (hs_key v) (hs_entry v) (hs_counter v) = Inr (b, u)"
      "commit_spill_txn u ws = Inr t'"
    using Cons.prems(1) by (auto simp: rbind_Inr_iff)
  have "sm_get u (encode_history_key (hs_ident v) (hs_key v) (start_ts (hs_entry v)) (hs_counter v)) =
      Some (encode_version_entry_value (hs_entry v)) \<and> sm_inv u"
    using u(1) Cons.prems(2)
    by (auto simp: apply_spill_def Let_def sm_get_insert sm_insert_inv split: option.splits if_splits)
  then show ?case using Cons u(2) commit_spill_keeps [OF u(2)] by auto
qed simp

section \<open>Garbage collection keeps what a reader can see\<close>

definition expired :: "ts \<Rightarrow> version_entry \<Rightarrow> bool" where
  "expired ort e \<longleftrightarrow> stop_ts e \<noteq> ts_max \<and> stop_ts e \<le> ort"

lemma gc_victims_expired:
  assumes "\<forall>(key, v) \<in> set rows. \<exists>e. v = encode_version_entry_value e \<and> encodable e \<and> fits_inline e"
  shows "\<exists>vs. gc_victims ort (map (\<lambda>(k, v). (k, history_cell v)) rows) = Inr vs \<and>
     fst ` set vs = {key. \<exists>e. (key, encode_version_entry_value e) \<in> set rows \<and> encodable e \<and> expired ort e}"
  using assms
proof (induction rows)
  case (Cons row rows)
  obtain key e where row: "row = (key, encode_version_entry_value e)" "encodable e" "fits_inline e"
    using Cons.prems by (cases row) auto
  obtain vs where vs: "gc_victims ort (map (\<lambda>(k, v). (k, history_cell v)) rows) = Inr vs"
      "fst ` set vs = {key. \<exists>e. (key, encode_version_entry_value e) \<in> set rows \<and> encodable e \<and> expired ort e}"
    using Cons by auto
  have cell: "cell_value_bytes (history_cell (encode_version_entry_value e)) = Inr (encode_version_entry_value e)"
    using row(3) by (simp add: history_cell_def cell_value_bytes_def fits_inline_def)
  have here: "(\<exists>x. (k, encode_version_entry_value x) = row \<and> encodable x \<and> expired ort x) \<longleftrightarrow> k = key \<and> expired ort e" for k
    using encode_value_inj [of _ e] row by auto
  have head: "gc_victims ort (map (\<lambda>(k, v). (k, history_cell v)) (row # rows)) =
    Inr (if expired ort e then (key, case data e of Inline _ \<Rightarrow> None | Overflow p n \<Rightarrow> Some (p, n)) # vs else vs)"
    using vs(1) row(1) cell encoded_overflow_payload [of e]
    by (cases "data e") (auto simp: encoded_value_header expired_def DATA_KIND_INLINE_def DATA_KIND_OVERFLOW_def)
  have "{k. \<exists>x. (k, encode_version_entry_value x) \<in> set (row # rows) \<and> encodable x \<and> expired ort x} =
     {k. k = key \<and> expired ort e} \<union> fst ` set vs"
    unfolding vs(2) here [symmetric] by auto
  then show ?case unfolding head by auto
qed simp

lemma sm_remove_absent: "sm_get m k = None \<Longrightarrow> sm_remove k m = m"
  by (induction m) (auto simp: sm_get_def split: if_splits)

lemma gc_delete_tree: "snd (snd (gc_delete vs r a t)) = fold sm_remove (map fst vs) t"
proof (induction vs arbitrary: r a t)
  case (Cons v vs)
  obtain key ovf where v: "v = (key, ovf)" by (cases v)
  have "\<exists>r' a'. gc_delete (v # vs) r a t = gc_delete vs r' a' (sm_remove key t)"
  proof (cases "sm_get t key")
    case None
    then show ?thesis using v sm_remove_absent by fastforce
  next
    case (Some x)
    then show ?thesis unfolding v by (cases ovf; cases a) (auto simp: Let_def)
  qed
  then show ?case using Cons v by fastforce
qed simp

lemma gc_delete_get:
  assumes "sm_inv t"
  shows "sm_inv (snd (snd (gc_delete vs r a t))) \<and>
    sm_get (snd (snd (gc_delete vs r a t))) k = (if k \<in> fst ` set vs then None else sm_get t k)"
  using sm.fold_rem_inv [OF assms] sm.fold_rem_get [OF assms] by (simp add: gc_delete_tree)

lemma gc_pass_stored:
  assumes "hist_ok t"
  shows "\<exists>r a' t'. gc_pass ort a t = Inr (r, a', t') \<and> hist_ok t' \<and>
    (\<forall>i k c e. hist_stored t' i k c e \<longleftrightarrow> hist_stored t i k c e \<and> \<not> expired ort e)"
proof -
  have scan: "tree_range_scan t None None = map (\<lambda>(k, v). (k, history_cell v)) t"
    by (simp add: tree_range_scan_def sm_range_def)
  have rows: "\<forall>(key, v) \<in> set t. \<exists>e. v = encode_version_entry_value e \<and> encodable e \<and> fits_inline e"
    using assms unfolding hist_ok_def spillable_def by fast
  obtain vs where vs: "gc_victims ort (tree_range_scan t None None) = Inr vs"
      "fst ` set vs = {key. \<exists>e. (key, encode_version_entry_value e) \<in> set t \<and> encodable e \<and> expired ort e}"
    using gc_victims_expired [OF rows, of ort] unfolding scan by blast
  obtain r a' t' where g: "gc_delete vs \<lparr>entries_deleted = 0, pages_freed = 0\<rparr> a t = (r, a', t')"
    by (metis prod.exhaust)
  note inv = hist_ok_inv [OF assms]
  have t': "sm_inv t'" "sm_get t' k = (if k \<in> fst ` set vs then None else sm_get t k)" for k
    using gc_delete_get [OF inv, of vs "\<lparr>entries_deleted = 0, pages_freed = 0\<rparr>" a] unfolding g by simp_all
  have "set t' \<subseteq> set t" using t' inv by (auto simp: sm_get_iff split: if_splits)
  then have ok: "hist_ok t'" using t'(1) assms unfolding hist_ok_def by blast
  have "hist_stored t' i k c e \<longleftrightarrow> hist_stored t i k c e \<and> \<not> expired ort e" for i k c e
  proof (cases "hist_stored t i k c e")
    case True
    then have get: "sm_get t (encode_history_key i k (start_ts e) c) = Some (encode_version_entry_value e)" "encodable e"
      by (simp_all add: hist_stored_def spillable_def)
    then have "encode_history_key i k (start_ts e) c \<in> fst ` set vs \<longleftrightarrow> expired ort e"
      unfolding vs(2) mem_Collect_eq sm_get_iff [OF inv] using encode_value_inj [OF _ get(2)]
      by (metis option.inject)
    then show ?thesis using True t'(2) by (simp add: hist_stored_def)
  next
    case False
    then show ?thesis using t'(2) by (auto simp: hist_stored_def split: if_splits)
  qed
  then show ?thesis using vs(1) g ok by (simp add: gc_pass_def)
qed

lemma probe_rows_error:
  "\<forall>row \<in> set rows. take (length pre) (fst row) = pre \<longrightarrow> cell_value_bytes (snd row) = Inl x \<Longrightarrow>
   \<exists>row \<in> set rows. take (length pre) (fst row) = pre \<Longrightarrow> probe_rows pre rts skip alloc rows = Inl x"
proof (induction rows)
  case (Cons row rows)
  then show ?case by (cases row) (cases "take (length pre) (fst row) = pre"; auto)
qed simp

lemma cell_value_bytes_Inl:
  "cell_value_bytes cell = Inl x \<Longrightarrow> x = Internal ''history_store: value spilled to overflow''"
  by (auto simp: cell_value_bytes_def split: cell_value.splits)

lemma gc_victims_error:
  "row \<in> set rows \<Longrightarrow> cell_value_bytes (snd row) = Inl x \<Longrightarrow> gc_victims ort rows = Inl x"
proof (induction rows)
  case (Cons r rows)
  obtain key cell where r: "r = (key, cell)" by (cases r)
  show ?case
  proof (cases "cell_value_bytes cell")
    case (Inl y)
    then have "y = x" using Cons.prems(2) cell_value_bytes_Inl by metis
    then show ?thesis using r Inl by simp
  next
    case (Inr v)
    then have "gc_victims ort rows = Inl x" using Cons r by auto
    then show ?thesis using r Inr by simp
  qed
qed simp

section \<open>Properties\<close>

text \<open>Property C27. A probe of the history store returns the newest persisted version of the key
  whose interval covers the read timestamp, and no version exactly when none covers it. An
  index probe hides that version when it is a tombstone, and does not fall back to an older
  one.\<close>

theorem history_probe_newest:
  assumes "hist_ok t" "length k < 2 ^ 32" "readable_at t alloc i k"
  shows "(\<exists>c e. newest_covering t i k rts c e \<and> probe_visible_entry t alloc i k rts skip =
            Inr (if skip \<and> is_tombstone e then None else Some e)) \<or>
         (\<forall>c e. hist_stored t i k c e \<longrightarrow> \<not> covers rts e) \<and> probe_visible_entry t alloc i k rts skip = Inr None"
  by (rule probe_visible_cases [OF assms])

definition ex_ident :: tree_ident where
  "ex_ident = \<lparr>collection_id = 7, tree_kind_of = Primary\<rparr>"

definition ex_version :: version_entry where
  "ex_version = \<lparr>start_ts = Ts 3 0, stop_ts = Ts 5 0, txn_id = 1, state = Committed, data = Inline [4, 2], is_tombstone = False\<rparr>"

definition ex_tree :: history_tree where
  "ex_tree = [(encode_history_key ex_ident [1] (Ts 3 0) 0, encode_version_entry_value ex_version)]"

lemma ex_version_simps [simp]:
  "start_ts ex_version = Ts 3 0" "stop_ts ex_version = Ts 5 0" "data ex_version = Inline [4, 2]"
  "state ex_version = Committed" "is_tombstone ex_version = False"
  by (simp_all add: ex_version_def)

lemma ex_version_spillable: "spillable [1] ex_version"
  by (simp add: spillable_def encodable_def fits_inline_def encode_version_entry_value_def OVERFLOW_THRESHOLD_def)

lemma ex_tree_ok: "hist_ok ex_tree"
  using hist_ok_insert [OF hist_ok_empty ex_version_spillable, of ex_ident 0] by (simp add: ex_tree_def)

lemma ex_tree_stored: "hist_stored ex_tree ex_ident [1] 0 ex_version"
  by (simp add: hist_stored_def ex_version_spillable ex_tree_def sm_get_def)

lemma ex_tree_only:
  assumes "hist_stored ex_tree ex_ident [1] c e"
  shows "e = ex_version"
proof (rule encode_value_inj)
  show "encodable e" "encodable ex_version"
    using assms ex_version_spillable by (simp_all add: hist_stored_def spillable_def)
  show "encode_version_entry_value e = encode_version_entry_value ex_version"
    using assms unfolding hist_stored_def ex_tree_def sm_get_def by (simp split: if_splits)
qed

lemma ex_tree_readable: "readable_at ex_tree None ex_ident [1]"
  unfolding readable_at_def by (auto simp: readable_def dest!: ex_tree_only)

theorem history_probe_newest_witness:
  "probe_visible_entry ex_tree None ex_ident [1] (Ts 4 0) True = Inr (Some ex_version)"
proof -
  have "covers (Ts 4 0) ex_version" by (simp add: covers_def less_ts_def less_eq_ts_def)
  then obtain c e where "newest_covering ex_tree ex_ident [1] (Ts 4 0) c e"
      "probe_visible_entry ex_tree None ex_ident [1] (Ts 4 0) True = Inr (if True \<and> is_tombstone e then None else Some e)"
    using history_probe_newest [OF ex_tree_ok _ ex_tree_readable, of "Ts 4 0" True] ex_tree_stored by auto
  moreover from this(1) have "e = ex_version" by (auto simp: newest_covering_def intro: ex_tree_only)
  ultimately show ?thesis by simp
qed

text \<open>Property C28. Committing a batch of spills keeps the store well formed, makes persisted
  exactly the versions that were persisted before and those of the batch, and committing the
  same batch again (a checkpoint that is retried) changes nothing.\<close>

theorem commit_spill_txn_exact:
  assumes "hist_ok t" "spill_ok ws" "commit_spill_txn t ws = Inr t'"
  shows "hist_ok t' \<and>
    (\<forall>i k c e. hist_stored t' i k c e \<longleftrightarrow> hist_stored t i k c e \<or>
       \<lparr>hs_ident = i, hs_key = k, hs_entry = e, hs_counter = c\<rparr> \<in> set ws) \<and>
    commit_spill_txn t' ws = Inr t'"
  using commit_spill_stored [OF assms] commit_spill_present
    commit_spill_retry_present [OF assms(3) hist_ok_inv [OF assms(1)]] by blast

theorem commit_spill_txn_exact_witness:
  "commit_spill_txn ex_tree [\<lparr>hs_ident = ex_ident, hs_key = [1], hs_entry = ex_version, hs_counter = 0\<rparr>] = Inr ex_tree"
proof -
  define ws where "ws = [\<lparr>hs_ident = ex_ident, hs_key = [1], hs_entry = ex_version, hs_counter = 0\<rparr>]"
  have "commit_spill_txn [] ws = Inr ex_tree"
    by (simp add: ws_def ex_tree_def apply_spill_def sm_get_def)
  then show ?thesis
    using commit_spill_txn_exact [OF hist_ok_empty, of ws ex_tree] ex_version_spillable
    by (simp add: ws_def spill_ok_def)
qed

text \<open>Property C29. A garbage-collection pass at the oldest required timestamp succeeds and
  changes no probe that a reader at or above that timestamp can make.\<close>

theorem gc_pass_keeps_probes:
  assumes "hist_ok t" "length k < 2 ^ 32" "readable_at t alloc i k" "ort \<le> rts"
  shows "\<exists>r a' t'. gc_pass ort a t = Inr (r, a', t') \<and> hist_ok t' \<and>
    probe_visible_entry t' alloc i k rts skip = probe_visible_entry t alloc i k rts skip"
proof -
  obtain r a' t' where gc: "gc_pass ort a t = Inr (r, a', t')" "hist_ok t'"
      "\<forall>i k c e. hist_stored t' i k c e \<longleftrightarrow> hist_stored t i k c e \<and> \<not> expired ort e"
    using gc_pass_stored [OF assms(1)] by blast
  have same: "hist_stored t' i k c e \<and> covers rts e \<longleftrightarrow> hist_stored t i k c e \<and> covers rts e" for c e
    using gc(3) assms(4) by (auto simp: covers_def expired_def)
  then have newest: "newest_covering t' i k rts c e \<longleftrightarrow> newest_covering t i k rts c e" for c e
    unfolding newest_covering_def by blast
  have "readable_at t' alloc i k" using gc(3) assms(3) unfolding readable_at_def by blast
  from probe_visible_cases [OF gc(2) assms(2) this, of rts skip]
  have "probe_visible_entry t' alloc i k rts skip = probe_visible_entry t alloc i k rts skip"
    using probe_visible_cases [OF assms(1,2,3), of rts skip] same newest newest_covering_unique
    by (metis newest_covering_def)
  then show ?thesis using gc by blast
qed

theorem gc_pass_keeps_probes_witness:
  "\<exists>r a' t'. gc_pass (Ts 4 0) None ex_tree = Inr (r, a', t') \<and> hist_ok t' \<and>
    probe_visible_entry t' None ex_ident [1] (Ts 4 0) False = probe_visible_entry ex_tree None ex_ident [1] (Ts 4 0) False"
  by (rule gc_pass_keeps_probes [OF ex_tree_ok _ ex_tree_readable]) simp_all

lemma no_row_of_fresh_key:
  assumes "hist_ok t" "length k < 2 ^ 32" "\<forall>c x. \<not> hist_stored t i k c x" "sm_get t key = Some v"
  shows "take (length (probe_prefix i k)) key \<noteq> probe_prefix i k"
proof -
  have "(key, v) \<in> set t" using assms(1,4) by (simp add: sm_get_iff hist_ok_inv)
  then obtain j l c e where "key = encode_history_key j l (start_ts e) c" "spillable l e" "hist_stored t j l c e"
    by (rule hist_ok_row [OF assms(1)])
  then show ?thesis
    using history_key_prefix_iff [OF assms(2), of l i j "start_ts e" c] assms(3) by (auto simp: spillable_def)
qed

text \<open>Property C30. A spill whose encoded value exceeds the overflow threshold is accepted, and
  from then on every probe of its key at a timestamp it covers fails, and so does every
  garbage-collection pass over the store.\<close>

theorem large_spill_unreadable:
  assumes ok: "hist_ok t" and k: "length k < 2 ^ 32" and fresh: "\<forall>c x. \<not> hist_stored t i k c x"
    and large: "\<not> fits_inline e" and cov: "covers rts e"
  shows "\<exists>t' err. commit_spill_txn t [\<lparr>hs_ident = i, hs_key = k, hs_entry = e, hs_counter = c\<rparr>] = Inr t' \<and>
    probe_visible_entry t' alloc i k rts skip = Inl err \<and> gc_pass ort a t' = Inl err"
proof -
  define err where "err = Internal ''history_store: value spilled to overflow''"
  define key where "key = encode_history_key i k (start_ts e) c"
  define t' where "t' = sm_insert key (encode_version_entry_value e) t"
  have pre: "take (length (probe_prefix i k)) key = probe_prefix i k"
    by (simp add: key_def encode_history_key_prefix)
  then have none: "sm_get t key = None"
    using no_row_of_fresh_key [OF ok k fresh, of key] by (cases "sm_get t key") auto
  have get: "sm_get t' = (sm_get t)(key \<mapsto> encode_version_entry_value e)" and inv: "sm_inv t'"
    using hist_ok_inv [OF ok] by (simp_all add: t'_def sm_get_insert sm_insert_inv)
  have cell: "cell_value_bytes (history_cell (encode_version_entry_value e)) = Inl err"
    using large by (simp add: fits_inline_def history_cell_def cell_value_bytes_def err_def)
  define rows where "rows = tree_range_scan t' (Some (probe_prefix i k))
      (Some (probe_prefix i k @ ts_to_be_bytes rts @ u32_to_be_bytes (- 1)))"
  have rows: "(x, y) \<in> set rows \<and> take (length (probe_prefix i k)) x = probe_prefix i k \<longleftrightarrow>
      x = key \<and> y = history_cell (encode_version_entry_value e)" for x y
    using pre no_row_of_fresh_key [OF ok k fresh] history_key_in_range [of i k "start_ts e" c rts] cov
    by (auto simp: rows_def scan_iff [OF inv] get key_def covers_def)
  have "probe_rows (probe_prefix i k) rts skip alloc (rev rows) = Inl err"
  proof (rule probe_rows_error)
    show "\<forall>row \<in> set (rev rows). take (length (probe_prefix i k)) (fst row) = probe_prefix i k \<longrightarrow>
        cell_value_bytes (snd row) = Inl err"
    proof (intro ballI impI)
      fix row assume "row \<in> set (rev rows)" "take (length (probe_prefix i k)) (fst row) = probe_prefix i k"
      then have "snd row = history_cell (encode_version_entry_value e)" using rows [of "fst row" "snd row"] by simp
      then show "cell_value_bytes (snd row) = Inl err" using cell by simp
    qed
    show "\<exists>row \<in> set (rev rows). take (length (probe_prefix i k)) (fst row) = probe_prefix i k"
      using rows [of key "history_cell (encode_version_entry_value e)"]
      by (intro bexI [of _ "(key, history_cell (encode_version_entry_value e))"]) simp_all
  qed
  then have "probe_visible_entry t' alloc i k rts skip = Inl err"
    by (simp add: probe_visible_entry_def rows_def)
  moreover have "(key, history_cell (encode_version_entry_value e)) \<in> set (tree_range_scan t' None None)"
    using get inv by (force simp: tree_range_scan_def sm_range_def sm_get_iff)
  then have "gc_pass ort a t' = Inl err"
    using gc_victims_error cell by (simp add: gc_pass_def)
  ultimately show ?thesis using none by (auto simp: apply_spill_def key_def t'_def)
qed

theorem large_spill_unreadable_witness:
  "\<exists>t' err. commit_spill_txn [] [\<lparr>hs_ident = ex_ident, hs_key = [1],
      hs_entry = ex_version\<lparr>data := Inline (replicate OVERFLOW_THRESHOLD 0)\<rparr>, hs_counter = 0\<rparr>] = Inr t' \<and>
    probe_visible_entry t' None ex_ident [1] (Ts 4 0) False = Inl err \<and> gc_pass (Ts 1 0) None t' = Inl err"
proof (rule large_spill_unreadable [OF hist_ok_empty])
  show "\<forall>c x. \<not> hist_stored [] ex_ident [1] c x" by (simp add: hist_stored_def sm_get_def)
  show "\<not> fits_inline (ex_version\<lparr>data := Inline (replicate OVERFLOW_THRESHOLD 0)\<rparr>)"
    by (simp add: fits_inline_def encode_version_entry_value_def)
  show "covers (Ts 4 0) (ex_version\<lparr>data := Inline (replicate OVERFLOW_THRESHOLD 0)\<rparr>)"
    by (simp add: covers_def less_ts_def less_eq_ts_def)
qed simp

end
