(* ===== verification/Internal_Node.thy ===== *)
theory Internal_Node
  imports Pages
begin

text \<open>
  The 4 KiB internal page of the B+ tree (\<open>storage/btree/internal_node.rs\<close>): separator keys,
  each with the child to its left, and the rightmost child. \<open>kids\<close> is the same node as its
  first child followed by pairs of a separator and the child to its right, the view in which
  splitting a child inserts one pair.
\<close>

section \<open>Definitions\<close>

record internal_node =
  in_level :: u8
  in_entries :: "(bytes \<times> u32) list"
  in_rightmost_child :: u32

fun parse_entries :: "bytes \<Rightarrow> nat \<Rightarrow> nat \<Rightarrow> (bytes \<times> u32) list result" where
  "parse_entries data pos 0 = Inr []"
| "parse_entries data pos (Suc left) =
    rbind (rguard (pos + 2 \<le> length data) (Internal ''internal page truncated reading key_len'')) (\<lambda>_.
      let key_len = unat (u16_at data pos); pos = pos + 2 in
    rbind (rguard (pos + key_len + 4 \<le> length data) (Internal ''internal page truncated reading key/child'')) (\<lambda>_.
      let key = sub data pos (pos + key_len); pos = pos + key_len; child_page = u32_at data pos in
    rbind (parse_entries data (pos + 4) left) (\<lambda>entries. Inr ((key, child_page) # entries))))"

definition internal_parse :: "bytes \<Rightarrow> internal_node result" where
  "internal_parse data =
    rbind (internal_from_bytes data) (\<lambda>hdr.
    rbind (internal_validate_type hdr) (\<lambda>_.
    rbind (parse_entries data INTERNAL_HEADER_SIZE (unat (ih_key_count hdr))) (\<lambda>entries.
      Inr \<lparr>in_level = ih_level hdr, in_entries = entries, in_rightmost_child = ih_rightmost_child hdr\<rparr>)))"

fun write_entries :: "(bytes \<times> u32) list \<Rightarrow> nat \<Rightarrow> bytes \<Rightarrow> bytes result" where
  "write_entries [] pos buf = Inr buf"
| "write_entries ((key, child_page) # es) pos buf =
    (let key_len = length key; entry_size = 2 + key_len + 4 in
     if pos + entry_size > PAGE_SIZE_INTERNAL then Inl (Internal ''internal node too large'')
     else write_entries es (pos + entry_size)
       (put (put (put buf pos (u16_to_le_bytes (of_nat key_len))) (pos + 2) key) (pos + 2 + key_len) (u32_to_le_bytes child_page)))"

definition internal_encode :: "(bytes \<Rightarrow> u32) \<Rightarrow> (u32 \<Rightarrow> bytes \<Rightarrow> u32) \<Rightarrow> internal_node \<Rightarrow> bytes result" where
  "internal_encode crc crc_append n =
    rbind (write_entries (in_entries n) INTERNAL_HEADER_SIZE (replicate PAGE_SIZE_INTERNAL 0)) (\<lambda>buf.
      let buf = internal_write_to \<lparr>ih_page_type = PAGE_TYPE_INTERNAL, ih_level = in_level n,
            ih_key_count = of_nat (length (in_entries n)), ih_checksum = 0, ih_rightmost_child = in_rightmost_child n\<rparr> buf
      in Inr (put buf 4 (u32_to_le_bytes (internal_page_checksum crc crc_append buf))))"

definition internal_encoded_size :: "internal_node \<Rightarrow> nat" where
  "internal_encoded_size n = INTERNAL_HEADER_SIZE + sum_list (map (\<lambda>(k, _). 2 + length k + 4) (in_entries n))"

definition internal_can_insert :: "internal_node \<Rightarrow> nat \<Rightarrow> bool" where
  "internal_can_insert n extra_key_len \<longleftrightarrow> internal_encoded_size n + (2 + extra_key_len + 4) \<le> PAGE_SIZE_INTERNAL"

fun find_child_in :: "(bytes \<times> u32) list \<Rightarrow> u32 \<Rightarrow> bytes \<Rightarrow> u32" where
  "find_child_in [] rightmost key = rightmost"
| "find_child_in ((k, child_page) # es) rightmost key = (if key < k then child_page else find_child_in es rightmost key)"

definition find_child :: "internal_node \<Rightarrow> bytes \<Rightarrow> u32" where
  "find_child n key = find_child_in (in_entries n) (in_rightmost_child n) key"

fun find_child_idx_in :: "(bytes \<times> u32) list \<Rightarrow> bytes \<Rightarrow> nat" where
  "find_child_idx_in [] key = 0"
| "find_child_idx_in ((k, _) # es) key = (if key < k then 0 else Suc (find_child_idx_in es key))"

definition find_child_idx :: "internal_node \<Rightarrow> bytes \<Rightarrow> nat" where
  "find_child_idx n key = find_child_idx_in (in_entries n) key"

definition child_at :: "internal_node \<Rightarrow> nat \<Rightarrow> u32" where
  "child_at n idx = (if idx < length (in_entries n) then snd (in_entries n ! idx) else in_rightmost_child n)"

text \<open>\<open>partition_point\<close> of the standard library on a slice sorted by key: the number of leading
  elements for which the predicate holds.\<close>

definition partition_point :: "('a \<Rightarrow> bool) \<Rightarrow> 'a list \<Rightarrow> nat" where
  "partition_point P xs = length (takeWhile P xs)"

section \<open>Parsing and encoding\<close>

lemma write_entries_layout:
  assumes "write_entries es pos buf = Inr r" "length buf = PAGE_SIZE_INTERNAL"
  shows "length r = length buf \<and> pos + sum_list (map (\<lambda>(k, _). 2 + length k + 4) es) \<le> max pos PAGE_SIZE_INTERNAL \<and>
    (\<forall>a b. b \<le> pos \<longrightarrow> sub r a b = sub buf a b) \<and>
    (\<forall>d. length d = length r \<longrightarrow> (\<forall>a b. pos \<le> a \<longrightarrow> sub d a b = sub r a b) \<longrightarrow> parse_entries d pos (length es) = Inr es)"
  using assms
proof (induction es arbitrary: pos buf)
  case (Cons e es)
  obtain k c where e: "e = (k, c)" by (cases e)
  define b1 where "b1 = put buf pos (u16_to_le_bytes (of_nat (length k)))"
  define b2 where "b2 = put b1 (pos + 2) k"
  define b3 where "b3 = put b2 (pos + 2 + length k) (u32_to_le_bytes c)"
  let ?pos' = "pos + (2 + length k + 4)"
  have fit: "?pos' \<le> PAGE_SIZE_INTERNAL" and w: "write_entries es ?pos' b3 = Inr r"
    using Cons.prems(1) unfolding e write_entries.simps Let_def b1_def b2_def b3_def by (auto split: if_splits)
  have l: "length b1 = length buf" "length b2 = length buf" "length b3 = length buf"
    using fit Cons.prems(2) by (simp_all add: b1_def b2_def b3_def)
  note ih = Cons.IH [OF w l(3) [unfolded Cons.prems(2)]]
  have low: "sub b3 a b = sub buf a b" if "b \<le> pos" for a b
    using that fit l Cons.prems(2) by (simp add: b3_def b2_def b1_def sub_put_before)
  have b3: "sub b3 pos (pos + 2) = u16_to_le_bytes (of_nat (length k))" "sub b3 (pos + 2) (pos + 2 + length k) = k"
      "sub b3 (pos + 2 + length k) (pos + 2 + length k + 4) = u32_to_le_bytes c"
    using fit l Cons.prems(2) sub_put_same [of pos "u16_to_le_bytes (of_nat (length k))" buf] sub_put_same [of "pos + 2" k b1]
      sub_put_same [of "pos + 2 + length k" "u32_to_le_bytes c" b2]
    by (simp_all add: b3_def b2_def b1_def sub_put_before)
  have "parse_entries d pos (length (e # es)) = Inr (e # es)"
    if d: "length d = length r" "\<forall>a b. pos \<le> a \<longrightarrow> sub d a b = sub r a b" for d
  proof -
    have "sub d a b = sub b3 a b" if "pos \<le> a" "b \<le> ?pos'" for a b using d(2) ih that by simp
    then have f: "u16_at d pos = of_nat (length k)" "sub d (pos + 2) (pos + 2 + length k) = k" "u32_at d (pos + 2 + length k) = c"
      unfolding u16_at_def u32_at_def using b3 by simp_all
    have "length k < 2 ^ 16" using fit by (simp add: PAGE_SIZE_INTERNAL_def)
    then have "unat (u16_at d pos) = length k" by (simp add: f(1) unat_of_nat)
    moreover have "parse_entries d ?pos' (length es) = Inr es" using ih d by simp
    ultimately show ?thesis using f fit d(1) ih l Cons.prems(2) by (simp add: e Let_def ac_simps)
  qed
  then show ?case using ih low l fit by (auto simp: e)
qed simp

lemma write_entries_ok:
  "pos + sum_list (map (\<lambda>(k, _). 2 + length k + 4) es) \<le> PAGE_SIZE_INTERNAL \<Longrightarrow> \<exists>r. write_entries es pos buf = Inr r"
  by (induction es arbitrary: pos buf) (auto simp: Let_def add.assoc)

lemma internal_checksum_patch:
  "internal_from_bytes buf = Inr h \<Longrightarrow>
    internal_from_bytes (put buf 4 (u32_to_le_bytes cs)) = Inr (h\<lparr>ih_checksum := cs\<rparr>)"
  by (auto simp: internal_from_bytes_def INTERNAL_HEADER_SIZE_def put_reads split: if_splits)

lemma internal_write_to_frame:
  assumes "INTERNAL_HEADER_SIZE \<le> length buf"
  shows "length (internal_write_to h buf) = length buf"
    and "INTERNAL_HEADER_SIZE \<le> a \<Longrightarrow> sub (internal_write_to h buf) a b = sub buf a b"
  using assms by (simp_all add: internal_write_to_def INTERNAL_HEADER_SIZE_def sub_put_after)

lemma sum_entries_length: "6 * length es \<le> sum_list (map (\<lambda>(k, _). 2 + length k + 4) es)"
  by (induction es) auto

text \<open>An internal page that encodes is parsed back as it was, and a node encodes if and only
  if its size is at most the page.\<close>

lemma internal_encode_parse:
  assumes "internal_encode crc crc_append n = Inr page"
  shows "length page = PAGE_SIZE_INTERNAL" "internal_parse page = Inr n" "internal_encoded_size n \<le> PAGE_SIZE_INTERNAL"
proof -
  let ?h = "\<lparr>ih_page_type = PAGE_TYPE_INTERNAL, ih_level = in_level n, ih_key_count = of_nat (length (in_entries n)),
      ih_checksum = 0, ih_rightmost_child = in_rightmost_child n\<rparr>"
  obtain buf cs where w: "write_entries (in_entries n) INTERNAL_HEADER_SIZE (replicate PAGE_SIZE_INTERNAL 0) = Inr buf"
    and page: "page = put (internal_write_to ?h buf) 4 (u32_to_le_bytes cs)"
    using assms by (auto simp: internal_encode_def Let_def rbind_def split: sum.splits)
  note lay = write_entries_layout [OF w, simplified]
  have hs: "INTERNAL_HEADER_SIZE \<le> PAGE_SIZE_INTERNAL" by (simp add: INTERNAL_HEADER_SIZE_def PAGE_SIZE_INTERNAL_def)
  have lb: "length buf = PAGE_SIZE_INTERNAL" using lay by simp
  then have lw: "length (internal_write_to ?h buf) = PAGE_SIZE_INTERNAL" using internal_write_to_frame(1) hs by simp
  then show len: "length page = PAGE_SIZE_INTERNAL" by (simp add: page PAGE_SIZE_INTERNAL_def)
  show sz: "internal_encoded_size n \<le> PAGE_SIZE_INTERNAL" using lay hs by (simp add: internal_encoded_size_def max_def)
  have "sub page a b = sub buf a b" if "INTERNAL_HEADER_SIZE \<le> a" for a b
    using that internal_write_to_frame(2) [of buf a ?h b] lb hs lw
    unfolding page by (simp add: sub_put_after INTERNAL_HEADER_SIZE_def PAGE_SIZE_INTERNAL_def)
  then have pe: "parse_entries page INTERNAL_HEADER_SIZE (length (in_entries n)) = Inr (in_entries n)"
    using lay len lb by simp
  have "internal_from_bytes (internal_write_to ?h buf) = Inr ?h" using internal_header_roundtrip lb hs by simp
  then have "internal_from_bytes page = Inr (?h\<lparr>ih_checksum := cs\<rparr>)" unfolding page by (rule internal_checksum_patch)
  moreover have "length (in_entries n) < 2 ^ 16"
    using sz sum_entries_length [of "in_entries n"] by (simp add: internal_encoded_size_def PAGE_SIZE_INTERNAL_def)
  ultimately show "internal_parse page = Inr n"
    using pe by (simp add: internal_parse_def internal_validate_type_def unat_of_nat)
qed

lemma internal_encode_fits:
  "internal_encoded_size n \<le> PAGE_SIZE_INTERNAL \<Longrightarrow> \<exists>page. internal_encode crc crc_append n = Inr page"
  using write_entries_ok [of INTERNAL_HEADER_SIZE "in_entries n" "replicate PAGE_SIZE_INTERNAL 0"]
  by (auto simp: internal_encoded_size_def internal_encode_def Let_def)


section \<open>Children and the separators between them\<close>

fun kids_of :: "(bytes \<times> u32) list \<Rightarrow> u32 \<Rightarrow> u32 \<times> (bytes \<times> u32) list" where
  "kids_of [] r = (r, [])"
| "kids_of ((k, c) # es) r = (case kids_of es r of (c', xs) \<Rightarrow> (c, (k, c') # xs))"

definition kids :: "internal_node \<Rightarrow> u32 \<times> (bytes \<times> u32) list" where
  "kids n = kids_of (in_entries n) (in_rightmost_child n)"

fun route :: "'a \<Rightarrow> (bytes \<times> 'a) list \<Rightarrow> bytes \<Rightarrow> 'a" where
  "route c [] key = c"
| "route c ((k, d) # xs) key = (if key < k then c else route d xs key)"

lemma route_map: "route (f c) (map (map_prod id f) xs) key = f (route c xs key)"
  by (induction xs arbitrary: c) auto

lemma kids_of_keys: "map fst (snd (kids_of es r)) = map fst es"
  by (induction es) (auto split: prod.splits)

lemma find_child_route: "find_child n key = route (fst (kids n)) (snd (kids n)) key"
proof -
  have "find_child_in es r key = route (fst (kids_of es r)) (snd (kids_of es r)) key" for es r
    by (induction es) (auto split: prod.splits)
  then show ?thesis by (simp add: find_child_def kids_def)
qed

lemma child_at_find_child_idx: "child_at n (find_child_idx n key) = find_child n key"
proof -
  have "(if find_child_idx_in es key < length es then snd (es ! find_child_idx_in es key) else r) = find_child_in es r key" for es r
    by (induction es) auto
  then show ?thesis by (simp add: find_child_def find_child_idx_def child_at_def)
qed

lemma kids_of_append:
  "kids_of (A @ (k, c) # B) r =
    (fst (kids_of A c), snd (kids_of A c) @ (k, fst (kids_of B r)) # snd (kids_of B r))"
  by (induction A) (auto split: prod.splits)

lemma length_kids_of: "length (snd (kids_of es r)) = length es"
  by (induction es) (auto split: prod.splits)

end
