(* ===== verification/State_Result.thy ===== *)
theory State_Result
  imports Errors
begin

text \<open>
  Fallible operations on a mutable state: a Rust method on \<open>&mut self\<close> that returns a
  \<open>Result\<close> is a function from the state to the result and the state afterwards, which it has
  also when it fails. \<open>sr_bind\<close> is sequencing with the \<open>?\<close> operator.
\<close>

type_synonym ('s, 'a) sr = "'s \<Rightarrow> 'a result \<times> 's"

definition sr_return :: "'a \<Rightarrow> ('s, 'a) sr" where
  "sr_return x s = (Inr x, s)"

definition sr_fail :: "error \<Rightarrow> ('s, 'a) sr" where
  "sr_fail e s = (Inl e, s)"

definition sr_bind :: "('s, 'a) sr \<Rightarrow> ('a \<Rightarrow> ('s, 'b) sr) \<Rightarrow> ('s, 'b) sr" where
  "sr_bind m f s = (case m s of (Inl e, s') \<Rightarrow> (Inl e, s') | (Inr x, s') \<Rightarrow> f x s')"

definition sr_lift :: "'a result \<Rightarrow> ('s, 'a) sr" where
  "sr_lift r s = (r, s)"

definition sr_get :: "('s \<Rightarrow> 'a result) \<Rightarrow> ('s, 'a) sr" where
  "sr_get f s = (f s, s)"

lemma sr_simps [simp, result_simps]:
  "sr_return x s = (Inr x, s)"
  "sr_fail e s = (Inl e, s)"
  "sr_lift r s = (r, s)"
  "sr_get f s = (f s, s)"
  by (simp_all add: sr_return_def sr_fail_def sr_lift_def sr_get_def)

lemma sr_bind_Inr: "m s = (Inr x, s') \<Longrightarrow> sr_bind m f s = f x s'"
  by (simp add: sr_bind_def)

lemma sr_bind_Inl: "m s = (Inl e, s') \<Longrightarrow> sr_bind m f s = (Inl e, s')"
  by (simp add: sr_bind_def)

lemma sr_bind_ok:
  "sr_bind m f s = (Inr y, t) \<longleftrightarrow> (\<exists>x s'. m s = (Inr x, s') \<and> f x s' = (Inr y, t))"
  by (cases "m s"; cases "fst (m s)") (auto simp: sr_bind_def)

lemma sr_bind_lift [simp]: "sr_bind (sr_lift r) f s = (case r of Inl e \<Rightarrow> (Inl e, s) | Inr x \<Rightarrow> f x s)"
  by (simp add: sr_bind_def)

lemma sr_bind_get [simp]: "sr_bind (sr_get g) f s = (case g s of Inl e \<Rightarrow> (Inl e, s) | Inr x \<Rightarrow> f x s)"
  by (simp add: sr_bind_def)

lemma sr_bind_return [simp]: "sr_bind (sr_return x) f = f x"
  by (rule ext) (simp add: sr_bind_def)

lemma sr_bind_fail [simp]: "sr_bind (sr_fail e) f = sr_fail e"
  by (rule ext) (simp add: sr_bind_def)

end
