(* ===== verification/Page_Store.thy ===== *)
theory Page_Store
  imports Version_Chain Allocator State_Result
begin

text \<open>
  The page store a B+ tree runs on: the trait \<open>BTreePageStore\<close> (\<open>storage/btree/store.rs\<close>) as
  a record of operations, which the tree code takes as an argument, the contract its users
  rely on as a locale, and its two implementations: the store over the buffer pool
  (\<open>storage/btree_store.rs\<close>, \<open>storage/handle/mod.rs\<close>) and the in-memory one.

  The pool is the slots it caches: one content for each page, whether the frame is resident or
  not. Latches, pins and evictions leave the content alone and are not part of the model.
\<close>

section \<open>The trait\<close>

text \<open>The closure of \<open>with_all_chains_under_latch\<close> gives back what is left on the leaf and its
  result, which is the drained chains in every use of a result.\<close>

record 's page_ops =
  op_read_internal :: "'s \<Rightarrow> u32 \<Rightarrow> bytes result"
  op_read_leaf :: "'s \<Rightarrow> u32 \<Rightarrow> (bytes \<times> chain_map option) result"
  op_read_leaf_for_key :: "'s \<Rightarrow> u32 \<Rightarrow> bytes \<Rightarrow> (bytes \<times> chain_map option) result"
  op_write_internal :: "u32 \<Rightarrow> bytes \<Rightarrow> ('s, unit) sr"
  op_write_leaf :: "u32 \<Rightarrow> bytes \<Rightarrow> ('s, unit) sr"
  op_alloc_internal :: "('s, u32) sr"
  op_alloc_leaf :: "('s, u32) sr"
  op_free_internal :: "u32 \<Rightarrow> ('s, unit) sr"
  op_free_leaf :: "u32 \<Rightarrow> ('s, unit) sr"
  op_chains_empty :: "'s \<Rightarrow> u32 \<Rightarrow> bool result"
  op_with_chain :: "u32 \<Rightarrow> bytes \<Rightarrow> (chain option \<Rightarrow> chain option) \<Rightarrow> ('s, unit) sr"
  op_with_all_chains :: "u32 \<Rightarrow> (chain_map \<Rightarrow> chain_map \<times> chain_map) \<Rightarrow> ('s, chain_map) sr"

section \<open>The store over the buffer pool\<close>

record pool_store =
  ps_slots :: slots
  ps_chains :: "u32 \<Rightarrow> chain_map"
  ps_alloc :: allocator
  is_history :: bool

definition pool_read_internal :: "pool_store \<Rightarrow> u32 \<Rightarrow> bytes result" where
  "pool_read_internal s p = Inr (read_page (ps_slots s) p Small4k)"

definition pool_read_leaf :: "pool_store \<Rightarrow> u32 \<Rightarrow> (bytes \<times> chain_map option) result" where
  "pool_read_leaf s p = Inr (read_page (ps_slots s) p Large32k, if is_history s then None else Some (ps_chains s p))"

definition pool_read_leaf_for_key :: "pool_store \<Rightarrow> u32 \<Rightarrow> bytes \<Rightarrow> (bytes \<times> chain_map option) result" where
  "pool_read_leaf_for_key s p key = Inr (read_page (ps_slots s) p Large32k,
     if is_history s then None else Some (case sm_get (ps_chains s p) key of None \<Rightarrow> [] | Some c \<Rightarrow> [(key, c)]))"

definition pool_write :: "u32 \<Rightarrow> bytes \<Rightarrow> (pool_store, unit) sr" where
  "pool_write p d s = (Inr (), s\<lparr>ps_slots := write_page (ps_slots s) p d\<rparr>)"

definition pool_with_all_chains :: "u32 \<Rightarrow> (chain_map \<Rightarrow> chain_map \<times> chain_map) \<Rightarrow> (pool_store, chain_map) sr" where
  "pool_with_all_chains p f s =
    (if is_history s then (Inr (snd (f [])), s)
     else case f (ps_chains s p) of (m, r) \<Rightarrow> (Inr r, s\<lparr>ps_chains := (ps_chains s)(p := m)\<rparr>))"

definition pool_with_chain :: "u32 \<Rightarrow> bytes \<Rightarrow> (chain option \<Rightarrow> chain option) \<Rightarrow> (pool_store, unit) sr" where
  "pool_with_chain p key f s =
    (if is_history s then (Inr (), s)
     else let cm = ps_chains s p; rest = sm_remove key cm in
       (Inr (), s\<lparr>ps_chains := (ps_chains s)(p := case f (sm_get cm key) of None \<Rightarrow> rest | Some c \<Rightarrow> sm_insert key c rest)\<rparr>))"

definition pool_alloc :: "page_size \<Rightarrow> (pool_store, u32) sr" where
  "pool_alloc sz s = (case al_alloc sz (ps_slots s) (ps_alloc s) of
     (Inl e, a) \<Rightarrow> (Inl e, s\<lparr>ps_alloc := a\<rparr>)
   | (Inr p, a) \<Rightarrow>
       let s = s\<lparr>ps_alloc := a, ps_slots := write_page (ps_slots s) p (replicate (page_size_bytes sz) 0)\<rparr> in
       (Inr p, if sz = Large32k \<and> \<not> is_history s then s\<lparr>ps_chains := (ps_chains s)(p := [])\<rparr> else s))"

definition pool_free :: "page_size \<Rightarrow> u32 \<Rightarrow> (pool_store, unit) sr" where
  "pool_free sz p s = (case al_free sz p (ps_slots s) (ps_alloc s) of
     (r, a, sl) \<Rightarrow> (r, s\<lparr>ps_alloc := a, ps_slots := sl\<rparr>))"

definition pool_chains_empty :: "pool_store \<Rightarrow> u32 \<Rightarrow> bool result" where
  "pool_chains_empty s p = Inr (ps_chains s p = [])"

definition pool_ops :: "pool_store page_ops" where
  "pool_ops = \<lparr>op_read_internal = pool_read_internal, op_read_leaf = pool_read_leaf, op_read_leaf_for_key = pool_read_leaf_for_key,
     op_write_internal = pool_write, op_write_leaf = pool_write,
     op_alloc_internal = pool_alloc Small4k, op_alloc_leaf = pool_alloc Large32k,
     op_free_internal = pool_free Small4k, op_free_leaf = pool_free Large32k,
     op_chains_empty = pool_chains_empty, op_with_chain = pool_with_chain, op_with_all_chains = pool_with_all_chains\<rparr>"

section \<open>The in-memory store\<close>

record mem_store =
  mem_internal :: "u32 \<Rightarrow> bytes option"
  mem_leaf :: "u32 \<Rightarrow> bytes option"
  mem_chains :: "u32 \<Rightarrow> chain_map option"
  mem_next :: u32

definition mem_new :: mem_store where
  "mem_new = \<lparr>mem_internal = (\<lambda>_. None), mem_leaf = (\<lambda>_. None), mem_chains = (\<lambda>_. None), mem_next = 1\<rparr>"

definition mem_read_internal :: "mem_store \<Rightarrow> u32 \<Rightarrow> bytes result" where
  "mem_read_internal s p = Inr (case mem_internal s p of None \<Rightarrow> replicate PAGE_SIZE_INTERNAL 0 | Some b \<Rightarrow> b)"

definition mem_read_leaf :: "mem_store \<Rightarrow> u32 \<Rightarrow> (bytes \<times> chain_map option) result" where
  "mem_read_leaf s p = Inr (case mem_leaf s p of None \<Rightarrow> replicate PAGE_SIZE_LEAF 0 | Some b \<Rightarrow> b, mem_chains s p)"

definition mem_write_internal :: "u32 \<Rightarrow> bytes \<Rightarrow> (mem_store, unit) sr" where
  "mem_write_internal p d s = (Inr (), s\<lparr>mem_internal := (mem_internal s)(p \<mapsto> d)\<rparr>)"

definition mem_write_leaf :: "u32 \<Rightarrow> bytes \<Rightarrow> (mem_store, unit) sr" where
  "mem_write_leaf p d s = (Inr (), s\<lparr>mem_leaf := (mem_leaf s)(p \<mapsto> d)\<rparr>)"

text \<open>The page counter of the test store is checked as a debug build checks it.\<close>

definition mem_alloc :: "(mem_store, u32) sr" where
  "mem_alloc s = (case checked_add (mem_next s) 1 of
     None \<Rightarrow> (Inl (Panic ''attempt to add with overflow''), s)
   | Some n \<Rightarrow> (Inr (mem_next s), s\<lparr>mem_next := n\<rparr>))"

definition mem_free_internal :: "u32 \<Rightarrow> (mem_store, unit) sr" where
  "mem_free_internal p s = (Inr (), s\<lparr>mem_internal := (mem_internal s)(p := None)\<rparr>)"

definition mem_free_leaf :: "u32 \<Rightarrow> (mem_store, unit) sr" where
  "mem_free_leaf p s = (Inr (), s\<lparr>mem_leaf := (mem_leaf s)(p := None)\<rparr>)"

definition mem_chain_map :: "mem_store \<Rightarrow> u32 \<Rightarrow> chain_map" where
  "mem_chain_map s p = (case mem_chains s p of None \<Rightarrow> [] | Some m \<Rightarrow> m)"

definition mem_chains_empty :: "mem_store \<Rightarrow> u32 \<Rightarrow> bool result" where
  "mem_chains_empty s p = Inr (mem_chain_map s p = [])"

definition mem_with_chain :: "u32 \<Rightarrow> bytes \<Rightarrow> (chain option \<Rightarrow> chain option) \<Rightarrow> (mem_store, unit) sr" where
  "mem_with_chain p key f s =
    (let cm = mem_chain_map s p; rest = sm_remove key cm in
     (Inr (), s\<lparr>mem_chains := (mem_chains s)(p \<mapsto> (case f (sm_get cm key) of None \<Rightarrow> rest | Some c \<Rightarrow> sm_insert key c rest))\<rparr>))"

definition mem_with_all_chains :: "u32 \<Rightarrow> (chain_map \<Rightarrow> chain_map \<times> chain_map) \<Rightarrow> (mem_store, chain_map) sr" where
  "mem_with_all_chains p f s = (case f (mem_chain_map s p) of (m, r) \<Rightarrow>
     (Inr r, s\<lparr>mem_chains := (mem_chains s)(p \<mapsto> m)\<rparr>))"

definition mem_ops :: "mem_store page_ops" where
  "mem_ops = \<lparr>op_read_internal = mem_read_internal, op_read_leaf = mem_read_leaf, op_read_leaf_for_key = (\<lambda>s p _. mem_read_leaf s p),
     op_write_internal = mem_write_internal, op_write_leaf = mem_write_leaf,
     op_alloc_internal = mem_alloc, op_alloc_leaf = mem_alloc,
     op_free_internal = mem_free_internal, op_free_leaf = mem_free_leaf,
     op_chains_empty = mem_chains_empty, op_with_chain = mem_with_chain, op_with_all_chains = mem_with_all_chains\<rparr>"

section \<open>The contract\<close>

definition leaf_bytes :: "'s page_ops \<Rightarrow> 's \<Rightarrow> u32 \<Rightarrow> bytes" where
  "leaf_bytes ops s p = (case op_read_leaf ops s p of Inr (b, _) \<Rightarrow> b | Inl _ \<Rightarrow> [])"

definition internal_bytes :: "'s page_ops \<Rightarrow> 's \<Rightarrow> u32 \<Rightarrow> bytes" where
  "internal_bytes ops s p = (case op_read_internal ops s p of Inr b \<Rightarrow> b | Inl _ \<Rightarrow> [])"

definition leaf_chains :: "'s page_ops \<Rightarrow> 's \<Rightarrow> u32 \<Rightarrow> chain_map" where
  "leaf_chains ops s p = (case op_read_leaf ops s p of Inr (_, Some cm) \<Rightarrow> cm | _ \<Rightarrow> [])"

text \<open>The pages of a set read the same in two states, version chains included.\<close>

definition same_pages :: "'s page_ops \<Rightarrow> (u32 \<times> page_size) set \<Rightarrow> 's \<Rightarrow> 's \<Rightarrow> bool" where
  "same_pages ops U s s' \<longleftrightarrow>
     (\<forall>q. (q, Large32k) \<in> U \<longrightarrow> leaf_bytes ops s' q = leaf_bytes ops s q \<and> leaf_chains ops s' q = leaf_chains ops s q) \<and>
     (\<forall>q. (q, Small4k) \<in> U \<longrightarrow> internal_bytes ops s' q = internal_bytes ops s q)"

lemma same_pages_refl [simp]: "same_pages ops U s s"
  by (simp add: same_pages_def)

lemma same_pages_trans: "same_pages ops U s t \<Longrightarrow> same_pages ops U t u \<Longrightarrow> same_pages ops U s u"
  by (simp add: same_pages_def)

lemma same_pages_mono: "same_pages ops U s t \<Longrightarrow> V \<subseteq> U \<Longrightarrow> same_pages ops V s t"
  unfolding same_pages_def by blast

lemma same_pages_chain: "same_pages ops U s t \<Longrightarrow> same_pages ops V t u \<Longrightarrow> W \<subseteq> U \<Longrightarrow> W \<subseteq> V \<Longrightarrow> same_pages ops W s u"
  by (rule same_pages_trans [OF same_pages_mono same_pages_mono])

text \<open>\<open>inv s U\<close>: the store is in order and \<open>U\<close> are the pages handed out and not given back;
  \<open>keeps\<close>: it attaches version chains to its leaves, which the store of the history tree does
  not. Reads and writes of pages in use succeed, a page handed out is new and has no chains,
  and no operation touches another page in use.\<close>

locale page_store =
  fixes ops :: "'s page_ops" and inv :: "'s \<Rightarrow> (u32 \<times> page_size) set \<Rightarrow> bool" and keeps :: bool
  assumes read_leaf: "inv s U \<Longrightarrow> (p, Large32k) \<in> U \<Longrightarrow>
      (\<exists>cm. op_read_leaf ops s p = Inr (leaf_bytes ops s p, cm)) \<and> length (leaf_bytes ops s p) = PAGE_SIZE_LEAF"
    and read_leaf_for_key: "inv s U \<Longrightarrow> (p, Large32k) \<in> U \<Longrightarrow>
      \<exists>cm. op_read_leaf_for_key ops s p k = Inr (leaf_bytes ops s p, cm) \<and>
        sm_get (case cm of None \<Rightarrow> [] | Some m \<Rightarrow> m) k = sm_get (leaf_chains ops s p) k"
    and read_internal: "inv s U \<Longrightarrow> (p, Small4k) \<in> U \<Longrightarrow>
      op_read_internal ops s p = Inr (internal_bytes ops s p) \<and> length (internal_bytes ops s p) = PAGE_SIZE_INTERNAL"
    and write_leaf: "inv s U \<Longrightarrow> (p, Large32k) \<in> U \<Longrightarrow> length d = PAGE_SIZE_LEAF \<Longrightarrow>
      \<exists>s'. op_write_leaf ops p d s = (Inr (), s') \<and> inv s' U \<and> leaf_bytes ops s' p = d \<and>
        leaf_chains ops s' p = leaf_chains ops s p \<and> same_pages ops (U - {(p, Large32k)}) s s'"
    and write_internal: "inv s U \<Longrightarrow> (p, Small4k) \<in> U \<Longrightarrow> length d = PAGE_SIZE_INTERNAL \<Longrightarrow>
      \<exists>s'. op_write_internal ops p d s = (Inr (), s') \<and> inv s' U \<and> internal_bytes ops s' p = d \<and>
        same_pages ops (U - {(p, Small4k)}) s s'"
    and alloc_leaf: "inv s U \<Longrightarrow> op_alloc_leaf ops s = (Inr p, s') \<Longrightarrow>
      p \<noteq> 0 \<and> p \<notin> fst ` U \<and> inv s' (insert (p, Large32k) U) \<and> leaf_chains ops s' p = [] \<and> same_pages ops U s s'"
    and alloc_internal: "inv s U \<Longrightarrow> op_alloc_internal ops s = (Inr p, s') \<Longrightarrow>
      p \<noteq> 0 \<and> p \<notin> fst ` U \<and> inv s' (insert (p, Small4k) U) \<and> same_pages ops U s s'"
    and free_leaf: "inv s U \<Longrightarrow> (p, Large32k) \<in> U \<Longrightarrow>
      \<exists>s'. op_free_leaf ops p s = (Inr (), s') \<and> inv s' (U - {(p, Large32k)}) \<and> same_pages ops (U - {(p, Large32k)}) s s'"
    and free_internal: "inv s U \<Longrightarrow> (p, Small4k) \<in> U \<Longrightarrow>
      \<exists>s'. op_free_internal ops p s = (Inr (), s') \<and> inv s' (U - {(p, Small4k)}) \<and> same_pages ops (U - {(p, Small4k)}) s s'"
    and chains_sorted: "inv s U \<Longrightarrow> sm_inv (leaf_chains ops s p) \<and> (\<not> keeps \<longrightarrow> leaf_chains ops s p = [])"
    and chains_empty: "inv s U \<Longrightarrow> (p, Large32k) \<in> U \<Longrightarrow> keeps \<Longrightarrow> op_chains_empty ops s p = Inr (leaf_chains ops s p = [])"
    and with_chain: "inv s U \<Longrightarrow> (p, Large32k) \<in> U \<Longrightarrow> keeps \<Longrightarrow>
      \<exists>s'. op_with_chain ops p k g s = (Inr (), s') \<and> inv s' U \<and> leaf_bytes ops s' p = leaf_bytes ops s p \<and>
        sm_get (leaf_chains ops s' p) = (sm_get (leaf_chains ops s p))(k := g (sm_get (leaf_chains ops s p) k)) \<and>
        same_pages ops (U - {(p, Large32k)}) s s'"
    and drain_chains: "inv s U \<Longrightarrow> (p, Large32k) \<in> U \<Longrightarrow> fst (f (leaf_chains ops s p)) = [] \<Longrightarrow>
      \<exists>s'. op_with_all_chains ops p f s = (Inr (snd (f (leaf_chains ops s p))), s') \<and> inv s' U \<and>
        leaf_bytes ops s' p = leaf_bytes ops s p \<and> leaf_chains ops s' p = [] \<and> same_pages ops (U - {(p, Large32k)}) s s'"
    and used_fst: "inv s U \<Longrightarrow> inj_on fst U"

section \<open>Both stores keep it\<close>

definition pool_inv :: "bool \<Rightarrow> pool_store \<Rightarrow> (u32 \<times> page_size) set \<Rightarrow> bool" where
  "pool_inv h s U \<longleftrightarrow> is_history s = h \<and> (\<forall>p. sm_inv (ps_chains s p)) \<and> \<not> frozen (ps_alloc s) \<and>
     (\<exists>fl. ledger_ok (al_header (ps_alloc s)) (ps_slots s) U fl)"

lemma pool_bytes:
  "leaf_bytes pool_ops s p = read_page (ps_slots s) p Large32k"
  "internal_bytes pool_ops s p = read_page (ps_slots s) p Small4k"
  "leaf_chains pool_ops s p = (if is_history s then [] else ps_chains s p)"
  by (simp_all add: leaf_bytes_def internal_bytes_def leaf_chains_def pool_ops_def pool_read_leaf_def pool_read_internal_def)

lemma pool_same_pages:
  "is_history s' = is_history s \<Longrightarrow>
   (\<And>q sz. (q, sz) \<in> U \<Longrightarrow> read_page (ps_slots s') q sz = read_page (ps_slots s) q sz \<and> ps_chains s' q = ps_chains s q) \<Longrightarrow>
   same_pages pool_ops U s s'"
  unfolding same_pages_def pool_bytes by simp

lemma ledger_ok_slots: "ledger_ok h sl U fl \<Longrightarrow> slots_ok sl"
  by (simp add: ledger_ok_def free_lists_def)

lemma length_read_page: "slots_ok sl \<Longrightarrow> length (read_page sl p sz) = page_size_bytes sz"
  by (cases sz) (simp_all add: slots_ok_def read_page_def PAGE_SIZE_LEAF_def)

lemma ledger_ok_inj: "ledger_ok h sl U fl \<Longrightarrow> inj_on fst U"
  by (simp add: ledger_ok_def)

lemma ledger_ok_sizes: "ledger_ok h sl U fl \<Longrightarrow> (p, sz) \<in> U \<Longrightarrow> (p, sz') \<in> U \<Longrightarrow> sz = sz'"
  using ledger_ok_inj [of h sl U fl] inj_onD [of fst U "(p, sz)" "(p, sz')"] by simp

lemma pool_write_ok:
  assumes "pool_inv h s U" "(p, sz) \<in> U" "length d = page_size_bytes sz"
  shows "\<exists>s'. pool_write p d s = (Inr (), s') \<and> pool_inv h s' U \<and> read_page (ps_slots s') p sz = d \<and>
     leaf_chains pool_ops s' p = leaf_chains pool_ops s p \<and> same_pages pool_ops (U - {(p, sz)}) s s'"
proof -
  obtain fl where fl: "ledger_ok (al_header (ps_alloc s)) (ps_slots s) U fl" using assms(1) by (auto simp: pool_inv_def)
  have "same_pages pool_ops (U - {(p, sz)}) s (s\<lparr>ps_slots := write_page (ps_slots s) p d\<rparr>)"
  proof (rule pool_same_pages)
    fix q z assume "(q, z) \<in> U - {(p, sz)}"
    then have "q \<noteq> p" using ledger_ok_sizes [OF fl assms(2)] by auto
    then show "read_page (ps_slots (s\<lparr>ps_slots := write_page (ps_slots s) p d\<rparr>)) q z = read_page (ps_slots s) q z \<and>
        ps_chains (s\<lparr>ps_slots := write_page (ps_slots s) p d\<rparr>) q = ps_chains s q"
      by (simp add: read_write_other)
  qed simp
  then show ?thesis
    using assms ledger_ok_write [OF fl assms(2,3)] read_write_page [OF ledger_ok_slots [OF fl] assms(3)]
    by (auto simp: pool_write_def pool_inv_def pool_bytes)
qed

lemma pool_alloc_ok:
  assumes "pool_inv h s U" "pool_alloc sz s = (Inr p, s')"
  shows "p \<noteq> 0 \<and> p \<notin> fst ` U \<and> pool_inv h s' (insert (p, sz) U) \<and> (sz = Large32k \<longrightarrow> leaf_chains pool_ops s' p = []) \<and>
     same_pages pool_ops U s s'"
proof -
  obtain fl where fl: "ledger_ok (al_header (ps_alloc s)) (ps_slots s) U fl" and nf: "\<not> frozen (ps_alloc s)"
    and ch: "is_history s = h" "\<forall>p. sm_inv (ps_chains s p)"
    using assms(1) by (auto simp: pool_inv_def)
  obtain h' where al: "page_allocate sz (ps_slots s) (al_header (ps_alloc s)) = (Inr p, h')"
    and s': "ps_alloc s' = (ps_alloc s)\<lparr>al_header := h', header_dirty := True\<rparr>"
      "ps_slots s' = write_page (ps_slots s) p (replicate (page_size_bytes sz) 0)" "is_history s' = is_history s"
      "ps_chains s' = (if sz = Large32k \<and> \<not> is_history s then (ps_chains s)(p := []) else ps_chains s)"
    using assms(2) nf by (auto simp: pool_alloc_def al_alloc_def Let_def split: prod.splits sum.splits if_splits)
  obtain fl' where l: "p \<noteq> 0" "p \<notin> fst ` U" "ledger_ok h' (ps_slots s) (insert (p, sz) U) fl'"
    using ledger_ok_alloc [OF fl al] by blast
  have "pool_inv h s' (insert (p, sz) U)"
    using ledger_ok_write [OF l(3), of p sz "replicate (page_size_bytes sz) 0"] nf ch s' by (auto simp: pool_inv_def)
  moreover have "same_pages pool_ops U s s'"
  proof (rule pool_same_pages [OF s'(3)])
    fix q z assume "(q, z) \<in> U"
    then have "q \<noteq> p" using l(2) by force
    then show "read_page (ps_slots s') q z = read_page (ps_slots s) q z \<and> ps_chains s' q = ps_chains s q"
      by (simp add: s'(2,4) read_write_other)
  qed
  ultimately show ?thesis using l s'(3,4) by (auto simp: pool_bytes)
qed

lemma pool_free_ok:
  assumes "pool_inv h s U" "(p, sz) \<in> U"
  shows "\<exists>s'. pool_free sz p s = (Inr (), s') \<and> pool_inv h s' (U - {(p, sz)}) \<and> same_pages pool_ops (U - {(p, sz)}) s s'"
proof -
  obtain fl where fl: "ledger_ok (al_header (ps_alloc s)) (ps_slots s) U fl" and nf: "\<not> frozen (ps_alloc s)"
    using assms(1) by (auto simp: pool_inv_def)
  obtain h' sl' where f: "page_free sz p (ps_slots s) (al_header (ps_alloc s)) = (Inr (), h', sl')"
      "ledger_ok h' sl' (U - {(p, sz)}) (fl(sz := p # fl sz))"
    using ledger_ok_free [OF fl assms(2)] by blast
  have "q \<noteq> p" if "(q, z) \<in> U - {(p, sz)}" for q z using that ledger_ok_sizes [OF fl assms(2)] by auto
  then have "read_page sl' q z = read_page (ps_slots s) q z" if "(q, z) \<in> U - {(p, sz)}" for q z
    using page_free_slots [OF f(1)] that unfolding read_page_def by metis
  then have "same_pages pool_ops (U - {(p, sz)}) s
      (s\<lparr>ps_alloc := (ps_alloc s)\<lparr>al_header := h', header_dirty := True\<rparr>, ps_slots := sl'\<rparr>)"
    by (intro pool_same_pages) simp_all
  then show ?thesis using assms(1) f nf by (auto simp: pool_free_def al_free_def pool_inv_def)
qed

lemma pool_with_chain_ok:
  assumes "pool_inv False s U" "(p, Large32k) \<in> U"
  shows "\<exists>s'. pool_with_chain p k f s = (Inr (), s') \<and> pool_inv False s' U \<and> ps_slots s' = ps_slots s \<and>
     sm_get (ps_chains s' p) = (sm_get (ps_chains s p))(k := f (sm_get (ps_chains s p) k)) \<and>
     same_pages pool_ops (U - {(p, Large32k)}) s s'"
proof -
  obtain fl where fl: "ledger_ok (al_header (ps_alloc s)) (ps_slots s) U fl" and i: "sm_inv (ps_chains s p)"
    using assms(1) by (auto simp: pool_inv_def)
  define m where "m = (case f (sm_get (ps_chains s p) k) of None \<Rightarrow> sm_remove k (ps_chains s p)
      | Some c \<Rightarrow> sm_insert k c (sm_remove k (ps_chains s p)))"
  have m: "sm_inv m" "sm_get m = (sm_get (ps_chains s p))(k := f (sm_get (ps_chains s p) k))"
    using i by (auto simp: m_def sm_get_insert sm_get_remove sm_insert_inv sm_remove_inv split: option.split)
  have "q \<noteq> p" if "(q, z) \<in> U - {(p, Large32k)}" for q z using that ledger_ok_sizes [OF fl assms(2)] by auto
  then have "same_pages pool_ops (U - {(p, Large32k)}) s (s\<lparr>ps_chains := (ps_chains s)(p := m)\<rparr>)"
    by (intro pool_same_pages) auto
  then show ?thesis using assms(1) m by (auto simp: pool_with_chain_def pool_inv_def Let_def simp flip: m_def)
qed

lemma pool_drain_ok:
  assumes "pool_inv h s U" "(p, Large32k) \<in> U" "fst (f (leaf_chains pool_ops s p)) = []"
  shows "\<exists>s'. pool_with_all_chains p f s = (Inr (snd (f (leaf_chains pool_ops s p))), s') \<and> pool_inv h s' U \<and>
     ps_slots s' = ps_slots s \<and> leaf_chains pool_ops s' p = [] \<and> same_pages pool_ops (U - {(p, Large32k)}) s s'"
proof -
  obtain fl where fl: "ledger_ok (al_header (ps_alloc s)) (ps_slots s) U fl" using assms(1) by (auto simp: pool_inv_def)
  have "q \<noteq> p" if "(q, z) \<in> U - {(p, Large32k)}" for q z using that ledger_ok_sizes [OF fl assms(2)] by auto
  then have "same_pages pool_ops (U - {(p, Large32k)}) s (s\<lparr>ps_chains := (ps_chains s)(p := [])\<rparr>)"
    by (intro pool_same_pages) auto
  moreover have "pool_inv h (s\<lparr>ps_chains := (ps_chains s)(p := [])\<rparr>) U" using assms(1) by (auto simp: pool_inv_def)
  ultimately show ?thesis
    using assms(1,3) by (cases "is_history s"; cases "f (ps_chains s p)") (simp_all add: pool_with_all_chains_def pool_bytes)
qed

lemmas pool_op_defs = pool_ops_def pool_read_leaf_def pool_read_internal_def

text \<open>The store of a data tree (\<open>h\<close> false) and the one of the history tree (\<open>h\<close> true).\<close>

interpretation pool: page_store pool_ops "pool_inv h" "\<not> h" for h
proof
  fix s U p d f k g s'
  assume inv: "pool_inv h s U"
  then obtain fl where fl: "ledger_ok (al_header (ps_alloc s)) (ps_slots s) U fl" by (auto simp: pool_inv_def)
  note sl = ledger_ok_slots [OF fl]
  show "(\<exists>cm. op_read_leaf pool_ops s p = Inr (leaf_bytes pool_ops s p, cm)) \<and> length (leaf_bytes pool_ops s p) = PAGE_SIZE_LEAF"
    using length_read_page [OF sl, of p Large32k] by (simp add: pool_bytes) (simp add: pool_op_defs PAGE_SIZE_LEAF_def)
  show "\<exists>cm. op_read_leaf_for_key pool_ops s p k = Inr (leaf_bytes pool_ops s p, cm) \<and>
      sm_get (case cm of None \<Rightarrow> [] | Some m \<Rightarrow> m) k = sm_get (leaf_chains pool_ops s p) k"
    unfolding pool_bytes by (simp add: pool_ops_def pool_read_leaf_for_key_def sm_get_def split: option.split)
  show "op_read_internal pool_ops s p = Inr (internal_bytes pool_ops s p) \<and> length (internal_bytes pool_ops s p) = PAGE_SIZE_INTERNAL"
    using length_read_page [OF sl, of p Small4k] by (simp add: pool_bytes) (simp add: pool_op_defs PAGE_SIZE_INTERNAL_def)
  show "inj_on fst U" by (rule ledger_ok_inj [OF fl])
  show "sm_inv (leaf_chains pool_ops s p) \<and> (\<not> \<not> h \<longrightarrow> leaf_chains pool_ops s p = [])"
    using inv by (auto simp: pool_inv_def pool_bytes)
  show "\<not> h \<Longrightarrow> op_chains_empty pool_ops s p = Inr (leaf_chains pool_ops s p = [])"
    using inv unfolding pool_bytes by (simp add: pool_inv_def pool_ops_def pool_chains_empty_def)
  show "(p, Large32k) \<in> U \<Longrightarrow> \<not> h \<Longrightarrow> \<exists>s'. op_with_chain pool_ops p k g s = (Inr (), s') \<and> pool_inv h s' U \<and>
      leaf_bytes pool_ops s' p = leaf_bytes pool_ops s p \<and>
      sm_get (leaf_chains pool_ops s' p) = (sm_get (leaf_chains pool_ops s p))(k := g (sm_get (leaf_chains pool_ops s p) k)) \<and>
      same_pages pool_ops (U - {(p, Large32k)}) s s'"
    using pool_with_chain_ok [of s U p k g] inv unfolding pool_bytes by (auto simp: pool_ops_def pool_inv_def)
  show "(p, Large32k) \<in> U \<Longrightarrow> fst (f (leaf_chains pool_ops s p)) = [] \<Longrightarrow>
      \<exists>s'. op_with_all_chains pool_ops p f s = (Inr (snd (f (leaf_chains pool_ops s p))), s') \<and> pool_inv h s' U \<and>
      leaf_bytes pool_ops s' p = leaf_bytes pool_ops s p \<and> leaf_chains pool_ops s' p = [] \<and>
      same_pages pool_ops (U - {(p, Large32k)}) s s'"
    using pool_drain_ok [OF inv, of p f] unfolding pool_bytes(1) by (auto simp: pool_ops_def)
  show "(p, Large32k) \<in> U \<Longrightarrow> length d = PAGE_SIZE_LEAF \<Longrightarrow>
      \<exists>s'. op_write_leaf pool_ops p d s = (Inr (), s') \<and> pool_inv h s' U \<and> leaf_bytes pool_ops s' p = d \<and>
        leaf_chains pool_ops s' p = leaf_chains pool_ops s p \<and> same_pages pool_ops (U - {(p, Large32k)}) s s'"
    using pool_write_ok [OF inv, of p Large32k d] unfolding pool_bytes(1) by (simp add: pool_ops_def PAGE_SIZE_LEAF_def)
  show "(p, Small4k) \<in> U \<Longrightarrow> length d = PAGE_SIZE_INTERNAL \<Longrightarrow>
      \<exists>s'. op_write_internal pool_ops p d s = (Inr (), s') \<and> pool_inv h s' U \<and> internal_bytes pool_ops s' p = d \<and>
        same_pages pool_ops (U - {(p, Small4k)}) s s'"
    using pool_write_ok [OF inv, of p Small4k d] unfolding pool_bytes(2) by (auto simp: pool_ops_def PAGE_SIZE_INTERNAL_def)
  show "op_alloc_leaf pool_ops s = (Inr p, s') \<Longrightarrow> p \<noteq> 0 \<and> p \<notin> fst ` U \<and> pool_inv h s' (insert (p, Large32k) U) \<and>
      leaf_chains pool_ops s' p = [] \<and> same_pages pool_ops U s s'"
    using pool_alloc_ok [OF inv, of Large32k p s'] by (simp add: pool_ops_def)
  show "op_alloc_internal pool_ops s = (Inr p, s') \<Longrightarrow>
      p \<noteq> 0 \<and> p \<notin> fst ` U \<and> pool_inv h s' (insert (p, Small4k) U) \<and> same_pages pool_ops U s s'"
    using pool_alloc_ok [OF inv, of Small4k p s'] by (simp add: pool_ops_def)
  show "(p, Large32k) \<in> U \<Longrightarrow> \<exists>s'. op_free_leaf pool_ops p s = (Inr (), s') \<and> pool_inv h s' (U - {(p, Large32k)}) \<and>
      same_pages pool_ops (U - {(p, Large32k)}) s s'"
    using pool_free_ok [OF inv, of p Large32k] by (simp add: pool_ops_def)
  show "(p, Small4k) \<in> U \<Longrightarrow> \<exists>s'. op_free_internal pool_ops p s = (Inr (), s') \<and> pool_inv h s' (U - {(p, Small4k)}) \<and>
      same_pages pool_ops (U - {(p, Small4k)}) s s'"
    using pool_free_ok [OF inv, of p Small4k] by (simp add: pool_ops_def)
qed

definition mem_inv :: "mem_store \<Rightarrow> (u32 \<times> page_size) set \<Rightarrow> bool" where
  "mem_inv s U \<longleftrightarrow> inj_on fst U \<and> (\<forall>p \<in> fst ` U. 0 < p \<and> p < mem_next s) \<and> 0 < mem_next s \<and>
     (\<forall>p b. mem_leaf s p = Some b \<longrightarrow> length b = PAGE_SIZE_LEAF) \<and>
     (\<forall>p b. mem_internal s p = Some b \<longrightarrow> length b = PAGE_SIZE_INTERNAL) \<and>
     (\<forall>p. sm_inv (mem_chain_map s p) \<and> (mem_next s \<le> p \<longrightarrow> mem_chain_map s p = []))"

lemma mem_bytes:
  "leaf_bytes mem_ops s p = (case mem_leaf s p of None \<Rightarrow> replicate PAGE_SIZE_LEAF 0 | Some b \<Rightarrow> b)"
  "internal_bytes mem_ops s p = (case mem_internal s p of None \<Rightarrow> replicate PAGE_SIZE_INTERNAL 0 | Some b \<Rightarrow> b)"
  "leaf_chains mem_ops s p = mem_chain_map s p"
  by (simp_all add: leaf_bytes_def internal_bytes_def leaf_chains_def mem_chain_map_def mem_ops_def mem_read_leaf_def
      mem_read_internal_def split: option.split)

lemma mem_chain_map_upd [simp]:
  "mem_chain_map (s\<lparr>mem_chains := (mem_chains s)(p \<mapsto> m)\<rparr>) q = (if q = p then m else mem_chain_map s q)"
  "mem_chain_map (s\<lparr>mem_leaf := x\<rparr>) q = mem_chain_map s q"
  "mem_chain_map (s\<lparr>mem_internal := y\<rparr>) q = mem_chain_map s q"
  "mem_chain_map (s\<lparr>mem_next := n\<rparr>) q = mem_chain_map s q"
  by (simp_all add: mem_chain_map_def)

lemma mem_alloc_ok:
  assumes "mem_inv s U" "mem_alloc s = (Inr p, s')"
  shows "p \<noteq> 0 \<and> p \<notin> fst ` U \<and> mem_inv s' (insert (p, sz) U) \<and> leaf_chains mem_ops s' p = [] \<and> same_pages mem_ops U s s'"
proof -
  have n: "mem_next s \<noteq> - 1" "p = mem_next s" "s' = s\<lparr>mem_next := mem_next s + 1\<rparr>"
    using assms(2) by (auto simp: mem_alloc_def checked_add_one split: if_splits)
  have p: "p \<notin> fst ` U" "p \<noteq> 0" "mem_chain_map s p = []" using assms(1) n(2) by (auto simp: mem_inv_def)
  have lt: "mem_next s < mem_next s + 1" by (rule word_less_plus_one [OF n(1)])
  have "\<forall>q \<in> fst ` U. 0 < q \<and> q < mem_next s + 1" "0 < mem_next s + 1"
    using assms(1) lt unfolding mem_inv_def by (meson less_trans)+
  moreover have "\<forall>q. mem_next s + 1 \<le> q \<longrightarrow> mem_chain_map s q = []"
    using assms(1) lt unfolding mem_inv_def by (meson less_imp_le order_trans)
  ultimately have "mem_inv s' (insert (p, sz) U)"
    using assms(1) n p lt unfolding mem_inv_def by (auto simp: inj_on_def rev_image_eqI)
  moreover have "same_pages mem_ops U s s'" by (simp add: same_pages_def mem_bytes n(3))
  ultimately show ?thesis using p n(3) by (simp add: mem_bytes)
qed

lemma mem_inv_parts:
  assumes "mem_inv s U"
  shows "length (leaf_bytes mem_ops s p) = PAGE_SIZE_LEAF" "length (internal_bytes mem_ops s p) = PAGE_SIZE_INTERNAL" "inj_on fst U"
    "(q, z) \<in> U \<Longrightarrow> (q, z') \<in> U \<Longrightarrow> z = z'"
proof -
  show "length (leaf_bytes mem_ops s p) = PAGE_SIZE_LEAF" "length (internal_bytes mem_ops s p) = PAGE_SIZE_INTERNAL" "inj_on fst U"
    using assms by (simp_all add: mem_inv_def mem_bytes split: option.split)
  then show "(q, z) \<in> U \<Longrightarrow> (q, z') \<in> U \<Longrightarrow> z = z'" using inj_onD [of fst U "(q, z)" "(q, z')"] by simp
qed

lemma mem_inv_diff: "mem_inv s U \<Longrightarrow> mem_inv s (U - V)"
  unfolding mem_inv_def by (auto intro: inj_on_diff)

lemma mem_set_chains:
  assumes "mem_inv s U" "(p, Large32k) \<in> U" "sm_inv m"
  shows "mem_inv (s\<lparr>mem_chains := (mem_chains s)(p \<mapsto> m)\<rparr>) U \<and>
    same_pages mem_ops (U - {(p, Large32k)}) s (s\<lparr>mem_chains := (mem_chains s)(p \<mapsto> m)\<rparr>)"
proof
  have "p < mem_next s" using assms(1,2) unfolding mem_inv_def by force
  then show "mem_inv (s\<lparr>mem_chains := (mem_chains s)(p \<mapsto> m)\<rparr>) U" using assms(1,3) by (auto simp: mem_inv_def)
  show "same_pages mem_ops (U - {(p, Large32k)}) s (s\<lparr>mem_chains := (mem_chains s)(p \<mapsto> m)\<rparr>)"
    unfolding same_pages_def mem_bytes by simp
qed

interpretation mem: page_store mem_ops mem_inv True
proof
  fix s U p d f k g s'
  assume inv: "mem_inv s U"
  have ci: "sm_inv (mem_chain_map s p)" using inv by (simp add: mem_inv_def)
  show "(\<exists>cm. op_read_leaf mem_ops s p = Inr (leaf_bytes mem_ops s p, cm)) \<and> length (leaf_bytes mem_ops s p) = PAGE_SIZE_LEAF"
    using mem_inv_parts(1) [OF inv] unfolding mem_bytes by (simp add: mem_ops_def mem_read_leaf_def)
  show "\<exists>cm. op_read_leaf_for_key mem_ops s p k = Inr (leaf_bytes mem_ops s p, cm) \<and>
      sm_get (case cm of None \<Rightarrow> [] | Some m \<Rightarrow> m) k = sm_get (leaf_chains mem_ops s p) k"
    unfolding mem_bytes by (simp add: mem_ops_def mem_read_leaf_def mem_chain_map_def)
  show "op_read_internal mem_ops s p = Inr (internal_bytes mem_ops s p) \<and> length (internal_bytes mem_ops s p) = PAGE_SIZE_INTERNAL"
    using mem_inv_parts(2) [OF inv] unfolding mem_bytes by (simp add: mem_ops_def mem_read_internal_def)
  show "inj_on fst U" by (rule mem_inv_parts(3) [OF inv])
  show "sm_inv (leaf_chains mem_ops s p) \<and> (\<not> True \<longrightarrow> leaf_chains mem_ops s p = [])" using ci by (simp add: mem_bytes)
  show "op_chains_empty mem_ops s p = Inr (leaf_chains mem_ops s p = [])"
    unfolding mem_bytes by (simp add: mem_ops_def mem_chains_empty_def)
  show "(p, Large32k) \<in> U \<Longrightarrow> \<exists>s'. op_with_chain mem_ops p k g s = (Inr (), s') \<and> mem_inv s' U \<and>
      leaf_bytes mem_ops s' p = leaf_bytes mem_ops s p \<and>
      sm_get (leaf_chains mem_ops s' p) = (sm_get (leaf_chains mem_ops s p))(k := g (sm_get (leaf_chains mem_ops s p) k)) \<and>
      same_pages mem_ops (U - {(p, Large32k)}) s s'"
    using mem_set_chains [OF inv] ci unfolding mem_bytes
    by (simp add: mem_ops_def mem_with_chain_def Let_def sm_get_insert sm_get_remove sm_insert_inv sm_remove_inv split: option.split)
  show "(p, Large32k) \<in> U \<Longrightarrow> fst (f (leaf_chains mem_ops s p)) = [] \<Longrightarrow>
      \<exists>s'. op_with_all_chains mem_ops p f s = (Inr (snd (f (leaf_chains mem_ops s p))), s') \<and> mem_inv s' U \<and>
      leaf_bytes mem_ops s' p = leaf_bytes mem_ops s p \<and> leaf_chains mem_ops s' p = [] \<and>
      same_pages mem_ops (U - {(p, Large32k)}) s s'"
    using mem_set_chains [OF inv] unfolding mem_bytes by (auto simp: mem_ops_def mem_with_all_chains_def split: prod.split)
  show "length d = PAGE_SIZE_LEAF \<Longrightarrow> \<exists>s'. op_write_leaf mem_ops p d s = (Inr (), s') \<and> mem_inv s' U \<and>
      leaf_bytes mem_ops s' p = d \<and> leaf_chains mem_ops s' p = leaf_chains mem_ops s p \<and>
      same_pages mem_ops (U - {(p, Large32k)}) s s'"
    using inv unfolding same_pages_def mem_bytes by (simp add: mem_ops_def mem_write_leaf_def mem_inv_def)
  show "length d = PAGE_SIZE_INTERNAL \<Longrightarrow> \<exists>s'. op_write_internal mem_ops p d s = (Inr (), s') \<and> mem_inv s' U \<and>
      internal_bytes mem_ops s' p = d \<and> same_pages mem_ops (U - {(p, Small4k)}) s s'"
    using inv unfolding same_pages_def mem_bytes by (simp add: mem_ops_def mem_write_internal_def mem_inv_def)
  show "op_alloc_leaf mem_ops s = (Inr p, s') \<Longrightarrow> p \<noteq> 0 \<and> p \<notin> fst ` U \<and> mem_inv s' (insert (p, Large32k) U) \<and>
      leaf_chains mem_ops s' p = [] \<and> same_pages mem_ops U s s'"
    using mem_alloc_ok [OF inv] by (simp add: mem_ops_def)
  show "op_alloc_internal mem_ops s = (Inr p, s') \<Longrightarrow>
      p \<noteq> 0 \<and> p \<notin> fst ` U \<and> mem_inv s' (insert (p, Small4k) U) \<and> same_pages mem_ops U s s'"
    using mem_alloc_ok [OF inv] by (simp add: mem_ops_def)
  show "\<exists>s'. op_free_leaf mem_ops p s = (Inr (), s') \<and> mem_inv s' (U - {(p, Large32k)}) \<and>
      same_pages mem_ops (U - {(p, Large32k)}) s s'"
    using mem_inv_diff [OF inv, of "{(p, Large32k)}"] unfolding same_pages_def mem_bytes
    by (simp add: mem_ops_def mem_free_leaf_def mem_inv_def)
  show "\<exists>s'. op_free_internal mem_ops p s = (Inr (), s') \<and> mem_inv s' (U - {(p, Small4k)}) \<and>
      same_pages mem_ops (U - {(p, Small4k)}) s s'"
    using mem_inv_diff [OF inv, of "{(p, Small4k)}"] unfolding same_pages_def mem_bytes
    by (simp add: mem_ops_def mem_free_internal_def mem_inv_def)
qed

end
