(* ===== verification/Tree_Shape.thy ===== *)
theory Tree_Shape
  imports Internal_Node Leaf_Node Page_Store
begin

text \<open>
  The shape of a B+ tree on a page store, for \<open>storage/btree\<close>: a tree of page numbers with the
  cells, the right sibling and the version chains of each leaf, and when a store holds such a
  tree. A tree covers a range of keys, its separators bound its subtrees, and its leaves are
  linked in key order.
\<close>

record btree =
  root_page :: u32
  root_level :: u8

datatype tree = Lf u32 "leaf_cell list" u32 chain_map | Nd u32 tree "(bytes \<times> tree) list"

fun root_of :: "tree \<Rightarrow> u32" where
  "root_of (Lf p _ _ _) = p"
| "root_of (Nd p _ _) = p"

fun pages_of :: "tree \<Rightarrow> (u32 \<times> page_size) list" where
  "pages_of (Lf p _ _ _) = [(p, Large32k)]"
| "pages_of (Nd p t xs) = (p, Small4k) # pages_of t @ concat (map (\<lambda>(_, u). pages_of u) xs)"

type_synonym leaf_info = "u32 \<times> leaf_cell list \<times> u32 \<times> chain_map"

fun leaves_of :: "tree \<Rightarrow> leaf_info list" where
  "leaves_of (Lf p cs nx ch) = [(p, cs, nx, ch)]"
| "leaves_of (Nd p t xs) = leaves_of t @ concat (map (\<lambda>(_, u). leaves_of u) xs)"

text \<open>What of a page the tree depends on: a leaf's cells and right sibling, its chains, and
  the bytes of any other page.\<close>

definition leaf_view :: "'s page_ops \<Rightarrow> 's \<Rightarrow> u32 \<Rightarrow> (leaf_cell list \<times> u32) + bytes" where
  "leaf_view ops s p = (case parse (leaf_bytes ops s p) of
     Inr n \<Rightarrow> Inl (ln_cells n, ln_next_leaf_page n) | Inl _ \<Rightarrow> Inr (leaf_bytes ops s p))"

definition same_view :: "'s page_ops \<Rightarrow> (u32 \<times> page_size) set \<Rightarrow> 's \<Rightarrow> 's \<Rightarrow> bool" where
  "same_view ops U s s' \<longleftrightarrow>
     (\<forall>q. (q, Large32k) \<in> U \<longrightarrow> leaf_view ops s' q = leaf_view ops s q \<and> leaf_chains ops s' q = leaf_chains ops s q) \<and>
     (\<forall>q. (q, Small4k) \<in> U \<longrightarrow> internal_bytes ops s' q = internal_bytes ops s q)"

lemma same_view_refl [simp]: "same_view ops U s s"
  by (simp add: same_view_def)

lemma same_pages_view: "same_pages ops U s s' \<Longrightarrow> same_view ops U s s'"
  by (auto simp: same_view_def same_pages_def leaf_view_def split: sum.split)

lemma same_view_trans: "same_view ops U s t \<Longrightarrow> same_view ops V t u \<Longrightarrow> W \<subseteq> U \<Longrightarrow> W \<subseteq> V \<Longrightarrow> same_view ops W s u"
  unfolding same_view_def by (metis subsetD)

lemma same_view_mono: "same_view ops U s t \<Longrightarrow> V \<subseteq> U \<Longrightarrow> same_view ops V s t"
  unfolding same_view_def by blast

text \<open>The store holds the tree, rooted at a given level.\<close>

fun holds :: "'s page_ops \<Rightarrow> 's \<Rightarrow> nat \<Rightarrow> tree \<Rightarrow> bool" where
  "holds ops s l (Lf p cs nx ch) \<longleftrightarrow> l = 0 \<and> p \<noteq> 0 \<and> leaf_view ops s p = Inl (cs, nx) \<and> leaf_chains ops s p = ch"
| "holds ops s l (Nd p t xs) \<longleftrightarrow> (case l of 0 \<Rightarrow> False | Suc l' \<Rightarrow>
     (\<exists>n. internal_parse (internal_bytes ops s p) = Inr n \<and> kids n = (root_of t, map (\<lambda>(k, u). (k, root_of u)) xs)) \<and>
     holds ops s l' t \<and> (\<forall>(k, u) \<in> set xs. holds ops s l' u))"

text \<open>Keys at or above the lower bound and below the upper one; no bound is \<open>None\<close>.\<close>

definition lo_ok :: "bytes option \<Rightarrow> bytes \<Rightarrow> bool" where
  "lo_ok lo k = (case lo of None \<Rightarrow> True | Some b \<Rightarrow> b \<le> k)"

definition hi_ok :: "bytes option \<Rightarrow> bytes \<Rightarrow> bool" where
  "hi_ok hi k = (case hi of None \<Rightarrow> True | Some b \<Rightarrow> k < b)"

definition first_sep :: "(bytes \<times> 'a) list \<Rightarrow> bytes option \<Rightarrow> bytes option" where
  "first_sep xs hi = (case xs of [] \<Rightarrow> hi | (k, _) # _ \<Rightarrow> Some k)"

text \<open>\<open>seps lo hi xs\<close>: the separators ascend strictly between the bounds.\<close>

fun seps :: "bytes option \<Rightarrow> bytes option \<Rightarrow> (bytes \<times> 'a) list \<Rightarrow> bool" where
  "seps lo hi [] \<longleftrightarrow> True"
| "seps lo hi ((k, _) # xs) \<longleftrightarrow> (case lo of None \<Rightarrow> True | Some b \<Rightarrow> b < k) \<and> hi_ok hi k \<and> seps (Some k) hi xs"

fun ordered :: "bytes option \<Rightarrow> bytes option \<Rightarrow> tree \<Rightarrow> bool"
  and ordered_kids :: "bytes option \<Rightarrow> (bytes \<times> tree) list \<Rightarrow> bool" where
  "ordered lo hi (Lf p cs nx ch) \<longleftrightarrow> sorted_cells cs \<and> sm_inv ch \<and>
     (\<forall>k \<in> cell_key ` set cs \<union> fst ` set ch. lo_ok lo k \<and> hi_ok hi k)"
| "ordered lo hi (Nd p t xs) \<longleftrightarrow> seps lo hi xs \<and> ordered lo (first_sep xs hi) t \<and> ordered_kids hi xs"
| "ordered_kids hi [] \<longleftrightarrow> True"
| "ordered_kids hi ((k, u) # xs) \<longleftrightarrow> ordered (Some k) (first_sep xs hi) u \<and> ordered_kids hi xs"

text \<open>The leaves in order, each pointing at the next and the last at \<open>nx\<close>.\<close>

fun linked :: "u32 \<Rightarrow> leaf_info list \<Rightarrow> bool" where
  "linked nx [] \<longleftrightarrow> True"
| "linked nx [(p, cs, n, ch)] \<longleftrightarrow> n = nx"
| "linked nx ((p, cs, n, ch) # q # ls) \<longleftrightarrow> n = fst q \<and> linked nx (q # ls)"

text \<open>A tree in a store: held at the root's level, ordered, its pages in use and distinct, its
  leaves linked to the end of the list.\<close>

definition tree_in :: "'s page_ops \<Rightarrow> 's \<Rightarrow> (u32 \<times> page_size) set \<Rightarrow> btree \<Rightarrow> tree \<Rightarrow> bool" where
  "tree_in ops s U bt t \<longleftrightarrow> root_of t = root_page bt \<and> holds ops s (unat (root_level bt)) t \<and> ordered None None t \<and>
     set (pages_of t) \<subseteq> U \<and> distinct (pages_of t) \<and> linked 0 (leaves_of t)"

section \<open>Basic facts\<close>

lemma holds_view:
  "same_view ops (set (pages_of t)) s s' \<Longrightarrow> holds ops s l t \<Longrightarrow> holds ops s' l t"
proof (induction t arbitrary: l)
  case (Lf p cs nx ch)
  then show ?case by (simp add: same_view_def)
next
  case (Nd p t xs)
  have "same_view ops (set (pages_of t)) s s'" by (rule same_view_mono [OF Nd.prems(1)]) auto
  moreover have "same_view ops (set (pages_of u)) s s'" if "(k, u) \<in> set xs" for k u
    by (rule same_view_mono [OF Nd.prems(1)]) (use that in fastforce)
  moreover have "internal_bytes ops s' p = internal_bytes ops s p" using Nd.prems(1) by (simp add: same_view_def)
  ultimately show ?case using Nd by (fastforce split: nat.splits)
qed

lemma leaves_pages: "(p, cs, nx, ch) \<in> set (leaves_of t) \<Longrightarrow> (p, Large32k) \<in> set (pages_of t)"
  by (induction t) fastforce+

lemma leaves_hold:
  "holds ops s l t \<Longrightarrow> (p, cs, nx, ch) \<in> set (leaves_of t) \<Longrightarrow> p \<noteq> 0 \<and> leaf_view ops s p = Inl (cs, nx) \<and> leaf_chains ops s p = ch"
  by (induction t arbitrary: l) (auto split: nat.splits, blast+)

lemma leaves_nonempty [simp]: "leaves_of t \<noteq> []"
  by (induction t) auto

text \<open>Walking down: the child a key is routed to covers the key.\<close>

lemma route_in: "route t xs key \<in> insert t (snd ` set xs)"
  by (induction t xs key rule: route.induct) auto

lemma seps_weaken: "seps lo hi ((k, u) # xs) \<Longrightarrow> seps (Some k) hi xs"
  by simp

fun route_bounds :: "bytes option \<Rightarrow> bytes option \<Rightarrow> (bytes \<times> 'a) list \<Rightarrow> bytes \<Rightarrow> bytes option \<times> bytes option" where
  "route_bounds lo hi [] key = (lo, hi)"
| "route_bounds lo hi ((k, d) # xs) key = (if key < k then (lo, Some k) else route_bounds (Some k) hi xs key)"

lemma route_ordered:
  assumes "ordered lo (first_sep xs hi) t" "ordered_kids hi xs" "lo_ok lo key" "hi_ok hi key"
  shows "case route_bounds lo hi xs key of (lo', hi') \<Rightarrow> ordered lo' hi' (route t xs key) \<and> lo_ok lo' key \<and> hi_ok hi' key"
  using assms
  by (induction t xs key arbitrary: lo rule: route.induct) (auto simp: first_sep_def lo_ok_def hi_ok_def)


lemma route_smaller: "size (route t xs key) < Suc (size_list (size_prod (\<lambda>_. 0) size) xs + size t)"
  by (induction t xs key rule: route.induct) auto

function leaf_for :: "tree \<Rightarrow> bytes \<Rightarrow> leaf_info" where
  "leaf_for (Lf p cs nx ch) key = (p, cs, nx, ch)"
| "leaf_for (Nd p t xs) key = leaf_for (route t xs key) key"
  by pat_completeness auto
termination
  by (relation "measure (size \<circ> fst)") (auto simp: route_smaller)

definition keys_of :: "leaf_info \<Rightarrow> bytes set" where
  "keys_of l = (case l of (p, cs, nx, ch) \<Rightarrow> cell_key ` set cs \<union> fst ` set ch)"

lemma finite_keys_of [simp]: "finite (keys_of l)"
  by (simp add: keys_of_def split: prod.split)

definition ascending :: "leaf_info list \<Rightarrow> bool" where
  "ascending ls \<longleftrightarrow> sorted_wrt (\<lambda>a b. \<forall>x \<in> keys_of a. \<forall>y \<in> keys_of b. x < y) ls"

lemma leaf_for_in: "leaf_for t key \<in> set (leaves_of t)"
proof (induction t key rule: leaf_for.induct)
  case (2 p t xs key)
  then show ?case using route_in [of t xs key] by fastforce
qed simp

lemma lo_ok_trans: "lo_ok lo k \<Longrightarrow> k \<le> k' \<Longrightarrow> lo_ok lo k'"
  by (auto simp: lo_ok_def split: option.splits)

lemma hi_ok_trans: "hi_ok hi k \<Longrightarrow> k' \<le> k \<Longrightarrow> hi_ok hi k'"
  by (auto simp: hi_ok_def split: option.splits)

lemma seps_bounds: "seps lo hi xs \<Longrightarrow> k \<in> fst ` set xs \<Longrightarrow> lo_ok lo k \<and> hi_ok hi k"
proof (induction xs arbitrary: lo)
  case (Cons x xs)
  obtain k' u where x: "x = (k', u)" by (cases x)
  have k': "lo_ok lo k'" "hi_ok hi k'" using Cons.prems(1) x by (auto simp: lo_ok_def less_imp_le split: option.splits)
  show ?case
  proof (cases "k = k'")
    case False
    then have "lo_ok (Some k') k \<and> hi_ok hi k" using Cons x by fastforce
    then show ?thesis using k' lo_ok_trans by (auto simp: lo_ok_def [of "Some k'"])
  qed (use k' in simp)
qed simp

lemma first_sep_below: "seps lo hi xs \<Longrightarrow> hi_ok (first_sep xs hi) k \<Longrightarrow> hi_ok hi k"
  by (cases xs) (auto simp: first_sep_def hi_ok_def split: option.splits)

lemma ordered_keys:
  "ordered lo hi t \<Longrightarrow> l \<in> set (leaves_of t) \<Longrightarrow> k \<in> keys_of l \<Longrightarrow> lo_ok lo k \<and> hi_ok hi k"
proof (induction t arbitrary: lo hi)
  case (Lf p cs nx ch)
  then show ?case by (auto simp: keys_of_def)
next
  case (Nd p t xs)
  have kids: "lo_ok (Some k') k \<and> hi_ok hi k" if "ordered_kids hi ys" "seps lo' hi ys" "(k', u) \<in> set ys" "set ys \<subseteq> set xs" "l \<in> set (leaves_of u)" for ys lo' k' u
    using that
  proof (induction ys arbitrary: lo')
    case (Cons y ys)
    obtain k'' u' where y: "y = (k'', u')" by (cases y)
    show ?case
    proof (cases "(k', u) = (k'', u')")
      case True
      then have "lo_ok (Some k') k \<and> hi_ok (first_sep ys hi) k"
        using Nd.IH(2) [of "(k', u)" u "Some k'" "first_sep ys hi"] Cons.prems y Nd.prems(3) by (auto intro: snds.intros)
      then show ?thesis using first_sep_below [of "Some k''" hi ys k] Cons.prems(2) y by simp
    next
      case False
      then show ?thesis using Cons.IH [of "Some k''"] Cons.prems y by auto
    qed
  qed simp
  consider "l \<in> set (leaves_of t)" | k' u where "(k', u) \<in> set xs" "l \<in> set (leaves_of u)" using Nd.prems(2) by auto
  then show ?case
  proof cases
    case 1
    then have "lo_ok lo k \<and> hi_ok (first_sep xs hi) k" using Nd.IH(1) [of lo "first_sep xs hi"] Nd.prems by simp
    then show ?thesis using first_sep_below [of lo hi xs k] Nd.prems(1) by simp
  next
    case 2
    then have "lo_ok (Some k') k \<and> hi_ok hi k" using kids [of xs lo k' u] Nd.prems(1) by simp
    moreover have "lo_ok lo k'" using seps_bounds [of lo hi xs k'] Nd.prems(1) 2 by force
    ultimately show ?thesis using lo_ok_trans by (auto simp: lo_ok_def [of "Some k'"])
  qed
qed

lemma ordered_ascending: "ordered lo hi t \<Longrightarrow> ascending (leaves_of t)"
proof (induction t arbitrary: lo hi)
  case (Lf p cs nx ch)
  then show ?case by (simp add: ascending_def)
next
  case (Nd p t xs)
  have "ascending (leaves_of v @ concat (map (\<lambda>(_, u). leaves_of u) ys))"
    if "ordered lo' (first_sep ys hi) v" "seps lo' hi ys" "ordered_kids hi ys" "set ys \<subseteq> set xs" "ascending (leaves_of v)" for ys lo' v
    using that
  proof (induction ys arbitrary: lo' v)
    case (Cons y ys)
    obtain k u where y: "y = (k, u)" by (cases y)
    have u: "ascending (leaves_of u)" using Nd.IH(2) [of "(k, u)" u "Some k" "first_sep ys hi"] Cons.prems y by (auto intro: snds.intros)
    have rest: "ascending (leaves_of u @ concat (map (\<lambda>(_, u). leaves_of u) ys))"
      using Cons.IH [of "Some k" u] Cons.prems y u by auto
    have "x < z" if x: "l \<in> set (leaves_of v)" "x \<in> keys_of l" and z: "m \<in> set (leaves_of (Nd 0 u ys))" "z \<in> keys_of m" for l m x z
    proof -
      have "hi_ok (Some k) x" using ordered_keys [OF Cons.prems(1) x] y by (simp add: first_sep_def)
      moreover have "ordered (Some k) hi (Nd 0 u ys)" using Cons.prems y by simp
      then have "lo_ok (Some k) z" using ordered_keys z by blast
      ultimately show ?thesis by (simp add: lo_ok_def hi_ok_def)
    qed
    then show ?case using rest Cons.prems(5) y by (auto simp: ascending_def sorted_wrt_append)
  qed simp
  from this [of lo xs t] show ?case using Nd.IH(1) [of lo "first_sep xs hi"] Nd.prems by simp
qed

lemma route_holds:
  assumes "seps lo hi ys" "ordered lo (first_sep ys hi) v" "ordered_kids hi ys" "l \<in> set (leaves_of (Nd 0 v ys))" "k \<in> keys_of l"
  shows "l \<in> set (leaves_of (route v ys k))"
  using assms
proof (induction v ys k arbitrary: lo rule: route.induct)
  case (2 v k' u ys k)
  show ?case
  proof (cases "k < k'")
    case True
    have o: "ordered (Some k') hi (Nd 0 u ys)" using 2 by simp
    have "l \<notin> set (leaves_of (Nd 0 u ys))" using ordered_keys [OF o _ 2(6)] True by (auto simp: lo_ok_def simp del: leaves_of.simps)
    then show ?thesis using True 2(5) by auto
  next
    case False
    have "ordered lo (Some k') v" using 2(3) by (simp add: first_sep_def)
    then have "l \<notin> set (leaves_of v)" using ordered_keys [OF _ _ 2(6)] False by (fastforce simp: hi_ok_def)
    then show ?thesis using False 2(1) [of "Some k'"] 2(2-6) by auto
  qed
qed simp

lemma leaf_for_key:
  "ordered lo hi t \<Longrightarrow> l \<in> set (leaves_of t) \<Longrightarrow> k \<in> keys_of l \<Longrightarrow> lo_ok lo k \<Longrightarrow> hi_ok hi k \<Longrightarrow> leaf_for t k = l"
proof (induction t k arbitrary: lo hi rule: leaf_for.induct)
  case (2 p t xs k)
  have l: "l \<in> set (leaves_of (route t xs k))" using route_holds [of lo hi xs t l k] 2 by simp
  have "case route_bounds lo hi xs k of (lo', hi') \<Rightarrow> ordered lo' hi' (route t xs k) \<and> lo_ok lo' k \<and> hi_ok hi' k"
    using route_ordered [of lo xs hi t k] 2 by simp
  then show ?case using 2(1) l 2(4) by (auto split: prod.splits)
qed simp

lemma leaf_for_ordered:
  "ordered lo hi t \<Longrightarrow> lo_ok lo k \<Longrightarrow> hi_ok hi k \<Longrightarrow> case leaf_for t k of (p, cs, nx, ch) \<Rightarrow> sorted_cells cs \<and> sm_inv ch"
proof (induction t k arbitrary: lo hi rule: leaf_for.induct)
  case (2 p t xs k)
  have "case route_bounds lo hi xs k of (lo', hi') \<Rightarrow> ordered lo' hi' (route t xs k) \<and> lo_ok lo' k \<and> hi_ok hi' k"
    using route_ordered [of lo xs hi t k] 2 by simp
  then show ?case using 2(1) by (auto split: prod.splits)
qed simp

lemma ordered_leaf: "ordered lo hi t \<Longrightarrow> (p, cs, nx, ch) \<in> set (leaves_of t) \<Longrightarrow> sorted_cells cs \<and> sm_inv ch"
proof (induction t arbitrary: lo hi)
  case (Nd q t xs)
  have kids: "\<exists>lo' hi'. ordered lo' hi' u" if "ordered_kids hi ys" "(k, u) \<in> set ys" for ys k u
    using that by (induction ys) (auto, blast)
  consider "(p, cs, nx, ch) \<in> set (leaves_of t)" | k u where "(k, u) \<in> set xs" "(p, cs, nx, ch) \<in> set (leaves_of u)"
    using Nd.prems(2) by auto
  then show ?case
  proof cases
    case 1
    then show ?thesis using Nd.IH(1) [of lo "first_sep xs hi"] Nd.prems(1) by simp
  next
    case 2
    then obtain lo' hi' where "ordered lo' hi' u" using kids [of xs k u] Nd.prems(1) by auto
    then show ?thesis using Nd.IH(2) [of "(k, u)" u lo' hi'] 2 by (auto intro: snds.intros)
  qed
qed simp

text \<open>The contents of a tree as maps: its cells and its version chains.\<close>

definition tree_cells :: "tree \<Rightarrow> leaf_cell list" where
  "tree_cells t = concat (map (\<lambda>(p, cs, nx, ch). cs) (leaves_of t))"

definition tree_chains :: "tree \<Rightarrow> (bytes \<times> chain) list" where
  "tree_chains t = concat (map (\<lambda>(p, cs, nx, ch). ch) (leaves_of t))"

lemma map_of_concat_None: "\<forall>m \<in> set ms. k \<notin> fst ` set m \<Longrightarrow> map_of (concat ms) k = None"
  unfolding map_of_eq_None_iff by force

lemma map_of_concat_unique:
  assumes "m \<in> set ms" "\<And>m'. m' \<in> set ms \<Longrightarrow> k \<in> fst ` set m' \<Longrightarrow> m' = m"
  shows "map_of (concat ms) k = map_of m k"
  using assms
proof (induction ms)
  case (Cons x ms)
  have tail: "map_of (concat ms) k = (if m \<in> set ms then map_of m k else None)"
  proof (cases "m \<in> set ms")
    case False
    have "\<forall>m' \<in> set ms. k \<notin> fst ` set m'"
    proof
      fix m' assume "m' \<in> set ms"
      then have "m' \<noteq> m" "m' \<in> set (x # ms)" using False by (blast, simp)
      then show "k \<notin> fst ` set m'" using Cons.prems(2) by blast
    qed
    then have "map_of (concat ms) k = None" by (rule map_of_concat_None)
    then show ?thesis by (simp only: False if_False)
  next
    case True
    have "map_of (concat ms) k = map_of m k" by (rule Cons.IH [OF True]) (rule Cons.prems(2), simp_all)
    then show ?thesis by (simp only: True if_True)
  qed
  have x: "map_of x k = None \<or> x = m" unfolding map_of_eq_None_iff using Cons.prems(2) [of x] by (simp only: list.set insertI1) blast
  have "x = m \<or> m \<in> set ms" using Cons.prems(1) by auto
  then show ?case using x tail by (auto simp: map_add_def split: option.split)
qed simp

lemma tree_maps:
  assumes "ordered None None t" "leaf_for t k = (p, cs, nx, ch)"
  shows "cell_map (tree_cells t) k = cell_map cs k" "map_of (tree_chains t) k = sm_get ch k"
proof -
  have in_t: "(p, cs, nx, ch) \<in> set (leaves_of t)" using leaf_for_in [of t k] assms(2) by simp
  have uniq: "l = (p, cs, nx, ch)" if "l \<in> set (leaves_of t)" "k \<in> keys_of l" for l
    using leaf_for_key [OF assms(1) that] assms(2) by (simp add: lo_ok_def hi_ok_def)
  have "map (\<lambda>c. (cell_key c, cell_val c)) (tree_cells t) =
      concat (map (\<lambda>(p, cs, nx, ch). map (\<lambda>c. (cell_key c, cell_val c)) cs) (leaves_of t))"
    unfolding tree_cells_def map_concat map_map by (rule arg_cong [where f = concat]) auto
  moreover have "map_of \<dots> k = map_of (map (\<lambda>c. (cell_key c, cell_val c)) cs) k"
  proof (rule map_of_concat_unique)
    show "map (\<lambda>c. (cell_key c, cell_val c)) cs \<in> set (map (\<lambda>(p, cs, nx, ch). map (\<lambda>c. (cell_key c, cell_val c)) cs) (leaves_of t))"
      using in_t by (force simp: image_iff)
    fix m assume "m \<in> set (map (\<lambda>(p, cs, nx, ch). map (\<lambda>c. (cell_key c, cell_val c)) cs) (leaves_of t))" "k \<in> fst ` set m"
    then obtain p' cs' nx' ch' where "(p', cs', nx', ch') \<in> set (leaves_of t)" "m = map (\<lambda>c. (cell_key c, cell_val c)) cs'"
        "k \<in> keys_of (p', cs', nx', ch')"
      by (force simp: keys_of_def)
    then show "m = map (\<lambda>c. (cell_key c, cell_val c)) cs" using uniq by blast
  qed
  ultimately show "cell_map (tree_cells t) k = cell_map cs k" by (simp add: cell_map_def)
  have "map_of (concat (map (\<lambda>(p, cs, nx, ch). ch) (leaves_of t))) k = map_of ch k"
  proof (rule map_of_concat_unique)
    show "ch \<in> set (map (\<lambda>(p, cs, nx, ch). ch) (leaves_of t))" using in_t by (force simp: image_iff)
    fix m assume "m \<in> set (map (\<lambda>(p, cs, nx, ch). ch) (leaves_of t))" "k \<in> fst ` set m"
    then obtain p' cs' nx' where "(p', cs', nx', m) \<in> set (leaves_of t)" "k \<in> keys_of (p', cs', nx', m)"
      by (force simp: keys_of_def)
    then show "m = ch" using uniq by blast
  qed
  then show "map_of (tree_chains t) k = sm_get ch k" by (simp add: tree_chains_def sm_get_def)
qed

lemma route_pages: "set (pages_of (route t xs key)) \<subseteq> set (pages_of (Nd p t xs))"
  by (induction t xs key rule: route.induct) auto

end
