(* ===== verification/Overflow_Chain.thy ===== *)
theory Overflow_Chain
  imports Page_Store Leaf_Node
begin

text \<open>
  Overflow chains (\<open>storage/btree/overflow.rs\<close>): a value too large for a leaf is a linked
  list of 32 KB pages. Reading, writing, freeing and collecting a chain are loops over the
  page store; every walk carries the budget \<open>MAX_OVERFLOW_CHAIN_PAGES\<close> of the code, so it
  ends on a chain with a cycle too.
\<close>

section \<open>Definitions\<close>

definition OVERFLOW_PAGE_DATA :: nat where "OVERFLOW_PAGE_DATA = PAGE_SIZE_LEAF - OVERFLOW_HEADER_SIZE"
definition MAX_OVERFLOW_CHAIN_PAGES :: nat where
  "MAX_OVERFLOW_CHAIN_PAGES = (2 ^ 32 - 1) div OVERFLOW_PAGE_DATA + 2"

definition chain_too_long :: error where
  "chain_too_long = Internal ''overflow chain exceeded its page bound (cycle or corrupt next pointer)''"

text \<open>One step of a walk: the header of the page, checked to be an overflow page.\<close>

definition overflow_header_at :: "'s page_ops \<Rightarrow> 's \<Rightarrow> u32 \<Rightarrow> (bytes \<times> overflow_page_header) result" where
  "overflow_header_at ops s cur =
    rbind (op_read_leaf ops s cur) (\<lambda>(buf, _).
    rbind (overflow_from_bytes buf) (\<lambda>hdr.
    rbind (overflow_validate_type hdr) (\<lambda>_. Inr (buf, hdr))))"

fun read_overflow_loop :: "'s page_ops \<Rightarrow> 's \<Rightarrow> nat \<Rightarrow> u32 \<Rightarrow> bytes \<Rightarrow> bytes result" where
  "read_overflow_loop ops s 0 cur acc = (if cur = 0 then Inr acc else Inl chain_too_long)"
| "read_overflow_loop ops s (Suc budget) cur acc =
    (if cur = 0 then Inr acc
     else rbind (overflow_header_at ops s cur) (\<lambda>(buf, hdr).
       let data_len = unat (oh_data_length hdr) in
       if OVERFLOW_HEADER_SIZE + data_len > PAGE_SIZE_LEAF
       then Inl (Internal ''overflow page: data_length exceeds page size'')
       else read_overflow_loop ops s budget (oh_next_overflow_page hdr)
              (acc @ sub buf OVERFLOW_HEADER_SIZE (OVERFLOW_HEADER_SIZE + data_len))))"

definition read_overflow_chain :: "'s page_ops \<Rightarrow> 's \<Rightarrow> u32 \<Rightarrow> u32 \<Rightarrow> bytes result" where
  "read_overflow_chain ops s first_page total_length =
    rbind (read_overflow_loop ops s MAX_OVERFLOW_CHAIN_PAGES first_page []) (\<lambda>bs. Inr (take (unat total_length) bs))"

function chunks :: "nat \<Rightarrow> 'a list \<Rightarrow> 'a list list" where
  "chunks n xs = (if n = 0 \<or> xs = [] then [] else take n xs # chunks n (drop n xs))"
  by pat_completeness auto
termination by (relation "measure (length \<circ> snd)") auto

declare chunks.simps [simp del]

fun alloc_leaves :: "'s page_ops \<Rightarrow> nat \<Rightarrow> ('s, u32 list) sr" where
  "alloc_leaves ops 0 = sr_return []"
| "alloc_leaves ops (Suc n) =
    sr_bind (op_alloc_leaf ops) (\<lambda>p. sr_bind (alloc_leaves ops n) (\<lambda>ps. sr_return (p # ps)))"

definition overflow_page_image :: "(bytes \<Rightarrow> u32) \<Rightarrow> (u32 \<Rightarrow> bytes \<Rightarrow> u32) \<Rightarrow> u32 \<Rightarrow> bytes \<Rightarrow> bytes" where
  "overflow_page_image crc crc_append nxt chunk =
    (let hdr = \<lparr>oh_page_type = PAGE_TYPE_OVERFLOW, oh_refcount = 0, oh_checksum = 0, oh_next_overflow_page = nxt,
                oh_data_length = of_nat (length chunk)\<rparr>;
         buf = put (overflow_write_to hdr (replicate PAGE_SIZE_LEAF 0)) OVERFLOW_HEADER_SIZE chunk;
         cs = overflow_page_checksum crc crc_append buf
     in put buf 8 (u32_to_le_bytes cs))"

fun write_leaves :: "'s page_ops \<Rightarrow> (u32 \<times> bytes) list \<Rightarrow> ('s, unit) sr" where
  "write_leaves ops [] = sr_return ()"
| "write_leaves ops ((p, d) # ws) = sr_bind (op_write_leaf ops p d) (\<lambda>_. write_leaves ops ws)"

definition write_overflow_chain :: "(bytes \<Rightarrow> u32) \<Rightarrow> (u32 \<Rightarrow> bytes \<Rightarrow> u32) \<Rightarrow> 's page_ops \<Rightarrow> bytes \<Rightarrow> ('s, u32) sr" where
  "write_overflow_chain crc crc_append ops d =
    (if d = [] then sr_fail (Internal ''write_overflow_chain: empty data'')
     else let n = (length d - 1) div OVERFLOW_PAGE_DATA + 1 in
       sr_bind (alloc_leaves ops n) (\<lambda>pages.
       sr_bind (write_leaves ops (map (\<lambda>(i, chunk).
           (pages ! i, overflow_page_image crc crc_append (if i + 1 < n then pages ! (i + 1) else 0) chunk))
         (rev (enumerate 0 (chunks OVERFLOW_PAGE_DATA d))))) (\<lambda>_.
       sr_return (pages ! 0))))"

fun free_overflow_loop :: "'s page_ops \<Rightarrow> nat \<Rightarrow> u32 \<Rightarrow> ('s, unit) sr" where
  "free_overflow_loop ops 0 cur = (if cur = 0 then sr_return () else sr_fail chain_too_long)"
| "free_overflow_loop ops (Suc budget) cur =
    (if cur = 0 then sr_return ()
     else sr_bind (sr_get (\<lambda>s. overflow_header_at ops s cur)) (\<lambda>(buf, hdr).
       sr_bind (op_with_all_chains ops cur (\<lambda>_. ([], []))) (\<lambda>_.
       sr_bind (op_free_leaf ops cur) (\<lambda>_.
       free_overflow_loop ops budget (oh_next_overflow_page hdr)))))"

definition free_overflow_chain :: "'s page_ops \<Rightarrow> u32 \<Rightarrow> ('s, unit) sr" where
  "free_overflow_chain ops first_page = free_overflow_loop ops MAX_OVERFLOW_CHAIN_PAGES first_page"

fun collect_overflow_loop :: "'s page_ops \<Rightarrow> 's \<Rightarrow> nat \<Rightarrow> u32 \<Rightarrow> (u32 \<times> page_size) list \<Rightarrow> (u32 \<times> page_size) list result" where
  "collect_overflow_loop ops s 0 cur pages = (if cur = 0 then Inr pages else Inl chain_too_long)"
| "collect_overflow_loop ops s (Suc budget) cur pages =
    (if cur = 0 then Inr pages
     else rbind (overflow_header_at ops s cur) (\<lambda>(_, hdr).
       collect_overflow_loop ops s budget (oh_next_overflow_page hdr) (pages @ [(cur, Large32k)])))"

definition collect_overflow_pages :: "'s page_ops \<Rightarrow> 's \<Rightarrow> u32 \<Rightarrow> (u32 \<times> page_size) list \<Rightarrow> (u32 \<times> page_size) list result" where
  "collect_overflow_pages ops s first_page pages = collect_overflow_loop ops s MAX_OVERFLOW_CHAIN_PAGES first_page pages"

definition resolve_version_data :: "'s page_ops \<Rightarrow> 's \<Rightarrow> version_data \<Rightarrow> bytes result" where
  "resolve_version_data ops s d = (case d of
     Inline v \<Rightarrow> Inr v
   | Overflow first_page total_length \<Rightarrow> read_overflow_chain ops s first_page (ucast total_length))"

definition resolve_cell_value :: "'s page_ops \<Rightarrow> 's \<Rightarrow> cell_value \<Rightarrow> bytes result" where
  "resolve_cell_value ops s v = (case v of
     Cell_Inline b \<Rightarrow> Inr b
   | Cell_Overflow first_page total_length \<Rightarrow> read_overflow_chain ops s first_page total_length)"

section \<open>Chunks and page images\<close>

lemma chunks_Nil [simp]: "chunks n [] = []"
  by (simp add: chunks.simps)

lemma chunks_step: "0 < n \<Longrightarrow> xs \<noteq> [] \<Longrightarrow> chunks n xs = take n xs # chunks n (drop n xs)"
  by (subst chunks.simps) simp

lemma chunks_concat: "0 < n \<Longrightarrow> concat (chunks n xs) = xs"
proof (induction n xs rule: chunks.induct)
  case (1 n xs)
  then show ?case by (cases "xs = []") (simp_all add: chunks_step)
qed

lemma chunks_length: "0 < n \<Longrightarrow> xs \<noteq> [] \<Longrightarrow> length (chunks n xs) = (length xs - 1) div n + 1"
proof (induction n xs rule: chunks.induct)
  case (1 n xs)
  show ?case
  proof (cases "length xs \<le> n")
    case True
    then have "(length xs - 1) div n = 0" using 1(2,3) by (cases xs) simp_all
    then show ?thesis using True 1(2,3) by (simp add: chunks_step)
  next
    case False
    then have "length xs - 1 = n + (length (drop n xs) - 1)" by simp
    then have "(length xs - 1) div n = Suc ((length (drop n xs) - 1) div n)"
      using 1(2) by (metis Suc_eq_plus1 div_add_self1 less_numeral_extra(3))
    then show ?thesis using False 1 by (simp add: chunks_step)
  qed
qed

lemma chunks_bound: "c \<in> set (chunks n xs) \<Longrightarrow> length c \<le> n \<and> c \<noteq> []"
proof (induction n xs rule: chunks.induct)
  case (1 n xs)
  show ?case
  proof (cases "n = 0 \<or> xs = []")
    case True
    then show ?thesis using 1(2) by (subst (asm) chunks.simps) simp
  next
    case False
    then have "c = take n xs \<or> c \<in> set (chunks n (drop n xs))" using 1(2) by (simp add: chunks_step)
    then show ?thesis using False 1(1) by auto
  qed
qed

lemma overflow_consts: "PAGE_SIZE_LEAF = 32768" "OVERFLOW_HEADER_SIZE = 20" "OVERFLOW_PAGE_DATA = 32748"
  by (simp_all add: PAGE_SIZE_LEAF_def OVERFLOW_HEADER_SIZE_def OVERFLOW_PAGE_DATA_def)

lemma length_overflow_write_to: "20 \<le> length buf \<Longrightarrow> length (overflow_write_to h buf) = length buf"
  by (simp add: overflow_write_to_def)

text \<open>An image reads back as an overflow page with its link and its payload.\<close>

lemma overflow_image:
  assumes "length chunk \<le> OVERFLOW_PAGE_DATA"
    and img_def: "img = overflow_page_image crc crc_append nxt chunk"
  shows "length img = PAGE_SIZE_LEAF"
    and "\<exists>cs. overflow_from_bytes img = Inr \<lparr>oh_page_type = PAGE_TYPE_OVERFLOW, oh_refcount = 0, oh_checksum = cs,
      oh_next_overflow_page = nxt, oh_data_length = of_nat (length chunk)\<rparr>"
    and "sub img OVERFLOW_HEADER_SIZE (OVERFLOW_HEADER_SIZE + length chunk) = chunk"
proof -
  define h where "h = \<lparr>oh_page_type = PAGE_TYPE_OVERFLOW, oh_refcount = 0, oh_checksum = 0,
      oh_next_overflow_page = nxt, oh_data_length = of_nat (length chunk)\<rparr>"
  define w where "w = overflow_write_to h (replicate 32768 0)"
  define buf where "buf = put w 20 chunk"
  define cs where "cs = overflow_page_checksum crc crc_append buf"
  have img: "img = put buf 8 (u32_to_le_bytes cs)"
    by (simp add: img_def overflow_page_image_def h_def w_def buf_def cs_def overflow_consts Let_def)
  have lw: "length w = 32768" by (simp add: w_def length_overflow_write_to)
  have lc: "length chunk \<le> 32748" using assms(1) by (simp add: overflow_consts)
  then have lb: "length buf = 32768" by (simp add: buf_def lw)
  show "length img = PAGE_SIZE_LEAF" by (simp add: img lb overflow_consts)
  show "sub img OVERFLOW_HEADER_SIZE (OVERFLOW_HEADER_SIZE + length chunk) = chunk"
    using lb lw lc sub_put_same [of 20 chunk w] by (simp add: img overflow_consts sub_put_after buf_def)
  have w: "overflow_from_bytes w = Inr h" unfolding w_def by (rule overflow_header_roundtrip) (simp add: overflow_consts)
  have "overflow_from_bytes img = Inr (h\<lparr>oh_checksum := cs\<rparr>)"
    using w lb lw lc by (auto simp: overflow_from_bytes_def img buf_def put_reads overflow_consts)
  then show "\<exists>cs. overflow_from_bytes img = Inr \<lparr>oh_page_type = PAGE_TYPE_OVERFLOW, oh_refcount = 0, oh_checksum = cs,
      oh_next_overflow_page = nxt, oh_data_length = of_nat (length chunk)\<rparr>"
    by (simp add: h_def)
qed

section \<open>Chains in a store\<close>

fun ov_chain :: "'s page_ops \<Rightarrow> 's \<Rightarrow> u32 \<Rightarrow> (u32 \<times> bytes) list \<Rightarrow> bool" where
  "ov_chain ops s cur [] = (cur = 0)"
| "ov_chain ops s cur ((p, c) # ps) = (cur = p \<and> p \<noteq> 0 \<and> length c \<le> OVERFLOW_PAGE_DATA \<and>
     (\<exists>buf hdr. overflow_header_at ops s p = Inr (buf, hdr) \<and> unat (oh_data_length hdr) = length c \<and>
        sub buf OVERFLOW_HEADER_SIZE (OVERFLOW_HEADER_SIZE + length c) = c \<and> ov_chain ops s (oh_next_overflow_page hdr) ps))"

lemma read_overflow_loop_chain:
  "ov_chain ops s cur ps \<Longrightarrow> length ps \<le> budget \<Longrightarrow>
   read_overflow_loop ops s budget cur acc = Inr (acc @ concat (map snd ps))"
proof (induction ps arbitrary: cur budget acc)
  case Nil
  then show ?case by (cases budget) simp_all
next
  case (Cons pc ps)
  obtain p c where pc: "pc = (p, c)" by (cases pc)
  obtain b where b: "budget = Suc b" using Cons.prems(2) by (cases budget) simp_all
  obtain buf hdr where h: "cur = p" "p \<noteq> 0" "length c \<le> OVERFLOW_PAGE_DATA" "overflow_header_at ops s p = Inr (buf, hdr)"
      "unat (oh_data_length hdr) = length c" "sub buf OVERFLOW_HEADER_SIZE (OVERFLOW_HEADER_SIZE + length c) = c"
      "ov_chain ops s (oh_next_overflow_page hdr) ps"
    using Cons.prems(1) pc by auto
  have "\<not> PAGE_SIZE_LEAF < OVERFLOW_HEADER_SIZE + length c" using h(3) by (simp add: overflow_consts)
  then show ?case using h Cons.IH [OF h(7), of b "acc @ c"] Cons.prems(2) b pc by simp
qed

lemma collect_overflow_loop_chain:
  "ov_chain ops s cur ps \<Longrightarrow> length ps \<le> budget \<Longrightarrow>
   collect_overflow_loop ops s budget cur pages = Inr (pages @ map (\<lambda>(p, _). (p, Large32k)) ps)"
proof (induction ps arbitrary: cur budget pages)
  case Nil
  then show ?case by (cases budget) simp_all
next
  case (Cons pc ps)
  then show ?case by (cases pc; cases budget) auto
qed

context page_store
begin

lemma header_at_image:
  assumes "inv s U" "(p, Large32k) \<in> U" "length chunk \<le> OVERFLOW_PAGE_DATA"
    and b: "leaf_bytes ops s p = overflow_page_image crc crc_append nxt chunk"
  shows "\<exists>hdr. overflow_header_at ops s p = Inr (leaf_bytes ops s p, hdr) \<and> unat (oh_data_length hdr) = length chunk \<and>
    oh_next_overflow_page hdr = nxt"
proof -
  obtain cm where r: "op_read_leaf ops s p = Inr (leaf_bytes ops s p, cm)" using read_leaf [OF assms(1,2)] by blast
  obtain cs where h: "overflow_from_bytes (leaf_bytes ops s p) = Inr \<lparr>oh_page_type = PAGE_TYPE_OVERFLOW, oh_refcount = 0,
      oh_checksum = cs, oh_next_overflow_page = nxt, oh_data_length = of_nat (length chunk)\<rparr>"
    using overflow_image(2) [OF assms(3) b] by blast
  have "length chunk < 2 ^ 32" using assms(3) by (simp add: overflow_consts)
  then show ?thesis using r h by (simp add: overflow_header_at_def overflow_validate_type_def unat_of_nat)
qed

lemma alloc_leaves_ok:
  "inv s U \<Longrightarrow> alloc_leaves ops n s = (Inr ps, s') \<Longrightarrow>
   length ps = n \<and> distinct ps \<and> 0 \<notin> set ps \<and> set ps \<inter> fst ` U = {} \<and>
   inv s' ((\<lambda>p. (p, Large32k)) ` set ps \<union> U) \<and> same_pages ops U s s'"
proof (induction n arbitrary: s U ps)
  case (Suc n)
  obtain p s1 qs where a: "op_alloc_leaf ops s = (Inr p, s1)" "alloc_leaves ops n s1 = (Inr qs, s')" "ps = p # qs"
    using Suc.prems(2) by (auto simp: sr_bind_ok)
  note al = alloc_leaf [OF Suc.prems(1) a(1)]
  have ih: "length qs = n \<and> distinct qs \<and> 0 \<notin> set qs \<and> set qs \<inter> fst ` insert (p, Large32k) U = {} \<and>
      inv s' ((\<lambda>p. (p, Large32k)) ` set qs \<union> insert (p, Large32k) U) \<and> same_pages ops (insert (p, Large32k) U) s1 s'"
    using Suc.IH [OF _ a(2)] al by blast
  then have "same_pages ops U s s'" using al same_pages_mono same_pages_trans by (metis subset_insertI)
  then show ?case using ih al a(3) by auto
qed auto

lemma write_leaves_ok:
  "inv s U \<Longrightarrow> distinct (map fst ws) \<Longrightarrow> \<forall>(p, d) \<in> set ws. (p, Large32k) \<in> U \<and> length d = PAGE_SIZE_LEAF \<Longrightarrow>
   \<exists>s'. write_leaves ops ws s = (Inr (), s') \<and> inv s' U \<and> (\<forall>(p, d) \<in> set ws. leaf_bytes ops s' p = d) \<and>
     same_pages ops (U - (\<lambda>p. (p, Large32k)) ` fst ` set ws) s s'"
proof (induction ws arbitrary: s)
  case (Cons w ws)
  obtain p d where w: "w = (p, d)" by (cases w)
  obtain s1 where s1: "op_write_leaf ops p d s = (Inr (), s1)" "inv s1 U" "leaf_bytes ops s1 p = d"
      "same_pages ops (U - {(p, Large32k)}) s s1"
    using write_leaf [OF Cons.prems(1), of p d] Cons.prems(3) w by auto
  obtain s' where s': "write_leaves ops ws s1 = (Inr (), s')" "inv s' U" "\<forall>(p, d) \<in> set ws. leaf_bytes ops s' p = d"
      "same_pages ops (U - (\<lambda>p. (p, Large32k)) ` fst ` set ws) s1 s'"
    using Cons.IH [OF s1(2)] Cons.prems(2,3) w by auto
  have "leaf_bytes ops s' p = d"
    using s'(4) s1(3) Cons.prems(2,3) w unfolding same_pages_def by force
  moreover have "same_pages ops (U - (\<lambda>p. (p, Large32k)) ` fst ` set (w # ws)) s s'"
    by (rule same_pages_trans [OF same_pages_mono [OF s1(4)] same_pages_mono [OF s'(4)]]) (auto simp: w)
  ultimately show ?case using s1(1) s'(1-3) w by (auto simp: sr_bind_def)
qed auto

end

context page_store
begin

lemma ov_chain_build:
  assumes inv: "inv s U" and len: "length pages = length cs"
    and used: "\<forall>p \<in> set pages. p \<noteq> 0 \<and> (p, Large32k) \<in> U"
    and small: "\<forall>c \<in> set cs. length c \<le> OVERFLOW_PAGE_DATA"
    and imgs: "\<forall>i < length cs. leaf_bytes ops s (pages ! i) =
      overflow_page_image crc crc_append (if i + 1 < length cs then pages ! (i + 1) else 0) (cs ! i)"
    and k: "k \<le> length cs"
  shows "ov_chain ops s (if k < length cs then pages ! k else 0) (drop k (zip pages cs))"
  using k
proof (induction k rule: inc_induct)
  case (step k)
  let ?nxt = "if k + 1 < length cs then pages ! (k + 1) else 0"
  have k: "k < length cs" "(pages ! k, Large32k) \<in> U" "length (cs ! k) \<le> OVERFLOW_PAGE_DATA" "pages ! k \<noteq> 0"
    using step(2) used small len by auto
  have b: "leaf_bytes ops s (pages ! k) = overflow_page_image crc crc_append ?nxt (cs ! k)" using imgs k(1) by simp
  obtain hdr where h: "overflow_header_at ops s (pages ! k) = Inr (leaf_bytes ops s (pages ! k), hdr)"
      "unat (oh_data_length hdr) = length (cs ! k)" "oh_next_overflow_page hdr = ?nxt"
    using header_at_image [OF inv k(2,3) b] by blast
  have "drop k (zip pages cs) = (pages ! k, cs ! k) # drop (Suc k) (zip pages cs)"
    using k(1) len by (simp add: Cons_nth_drop_Suc [symmetric])
  then show ?case using k h step.IH overflow_image(3) [OF k(3) b] by (auto split: if_splits)
qed (simp add: len)

lemma write_overflow_chain_ok:
  assumes inv: "inv s U" and w: "write_overflow_chain crc crc_append ops d s = (Inr p, s')"
  shows "\<exists>ps. ov_chain ops s' p ps \<and> concat (map snd ps) = d \<and> length ps = (length d - 1) div OVERFLOW_PAGE_DATA + 1 \<and>
    distinct (map fst ps) \<and> set (map fst ps) \<inter> fst ` U = {} \<and>
    inv s' ((\<lambda>p. (p, Large32k)) ` set (map fst ps) \<union> U) \<and> same_pages ops U s s'"
proof -
  have d: "d \<noteq> []" using w by (auto simp: write_overflow_chain_def)
  define cs where "cs = chunks OVERFLOW_PAGE_DATA d"
  define n where "n = (length d - 1) div OVERFLOW_PAGE_DATA + 1"
  have n: "length cs = n" unfolding cs_def n_def by (rule chunks_length [OF _ d]) (simp add: overflow_consts)
  define ws where "ws pages = map (\<lambda>(i, c). (pages ! i,
      overflow_page_image crc crc_append (if i + 1 < n then pages ! (i + 1) else 0) c)) (rev (enumerate 0 cs))" for pages
  obtain pages s1 where a: "alloc_leaves ops n s = (Inr pages, s1)" "write_leaves ops (ws pages) s1 = (Inr (), s')" "p = pages ! 0"
    using w d by (auto simp: write_overflow_chain_def sr_bind_ok Let_def cs_def n_def ws_def)
  note al = alloc_leaves_ok [OF inv a(1)]
  define V where "V = (\<lambda>p. (p, Large32k)) ` set pages \<union> U"
  have small: "\<forall>c \<in> set cs. length c \<le> OVERFLOW_PAGE_DATA" using chunks_bound unfolding cs_def by blast
  have fst_ws: "map fst (ws pages) = rev pages"
  proof -
    have "map fst (ws pages) = map (\<lambda>i. pages ! i) (map fst (rev (enumerate 0 cs)))"
      by (simp add: ws_def comp_def case_prod_beta)
    also have "\<dots> = rev (map (\<lambda>i. pages ! i) (map fst (enumerate 0 cs)))" by (simp only: rev_map)
    also have "map fst (enumerate 0 cs) = [0..<length pages]" using al n by (simp add: enumerate_eq_zip)
    finally show ?thesis by (simp add: map_nth)
  qed
  have "\<forall>(q, x) \<in> set (ws pages). (q, Large32k) \<in> V \<and> length x = PAGE_SIZE_LEAF"
    using al n small by (auto simp: ws_def V_def in_set_enumerate_eq intro!: overflow_image(1) [OF _ refl])
  then obtain s2 where s2: "write_leaves ops (ws pages) s1 = (Inr (), s2)" "inv s2 V"
      "\<forall>(q, x) \<in> set (ws pages). leaf_bytes ops s2 q = x" "same_pages ops (V - (\<lambda>p. (p, Large32k)) ` fst ` set (ws pages)) s1 s2"
    using write_leaves_ok [of s1 V "ws pages"] al fst_ws by (auto simp: V_def)
  have s': "s2 = s'" using s2(1) a(2) by simp
  have "\<forall>i < length cs. leaf_bytes ops s' (pages ! i) =
      overflow_page_image crc crc_append (if i + 1 < length cs then pages ! (i + 1) else 0) (cs ! i)"
  proof (intro allI impI)
    fix i assume "i < length cs"
    then have "(i, cs ! i) \<in> set (rev (enumerate 0 cs))" by (simp add: in_set_enumerate_eq)
    from imageI [OF this, of "\<lambda>(i, c). (pages ! i,
        overflow_page_image crc crc_append (if i + 1 < n then pages ! (i + 1) else 0) c)"]
    have "(pages ! i, overflow_page_image crc crc_append (if i + 1 < n then pages ! (i + 1) else 0) (cs ! i)) \<in> set (ws pages)"
      by (simp only: ws_def set_map prod.case)
    then show "leaf_bytes ops s' (pages ! i) =
      overflow_page_image crc crc_append (if i + 1 < length cs then pages ! (i + 1) else 0) (cs ! i)"
      using s2(3) n s' by fastforce
  qed
  then have "ov_chain ops s' (pages ! 0) (zip pages cs)"
    using ov_chain_build [of s' V pages cs crc crc_append 0] s2(2) al n small by (auto simp: s' V_def n_def)
  moreover have "same_pages ops U s s'"
  proof (rule same_pages_trans)
    show "same_pages ops U s s1" using al by blast
    have "fst ` set (ws pages) = set pages" using fst_ws by (metis set_map set_rev)
    then have "U \<subseteq> V - (\<lambda>p. (p, Large32k)) ` fst ` set (ws pages)" using al by (force simp: V_def)
    from same_pages_mono [OF s2(4) this] show "same_pages ops U s1 s'" unfolding s' .
  qed
  moreover have "concat (map snd (zip pages cs)) = d" "map fst (zip pages cs) = pages" "length (zip pages cs) = n"
    using al n chunks_concat [of OVERFLOW_PAGE_DATA d] unfolding cs_def by (simp_all add: overflow_consts)
  moreover have "inv s' V" using s2(2) unfolding s' .
  ultimately show ?thesis using al unfolding a(3) n_def [symmetric] V_def
    by (intro exI [of _ "zip pages cs"]) simp
qed

end

context page_store
begin

lemma header_at_same:
  assumes "inv s U" "inv s' U'" "(p, Large32k) \<in> U" "(p, Large32k) \<in> U'" "leaf_bytes ops s' p = leaf_bytes ops s p"
  shows "overflow_header_at ops s' p = overflow_header_at ops s p"
proof -
  obtain cm cm' where "op_read_leaf ops s p = Inr (leaf_bytes ops s p, cm)" "op_read_leaf ops s' p = Inr (leaf_bytes ops s' p, cm')"
    using read_leaf [OF assms(1,3)] read_leaf [OF assms(2,4)] by blast
  then show ?thesis using assms(5) by (simp add: overflow_header_at_def)
qed

lemma ov_chain_same:
  assumes "inv s U" "inv s' U'" "same_pages ops U' s s'" "U' \<subseteq> U"
  shows "ov_chain ops s cur ps \<Longrightarrow> \<forall>p \<in> fst ` set ps. (p, Large32k) \<in> U' \<Longrightarrow> ov_chain ops s' cur ps"
proof (induction ps arbitrary: cur)
  case (Cons pc ps)
  obtain p c where pc: "pc = (p, c)" by (cases pc)
  have u: "(p, Large32k) \<in> U'" "(p, Large32k) \<in> U" using Cons.prems(2) pc assms(4) by auto
  have "leaf_bytes ops s' p = leaf_bytes ops s p" using assms(3) u(1) by (simp add: same_pages_def)
  then have "overflow_header_at ops s' p = overflow_header_at ops s p"
    by (rule header_at_same [OF assms(1,2) u(2,1)])
  then show ?case using Cons pc by auto
qed simp

lemma free_overflow_loop_ok:
  assumes "inv s V" "ov_chain ops s cur ps" "distinct (map fst ps)" "\<forall>p \<in> fst ` set ps. (p, Large32k) \<in> V"
    and "length ps \<le> budget"
  shows "\<exists>s'. free_overflow_loop ops budget cur s = (Inr (), s') \<and> inv s' (V - (\<lambda>p. (p, Large32k)) ` fst ` set ps) \<and>
     same_pages ops (V - (\<lambda>p. (p, Large32k)) ` fst ` set ps) s s'"
  using assms
proof (induction ps arbitrary: s V cur budget)
  case Nil
  then show ?case by (cases budget) simp_all
next
  case (Cons pc ps)
  obtain p c where pc: "pc = (p, c)" by (cases pc)
  obtain b where b: "budget = Suc b" using Cons.prems(5) by (cases budget) simp_all
  obtain buf hdr where h: "cur = p" "p \<noteq> 0" "overflow_header_at ops s p = Inr (buf, hdr)" "ov_chain ops s (oh_next_overflow_page hdr) ps"
    using Cons.prems(2) pc by auto
  have pV: "(p, Large32k) \<in> V" using Cons.prems(4) pc by simp
  obtain s1 where s1: "op_with_all_chains ops p (\<lambda>_. ([], [])) s = (Inr [], s1)" "inv s1 V"
      "same_pages ops (V - {(p, Large32k)}) s s1"
    using drain_chains [OF Cons.prems(1) pV, of "\<lambda>_. ([], [])"] by auto
  define W where "W = V - {(p, Large32k)}"
  obtain s2 where s2: "op_free_leaf ops p s1 = (Inr (), s2)" "inv s2 W" "same_pages ops W s1 s2"
    using free_leaf [OF s1(2) pV] unfolding W_def by blast
  have "W \<subseteq> V" unfolding W_def by blast
  have s02: "same_pages ops W s s2" using same_pages_trans [OF s1(3)] s2(3) unfolding W_def by blast
  have rest: "\<forall>q \<in> fst ` set ps. (q, Large32k) \<in> W" using Cons.prems(3,4) pc unfolding W_def by auto
  have chain: "ov_chain ops s2 (oh_next_overflow_page hdr) ps"
    by (rule ov_chain_same [OF Cons.prems(1) s2(2) s02 \<open>W \<subseteq> V\<close> h(4) rest])
  obtain s' where s': "free_overflow_loop ops b (oh_next_overflow_page hdr) s2 = (Inr (), s')"
      "inv s' (W - (\<lambda>p. (p, Large32k)) ` fst ` set ps)" "same_pages ops (W - (\<lambda>p. (p, Large32k)) ` fst ` set ps) s2 s'"
    using Cons.IH [OF s2(2) chain _ rest, of b] Cons.prems(3,5) pc b by auto
  have eq: "V - (\<lambda>p. (p, Large32k)) ` fst ` set (pc # ps) = W - (\<lambda>p. (p, Large32k)) ` fst ` set ps"
    unfolding W_def pc by auto
  have "free_overflow_loop ops budget cur s = (Inr (), s')"
    using h(1-3) s1(1) s2(1) s'(1) by (simp add: b sr_bind_def)
  then show ?case unfolding eq
    using s'(2) same_pages_trans [OF same_pages_mono [OF s02, of "W - (\<lambda>p. (p, Large32k)) ` fst ` set ps"] s'(3)] by auto
qed

lemma overflow_roundtrip:
  assumes inv: "inv s U" and w: "write_overflow_chain crc crc_append ops d s = (Inr p, s')" and len: "length d < 2 ^ 32"
  shows "read_overflow_chain ops s' p (of_nat (length d)) = Inr d \<and> same_pages ops U s s' \<and>
    (\<exists>s''. free_overflow_chain ops p s' = (Inr (), s'') \<and> inv s'' U \<and> same_pages ops U s s'')"
proof -
  obtain ps where c: "ov_chain ops s' p ps" "concat (map snd ps) = d" "length ps = (length d - 1) div OVERFLOW_PAGE_DATA + 1"
    "distinct (map fst ps)" "set (map fst ps) \<inter> fst ` U = {}" "inv s' ((\<lambda>p. (p, Large32k)) ` set (map fst ps) \<union> U)" "same_pages ops U s s'"
    using write_overflow_chain_ok [OF inv w] by blast
  have "(length d - 1) div OVERFLOW_PAGE_DATA \<le> (2 ^ 32 - 1) div OVERFLOW_PAGE_DATA" using len by (intro div_le_mono) simp
  then have b: "length ps \<le> MAX_OVERFLOW_CHAIN_PAGES" using c(3) by (simp only: MAX_OVERFLOW_CHAIN_PAGES_def)
  have r: "read_overflow_chain ops s' p (of_nat (length d)) = Inr d"
    using read_overflow_loop_chain [OF c(1) b, of "[]"] c(2) len by (simp add: read_overflow_chain_def unat_of_nat)
  have eq: "((\<lambda>p. (p, Large32k)) ` set (map fst ps) \<union> U) - (\<lambda>p. (p, Large32k)) ` fst ` set ps = U"
    using c(5) by force
  obtain s'' where "free_overflow_chain ops p s' = (Inr (), s'')" "inv s'' U" "same_pages ops U s' s''"
    using free_overflow_loop_ok [OF c(6,1,4) _ b] unfolding eq free_overflow_chain_def by auto
  then show ?thesis using r c(7) same_pages_trans by metis
qed

end

section \<open>Properties\<close>

text \<open>Property C31. On the store over the buffer pool, a value written as an overflow chain is
  read back byte for byte, writing it changes no page that was in use, and freeing the chain
  gives back exactly the pages the write took.\<close>

theorem overflow_chain_roundtrip:
  assumes "pool_inv h s U" "write_overflow_chain crc crc_append pool_ops d s = (Inr p, s')" "length d < 2 ^ 32"
  shows "read_overflow_chain pool_ops s' p (of_nat (length d)) = Inr d \<and> same_pages pool_ops U s s' \<and>
    (\<exists>s''. free_overflow_chain pool_ops p s' = (Inr (), s'') \<and> pool_inv h s'' U \<and> same_pages pool_ops U s s'')"
  by (rule pool.overflow_roundtrip [OF assms])

definition ex_pool :: pool_store where
  "ex_pool = \<lparr>ps_slots = (\<lambda>_. replicate PAGE_SIZE_LEAF 0), ps_chains = (\<lambda>_. []),
     ps_alloc = allocator_new (header_new 0 0 0), is_history = False\<rparr>"

lemma ex_pool_inv: "pool_inv False ex_pool {}"
  using ledger_ok_fresh [of "\<lambda>_. replicate PAGE_SIZE_LEAF 0" 0 0 0]
  by (auto simp: pool_inv_def ex_pool_def allocator_new_def slots_ok_def)

lemma ex_pool_write: "\<exists>s'. write_overflow_chain crc crc_append pool_ops [7, 8, 9] ex_pool = (Inr 1, s')"
  by (simp add: write_overflow_chain_def OVERFLOW_PAGE_DATA_def PAGE_SIZE_LEAF_def OVERFLOW_HEADER_SIZE_def chunks_step
      sr_bind_def sr_return_def pool_ops_def pool_alloc_def al_alloc_def page_allocate_def ex_pool_def allocator_new_def
      free_list_head_def header_new_def checked_add_one Let_def pool_write_def numeral_2_eq_2)

theorem overflow_chain_roundtrip_witness:
  "\<exists>s' s''. write_overflow_chain (\<lambda>_. 0) (\<lambda>_ _. 0) pool_ops [7, 8, 9] ex_pool = (Inr 1, s') \<and>
     read_overflow_chain pool_ops s' 1 3 = Inr [7, 8, 9] \<and> free_overflow_chain pool_ops 1 s' = (Inr (), s'') \<and> pool_inv False s'' {}"
proof -
  obtain s' where s': "write_overflow_chain (\<lambda>_. 0) (\<lambda>_ _. 0) pool_ops [7, 8, 9] ex_pool = (Inr 1, s')"
    using ex_pool_write by blast
  show ?thesis using s' overflow_chain_roundtrip [OF ex_pool_inv s'] by auto
qed

end
