(* ===== verification/Tree_Read.thy ===== *)
theory Tree_Read
  imports Tree_Shape Overflow_Chain
begin

text \<open>
  Reading a B+ tree (\<open>storage/btree/scan.rs\<close>): the descent to a leaf, point lookups with and
  without a snapshot, and the range scans that walk the leaf list. The history store is the
  argument \<open>history\<close>, the probe of the trait \<open>HistoryProbe\<close>. Latches and the observation hooks
  of the tests are not part of the model; a walk of the leaf list that never ends is the value
  \<open>None\<close>.
\<close>

section \<open>Definitions\<close>

definition empty_leaf_node :: leaf_node where
  "empty_leaf_node = \<lparr>ln_flags = 0, ln_next_leaf_page = 0, ln_prev_leaf_page = 0, ln_cells = []\<rparr>"

definition empty_leaf_page_bytes :: "(bytes \<Rightarrow> u32) \<Rightarrow> (u32 \<Rightarrow> bytes \<Rightarrow> u32) \<Rightarrow> bytes result" where
  "empty_leaf_page_bytes crc crc_append = encode crc crc_append empty_leaf_node"

definition empty_internal_page_bytes :: "(bytes \<Rightarrow> u32) \<Rightarrow> (u32 \<Rightarrow> bytes \<Rightarrow> u32) \<Rightarrow> bytes result" where
  "empty_internal_page_bytes crc crc_append =
    internal_encode crc crc_append \<lparr>in_level = 0, in_entries = [], in_rightmost_child = 0\<rparr>"

definition create_at :: "(bytes \<Rightarrow> u32) \<Rightarrow> (u32 \<Rightarrow> bytes \<Rightarrow> u32) \<Rightarrow> 's page_ops \<Rightarrow> u32 \<Rightarrow> ('s, btree) sr" where
  "create_at crc crc_append ops page =
    sr_bind (sr_lift (empty_leaf_page_bytes crc crc_append)) (\<lambda>buf.
    sr_bind (op_write_leaf ops page buf) (\<lambda>_.
    sr_return \<lparr>root_page = page, root_level = 0\<rparr>))"

definition tree_create :: "(bytes \<Rightarrow> u32) \<Rightarrow> (u32 \<Rightarrow> bytes \<Rightarrow> u32) \<Rightarrow> 's page_ops \<Rightarrow> ('s, btree) sr" where
  "tree_create crc crc_append ops =
    sr_bind (op_alloc_leaf ops) (\<lambda>page.
    sr_bind (sr_lift (empty_leaf_page_bytes crc crc_append)) (\<lambda>buf.
    sr_bind (op_write_leaf ops page buf) (\<lambda>_.
    sr_return \<lparr>root_page = page, root_level = 0\<rparr>)))"

definition tree_open :: "u32 \<Rightarrow> u8 \<Rightarrow> btree" where
  "tree_open page level = \<lparr>root_page = page, root_level = level\<rparr>"

type_synonym probe = "bytes \<Rightarrow> ts \<Rightarrow> version_entry option result"

fun descend :: "'s page_ops \<Rightarrow> 's \<Rightarrow> (internal_node \<Rightarrow> u32) \<Rightarrow> nat \<Rightarrow> u32 \<Rightarrow> u32 result" where
  "descend ops s pick 0 page = Inr page"
| "descend ops s pick (Suc level) page =
    rbind (op_read_internal ops s page) (\<lambda>buf.
    rbind (internal_parse buf) (\<lambda>node. descend ops s pick level (pick node)))"

definition leftmost_child :: "internal_node \<Rightarrow> u32" where
  "leftmost_child n = (case in_entries n of [] \<Rightarrow> in_rightmost_child n | (_, c) # _ \<Rightarrow> c)"

definition find_leaf :: "'s page_ops \<Rightarrow> 's \<Rightarrow> btree \<Rightarrow> bytes \<Rightarrow> u32 result" where
  "find_leaf ops s bt key = descend ops s (\<lambda>n. find_child n key) (unat (root_level bt)) (root_page bt)"

definition leftmost_leaf :: "'s page_ops \<Rightarrow> 's \<Rightarrow> btree \<Rightarrow> u32 result" where
  "leftmost_leaf ops s bt = descend ops s leftmost_child (unat (root_level bt)) (root_page bt)"

definition read_leaf_for_key :: "'s page_ops \<Rightarrow> 's \<Rightarrow> btree \<Rightarrow> bytes \<Rightarrow> (u32 \<times> bytes \<times> chain_map option) result" where
  "read_leaf_for_key ops s bt key =
    rbind (descend ops s (\<lambda>n. find_child n key) (unat (root_level bt)) (root_page bt)) (\<lambda>page.
    rbind (op_read_leaf ops s page) (\<lambda>leaf. Inr (page, leaf)))"

definition read_leaf_for_point_key :: "'s page_ops \<Rightarrow> 's \<Rightarrow> btree \<Rightarrow> bytes \<Rightarrow> (u32 \<times> bytes \<times> chain_map option) result" where
  "read_leaf_for_point_key ops s bt key =
    rbind (descend ops s (\<lambda>n. find_child n key) (unat (root_level bt)) (root_page bt)) (\<lambda>page.
    rbind (op_read_leaf_for_key ops s page key) (\<lambda>leaf. Inr (page, leaf)))"

definition read_leftmost_leaf :: "'s page_ops \<Rightarrow> 's \<Rightarrow> btree \<Rightarrow> (u32 \<times> bytes \<times> chain_map option) result" where
  "read_leftmost_leaf ops s bt =
    rbind (descend ops s leftmost_child (unat (root_level bt)) (root_page bt)) (\<lambda>page.
    rbind (op_read_leaf ops s page) (\<lambda>leaf. Inr (page, leaf)))"

record btree_path_step =
  page_id :: u32
  parent_page :: "u32 option"
  child_slot :: "nat option"
  step_level :: nat

fun path_loop :: "'s page_ops \<Rightarrow> 's \<Rightarrow> bytes \<Rightarrow> nat \<Rightarrow> u32 \<Rightarrow> u32 option \<Rightarrow> nat option \<Rightarrow> btree_path_step list result" where
  "path_loop ops s key 0 page parent slot =
    Inr [\<lparr>page_id = page, parent_page = parent, child_slot = slot, step_level = 0\<rparr>]"
| "path_loop ops s key (Suc level) page parent slot =
    rbind (op_read_internal ops s page) (\<lambda>buf.
    rbind (internal_parse buf) (\<lambda>node.
      let idx = find_child_idx node key in
    rbind (path_loop ops s key level (child_at node idx) (Some page) (Some idx)) (\<lambda>path.
      Inr (\<lparr>page_id = page, parent_page = parent, child_slot = slot, step_level = Suc level\<rparr> # path))))"

definition path_to_leaf :: "'s page_ops \<Rightarrow> 's \<Rightarrow> btree \<Rightarrow> bytes \<Rightarrow> btree_path_step list result" where
  "path_to_leaf ops s bt key = path_loop ops s key (unat (root_level bt)) (root_page bt) None None"

definition revalidate_path :: "'s page_ops \<Rightarrow> 's \<Rightarrow> btree \<Rightarrow> bytes \<Rightarrow> btree_path_step list \<Rightarrow> bool result" where
  "revalidate_path ops s bt key expected = rbind (path_to_leaf ops s bt key) (\<lambda>path. Inr (path = expected))"

definition search :: "'s page_ops \<Rightarrow> 's \<Rightarrow> btree \<Rightarrow> bytes \<Rightarrow> cell_value option result" where
  "search ops s bt key = rbind (read_leaf_for_point_key ops s bt key) (\<lambda>(_, buf, _). lookup_cell_value buf key)"

definition tree_get :: "'s page_ops \<Rightarrow> 's \<Rightarrow> btree \<Rightarrow> bytes \<Rightarrow> bytes option result" where
  "tree_get ops s bt key = rbind (search ops s bt key) (\<lambda>v. case v of
     None \<Rightarrow> Inr None
   | Some value \<Rightarrow> rbind (resolve_cell_value ops s value) (\<lambda>b. Inr (Some b)))"

text \<open>The value of a version that was found: nothing for a tombstone.\<close>

definition entry_value :: "'s page_ops \<Rightarrow> 's \<Rightarrow> version_entry \<Rightarrow> bytes option result" where
  "entry_value ops s e = (if is_tombstone e then Inr None
     else rbind (resolve_version_data ops s (data e)) (\<lambda>b. Inr (Some b)))"

text \<open>\<open>get_mvcc\<close> after it has read the leaf: the chain, then history, then the cell.\<close>

definition read_key :: "'s page_ops \<Rightarrow> 's \<Rightarrow> view \<Rightarrow> probe option \<Rightarrow> bytes \<Rightarrow> chain_map option \<Rightarrow> bytes \<Rightarrow> bytes option result" where
  "read_key ops s v history buf snap key =
    (case (case snap of None \<Rightarrow> None | Some cm \<Rightarrow> visible_at cm key v) of
       Some e \<Rightarrow> entry_value ops s e
     | None \<Rightarrow>
       rbind (if (case snap of None \<Rightarrow> True | Some cm \<Rightarrow> history_is_candidate cm key (read_ts v))
              then (case history of None \<Rightarrow> Inr None | Some pr \<Rightarrow> pr key (read_ts v)) else Inr None) (\<lambda>found.
       case found of
         Some e \<Rightarrow> entry_value ops s e
       | None \<Rightarrow> rbind (lookup_cell_value buf key) (\<lambda>c. case c of
           Some value \<Rightarrow> rbind (resolve_cell_value ops s value) (\<lambda>b. Inr (Some b))
         | None \<Rightarrow> Inr None)))"

definition get_mvcc :: "'s page_ops \<Rightarrow> 's \<Rightarrow> btree \<Rightarrow> bytes \<Rightarrow> view \<Rightarrow> probe option \<Rightarrow> bytes option result" where
  "get_mvcc ops s bt key v history =
    rbind (read_leaf_for_point_key ops s bt key) (\<lambda>(_, buf, snap). read_key ops s v history buf snap key)"

text \<open>\<open>binary_search_by\<close> of the standard library on the cells of a leaf, which are sorted by
  distinct keys: the index of the key, or the one it would be inserted at.\<close>

definition binary_search :: "leaf_cell list \<Rightarrow> bytes \<Rightarrow> nat + nat" where
  "binary_search cs key = (let i = length (takeWhile (\<lambda>c. cell_key c < key) cs) in
     if i < length cs \<and> cell_key (cs ! i) = key then Inr i else Inl i)"

definition base_start_index :: "leaf_cell list \<Rightarrow> bound \<Rightarrow> nat" where
  "base_start_index cs start = (case start of
     Unbounded \<Rightarrow> 0
   | Included key \<Rightarrow> (case binary_search cs key of Inr i \<Rightarrow> i | Inl i \<Rightarrow> i)
   | Excluded key \<Rightarrow> (case binary_search cs key of Inr i \<Rightarrow> i + 1 | Inl i \<Rightarrow> i))"

definition end_excludes_key :: "bound \<Rightarrow> bytes \<Rightarrow> bool" where
  "end_excludes_key hi key = (case hi of
     Unbounded \<Rightarrow> False | Included e \<Rightarrow> key > e | Excluded e \<Rightarrow> key \<ge> e)"

datatype merge_kind = From_Base | From_Chain | From_Both | From_History

definition merge_source :: "bytes option \<Rightarrow> bytes option \<Rightarrow> bytes option \<Rightarrow> (merge_kind \<times> bytes) option" where
  "merge_source base chain history =
    (let base_chain = (case (base, chain) of
         (None, None) \<Rightarrow> None
       | (Some b, None) \<Rightarrow> Some (From_Base, b)
       | (None, Some c) \<Rightarrow> Some (From_Chain, c)
       | (Some b, Some c) \<Rightarrow> if b < c then Some (From_Base, b) else if b = c then Some (From_Both, b) else Some (From_Chain, c))
     in case (base_chain, history) of
         (other, None) \<Rightarrow> other
       | (None, Some h) \<Rightarrow> Some (From_History, h)
       | (Some (src, k), Some h) \<Rightarrow> if h < k then Some (From_History, h) else Some (src, k))"

text \<open>One step of the merge: the source, the key, and what is left of the three iterators. A
  history candidate that ties with the base cell is dropped.\<close>

definition merge_step :: "leaf_cell list \<Rightarrow> (bytes \<times> version_entry) list \<Rightarrow> bytes list \<Rightarrow>
    (merge_kind \<times> bytes \<times> leaf_cell list \<times> (bytes \<times> version_entry) list \<times> bytes list) option" where
  "merge_step base chain hist =
    (let (hist, history_key) = (case (base, hist) of
           (_, []) \<Rightarrow> ([], None)
         | ([], h # hs) \<Rightarrow> (h # hs, Some h)
         | (b # _, h # hs) \<Rightarrow> if cell_key b = h then (hs, None) else (h # hs, Some h))
     in case merge_source (case base of [] \<Rightarrow> None | b # _ \<Rightarrow> Some (cell_key b))
               (case chain of [] \<Rightarrow> None | (k, _) # _ \<Rightarrow> Some k) history_key of
          None \<Rightarrow> None
        | Some (src, key) \<Rightarrow> Some (src, key,
            if src = From_Base \<or> src = From_Both then tl base else base,
            if src = From_Chain \<or> src = From_Both then tl chain else chain,
            if src = From_History then tl hist else hist))"

lemma merge_source_Some:
  assumes "merge_source b c h = Some (src, k)"
  shows "src = From_Base \<Longrightarrow> b = Some k \<and> (\<forall>k'. c = Some k' \<longrightarrow> k < k') \<and> (\<forall>k'. h = Some k' \<longrightarrow> k \<le> k')"
    and "src = From_Chain \<Longrightarrow> c = Some k \<and> (\<forall>k'. b = Some k' \<longrightarrow> k < k') \<and> (\<forall>k'. h = Some k' \<longrightarrow> k \<le> k')"
    and "src = From_Both \<Longrightarrow> b = Some k \<and> c = Some k \<and> (\<forall>k'. h = Some k' \<longrightarrow> k \<le> k')"
    and "src = From_History \<Longrightarrow> h = Some k \<and> (\<forall>k'. b = Some k' \<longrightarrow> k < k') \<and> (\<forall>k'. c = Some k' \<longrightarrow> k < k')"
  using assms by (auto simp: merge_source_def Let_def split: option.splits if_splits prod.splits)

lemma merge_step_smaller:
  assumes "merge_step base chain hist = Some (src, key, base', chain', hist')"
  shows "length base' + length chain' + length hist' < length base + length chain + length hist"
proof -
  define hk where "hk = (case (base, hist) of
           (_, []) \<Rightarrow> ([], None)
         | ([], h # hs) \<Rightarrow> (h # hs, Some h)
         | (b # _, h # hs) \<Rightarrow> if cell_key b = h then (hs, None) else (h # hs, Some h))"
  have len: "length (fst hk) \<le> length hist" "snd hk \<noteq> None \<Longrightarrow> fst hk \<noteq> []"
    by (auto simp: hk_def split: list.split)
  obtain m where m: "merge_source (case base of [] \<Rightarrow> None | b # _ \<Rightarrow> Some (cell_key b))
      (case chain of [] \<Rightarrow> None | (k, _) # _ \<Rightarrow> Some k) (snd hk) = Some (src, key)"
    and r: "base' = (if src = From_Base \<or> src = From_Both then tl base else base)"
      "chain' = (if src = From_Chain \<or> src = From_Both then tl chain else chain)"
      "hist' = (if src = From_History then tl (fst hk) else fst hk)"
    using assms unfolding merge_step_def hk_def [symmetric] by (auto simp: Let_def split: prod.splits option.splits)
  show ?thesis
    using merge_source_Some [OF m] len by (cases src; cases base; cases chain; cases "fst hk") (auto simp: r)
qed

text \<open>What one step of the merge hands to the visitor, if anything.\<close>

definition probe_value :: "'s page_ops \<Rightarrow> 's \<Rightarrow> view \<Rightarrow> probe option \<Rightarrow> bytes \<Rightarrow> bytes option option result" where
  "probe_value ops s v history key = (case history of
     None \<Rightarrow> Inr None
   | Some pr \<Rightarrow> rbind (pr key (read_ts v)) (\<lambda>found. case found of
       None \<Rightarrow> Inr None | Some e \<Rightarrow> rbind (entry_value ops s e) (\<lambda>x. Inr (Some x))))"

definition base_value :: "'s page_ops \<Rightarrow> 's \<Rightarrow> view \<Rightarrow> probe option \<Rightarrow> chain_map option \<Rightarrow> leaf_cell \<Rightarrow> bytes option result" where
  "base_value ops s v history snap cell =
    rbind (if (case snap of Some cm \<Rightarrow> history_is_candidate cm (cell_key cell) (read_ts v) | None \<Rightarrow> True)
           then probe_value ops s v history (cell_key cell) else Inr None) (\<lambda>found. case found of
      Some x \<Rightarrow> Inr x
    | None \<Rightarrow> rbind (resolve_cell_value ops s (cell_val cell)) (\<lambda>b. Inr (Some b)))"

definition history_value :: "'s page_ops \<Rightarrow> 's \<Rightarrow> view \<Rightarrow> probe option \<Rightarrow> bytes \<Rightarrow> bytes option result" where
  "history_value ops s v history key = rbind (probe_value ops s v history key) (\<lambda>found. Inr (case found of Some x \<Rightarrow> x | None \<Rightarrow> None))"

type_synonym 'c visitor = "bytes \<Rightarrow> bytes \<Rightarrow> ('c, bool) sr"

text \<open>The merge of one leaf: \<open>Inr False\<close> ends the scan, \<open>Inr True\<close> goes on to the next leaf.\<close>

function leaf_merge :: "'s page_ops \<Rightarrow> 's \<Rightarrow> bound \<Rightarrow> view \<Rightarrow> probe option \<Rightarrow> chain_map option \<Rightarrow> 'c visitor \<Rightarrow>
    leaf_cell list \<Rightarrow> (bytes \<times> version_entry) list \<Rightarrow> bytes list \<Rightarrow> 'c \<Rightarrow> bool result \<times> 'c" where
  "leaf_merge ops s hi v history snap visit base chain hist c =
    (case merge_step base chain hist of
       None \<Rightarrow> (Inr True, c)
     | Some (src, key, base', chain', hist') \<Rightarrow>
         if end_excludes_key hi key then (Inr False, c)
         else case (case src of
                      From_Base \<Rightarrow> base_value ops s v history snap (hd base)
                    | From_Chain \<Rightarrow> entry_value ops s (snd (hd chain))
                    | From_Both \<Rightarrow> entry_value ops s (snd (hd chain))
                    | From_History \<Rightarrow> history_value ops s v history key) of
             Inl e \<Rightarrow> (Inl e, c)
           | Inr None \<Rightarrow> leaf_merge ops s hi v history snap visit base' chain' hist' c
           | Inr (Some x) \<Rightarrow> (case visit key x c of
               (Inl e, c') \<Rightarrow> (Inl e, c')
             | (Inr False, c') \<Rightarrow> (Inr False, c')
             | (Inr True, c') \<Rightarrow> leaf_merge ops s hi v history snap visit base' chain' hist' c'))"
  by pat_completeness auto
termination
  by (relation "measure (\<lambda>(ops, s, hi, v, history, snap, visit, base, chain, hist, c). length base + length chain + length hist)")
    (auto dest!: merge_step_smaller)

declare leaf_merge.simps [simp del]

text \<open>The leaves one after the other.\<close>

definition scan_leaf :: "'s page_ops \<Rightarrow> 's \<Rightarrow> bound \<Rightarrow> bound \<Rightarrow> view \<Rightarrow> probe option \<Rightarrow> 'c visitor \<Rightarrow> leaf_node \<Rightarrow> chain_map option \<Rightarrow>
    'c \<Rightarrow> bool result \<times> 'c" where
  "scan_leaf ops s lo hi v history visit node snap =
    leaf_merge ops s hi v history snap visit (drop (base_start_index (ln_cells node) lo) (ln_cells node))
      (case snap of None \<Rightarrow> [] | Some cm \<Rightarrow> visible_range cm lo hi v)
      (case snap of None \<Rightarrow> [] | Some cm \<Rightarrow> history_candidate_keys_without_visible_entry cm lo hi v (read_ts v))"

partial_function (option) scan_loop :: "'s page_ops \<Rightarrow> 's \<Rightarrow> bound \<Rightarrow> bound \<Rightarrow> view \<Rightarrow> probe option \<Rightarrow> 'c visitor \<Rightarrow>
    (bytes \<times> chain_map option) result \<Rightarrow> 'c \<Rightarrow> (unit result \<times> 'c) option" where
  "scan_loop ops s lo hi v history visit leaf_read c =
    (case leaf_read of Inl e \<Rightarrow> Some (Inl e, c)
     | Inr (buf, snap) \<Rightarrow> (case parse buf of Inl e \<Rightarrow> Some (Inl e, c)
        | Inr node \<Rightarrow> (case scan_leaf ops s lo hi v history visit node snap c of
            (Inl e, c') \<Rightarrow> Some (Inl e, c')
          | (Inr go_on, c') \<Rightarrow>
              if \<not> go_on \<or> ln_next_leaf_page node = 0 then Some (Inr (), c')
              else scan_loop ops s lo hi v history visit (op_read_leaf ops s (ln_next_leaf_page node)) c')))"

definition start_leaf :: "'s page_ops \<Rightarrow> 's \<Rightarrow> btree \<Rightarrow> bound \<Rightarrow> (u32 \<times> bytes \<times> chain_map option) result" where
  "start_leaf ops s bt lo = (case lo of
     Included k \<Rightarrow> read_leaf_for_key ops s bt k
   | Excluded k \<Rightarrow> read_leaf_for_key ops s bt k
   | Unbounded \<Rightarrow> read_leftmost_leaf ops s bt)"

definition try_for_each_range_scan_mvcc_bounded :: "'s page_ops \<Rightarrow> 's \<Rightarrow> btree \<Rightarrow> bound \<Rightarrow> bound \<Rightarrow> view \<Rightarrow> probe option \<Rightarrow>
    'c visitor \<Rightarrow> 'c \<Rightarrow> (unit result \<times> 'c) option" where
  "try_for_each_range_scan_mvcc_bounded ops s bt lo hi v history visit c =
    scan_loop ops s lo hi v history visit (rbind (start_leaf ops s bt lo) (\<lambda>(_, leaf). Inr leaf)) c"

definition range_scan_mvcc_bounded :: "'s page_ops \<Rightarrow> 's \<Rightarrow> btree \<Rightarrow> bound \<Rightarrow> bound \<Rightarrow> view \<Rightarrow> probe option \<Rightarrow>
    (bytes \<times> bytes) list result option" where
  "range_scan_mvcc_bounded ops s bt lo hi v history =
    map_option (\<lambda>(r, results). rbind r (\<lambda>_. Inr results))
      (try_for_each_range_scan_mvcc_bounded ops s bt lo hi v history (\<lambda>k x results. (Inr True, results @ [(k, x)])) [])"

definition range_scan_mvcc :: "'s page_ops \<Rightarrow> 's \<Rightarrow> btree \<Rightarrow> bytes option \<Rightarrow> bytes option \<Rightarrow> view \<Rightarrow> probe option \<Rightarrow>
    (bytes \<times> bytes) list result option" where
  "range_scan_mvcc ops s bt start_key end_key v history =
    range_scan_mvcc_bounded ops s bt (case start_key of None \<Rightarrow> Unbounded | Some k \<Rightarrow> Included k)
      (case end_key of None \<Rightarrow> Unbounded | Some k \<Rightarrow> Included k) v history"

text \<open>The scan without a snapshot, which gives back the cells themselves.\<close>

partial_function (option) range_loop :: "'s page_ops \<Rightarrow> 's \<Rightarrow> bytes option \<Rightarrow> bytes option \<Rightarrow>
    (bytes \<times> chain_map option) result \<Rightarrow> (bytes \<times> cell_value) list \<Rightarrow> (bytes \<times> cell_value) list result option" where
  "range_loop ops s start_key end_key leaf_read results =
    (case leaf_read of Inl e \<Rightarrow> Some (Inl e)
     | Inr (buf, _) \<Rightarrow> (case parse buf of Inl e \<Rightarrow> Some (Inl e)
        | Inr node \<Rightarrow>
            (let cells = drop (case start_key of None \<Rightarrow> 0 | Some k \<Rightarrow> (case binary_search (ln_cells node) k of Inr i \<Rightarrow> i | Inl i \<Rightarrow> i))
                   (ln_cells node);
                 within = takeWhile (\<lambda>c. case end_key of None \<Rightarrow> True | Some ek \<Rightarrow> \<not> cell_key c > ek) cells;
                 results = results @ map (\<lambda>c. (cell_key c, cell_val c)) within
             in if length within < length cells \<or> ln_next_leaf_page node = 0 then Some (Inr results)
                else range_loop ops s start_key end_key (op_read_leaf ops s (ln_next_leaf_page node)) results)))"

definition range_scan :: "'s page_ops \<Rightarrow> 's \<Rightarrow> btree \<Rightarrow> bytes option \<Rightarrow> bytes option \<Rightarrow> (bytes \<times> cell_value) list result option" where
  "range_scan ops s bt start_key end_key =
    range_loop ops s start_key end_key (rbind (case start_key of
        Some k \<Rightarrow> read_leaf_for_key ops s bt k | None \<Rightarrow> read_leftmost_leaf ops s bt) (\<lambda>(_, leaf). Inr leaf)) []"

text \<open>The visible versions of the chains, tombstones included.\<close>

fun delta_entries :: "'s page_ops \<Rightarrow> 's \<Rightarrow> (bytes \<times> version_entry) list \<Rightarrow> (bytes \<times> bytes option) list result" where
  "delta_entries ops s [] = Inr []"
| "delta_entries ops s ((key, e) # es) =
    rbind (entry_value ops s e) (\<lambda>value. rbind (delta_entries ops s es) (\<lambda>r. Inr ((key, value) # r)))"

partial_function (option) delta_loop :: "'s page_ops \<Rightarrow> 's \<Rightarrow> view \<Rightarrow>
    (bytes \<times> chain_map option) result \<Rightarrow> (bytes \<times> bytes option) list \<Rightarrow> (bytes \<times> bytes option) list result option" where
  "delta_loop ops s v leaf_read results =
    (case leaf_read of Inl e \<Rightarrow> Some (Inl e)
     | Inr (buf, snap) \<Rightarrow> (case parse buf of Inl e \<Rightarrow> Some (Inl e)
        | Inr node \<Rightarrow> (case (case snap of None \<Rightarrow> Inr [] | Some cm \<Rightarrow> delta_entries ops s (visible_range cm Unbounded Unbounded v)) of
            Inl e \<Rightarrow> Some (Inl e)
          | Inr r \<Rightarrow>
              if ln_next_leaf_page node = 0 then Some (Inr (results @ r))
              else delta_loop ops s v (op_read_leaf ops s (ln_next_leaf_page node)) (results @ r))))"

definition visible_delta_entries :: "'s page_ops \<Rightarrow> 's \<Rightarrow> btree \<Rightarrow> view \<Rightarrow> (bytes \<times> bytes option) list result option" where
  "visible_delta_entries ops s bt v = delta_loop ops s v (rbind (read_leftmost_leaf ops s bt) (\<lambda>(_, leaf). Inr leaf)) []"

section \<open>Descents reach the leaf of the key\<close>

lemma leftmost_child_kids: "leftmost_child n = fst (kids n)"
  by (auto simp: leftmost_child_def kids_def split: list.split prod.split)

context page_store
begin

lemma descend_ok:
  assumes "inv s U" "holds ops s l t" "set (pages_of t) \<subseteq> U"
  shows "descend ops s (\<lambda>n. find_child n key) l (root_of t) = Inr (fst (leaf_for t key))"
    and "descend ops s leftmost_child l (root_of t) = Inr (fst (hd (leaves_of t)))"
proof -
  have node: "\<exists>l' n. l = Suc l' \<and> op_read_internal ops s p = Inr (internal_bytes ops s p) \<and>
      internal_parse (internal_bytes ops s p) = Inr n \<and> kids n = (root_of t, map (\<lambda>(k, u). (k, root_of u)) xs)"
    if "holds ops s l (Nd p t xs)" "set (pages_of (Nd p t xs)) \<subseteq> U" for l p t xs
  proof -
    have "op_read_internal ops s p = Inr (internal_bytes ops s p)"
      using read_internal [OF assms(1), of p] that(2) by simp
    then show ?thesis using that(1) by (auto split: nat.splits)
  qed
  show "descend ops s (\<lambda>n. find_child n key) l (root_of t) = Inr (fst (leaf_for t key))"
    using assms(2,3)
  proof (induction t key arbitrary: l rule: leaf_for.induct)
    case (2 p t xs key)
    obtain l' n where n: "l = Suc l'" "op_read_internal ops s p = Inr (internal_bytes ops s p)"
        "internal_parse (internal_bytes ops s p) = Inr n" "kids n = (root_of t, map (\<lambda>(k, u). (k, root_of u)) xs)"
      using node [OF 2(2,3)] by blast
    have "find_child n key = root_of (route t xs key)"
      unfolding find_child_route n(4) using route_map [of root_of t xs key] by (simp add: map_prod_def split_def)
    moreover have "holds ops s l' (route t xs key)" using 2(2) n(1) route_in [of t xs key] by auto
    moreover have "set (pages_of (route t xs key)) \<subseteq> U" using 2(3) route_pages [of t xs key p] by (rule subset_trans [rotated])
    ultimately show ?case using 2(1) n by simp
  qed simp
  show "descend ops s leftmost_child l (root_of t) = Inr (fst (hd (leaves_of t)))"
    using assms(2,3)
  proof (induction t arbitrary: l)
    case (Nd p t xs)
    obtain l' n where n: "l = Suc l'" "op_read_internal ops s p = Inr (internal_bytes ops s p)"
        "internal_parse (internal_bytes ops s p) = Inr n" "kids n = (root_of t, map (\<lambda>(k, u). (k, root_of u)) xs)"
      using node [OF Nd(3,4)] by blast
    have "leftmost_child n = root_of t" by (simp add: leftmost_child_kids n(4))
    moreover have "holds ops s l' t" "set (pages_of t) \<subseteq> U" using Nd(3,4) n(1) by auto
    ultimately show ?case using Nd(1) n by simp
  qed simp
qed

lemma tree_leaf:
  assumes "inv s U" "tree_in ops s U bt t" "(p, cs, nx, ch) \<in> set (leaves_of t)"
  obtains n snap where "op_read_leaf ops s p = Inr (leaf_bytes ops s p, snap)" "parse (leaf_bytes ops s p) = Inr n"
    "ln_cells n = cs" "ln_next_leaf_page n = nx" "(case snap of None \<Rightarrow> [] | Some m \<Rightarrow> m) = ch"
    "(p, Large32k) \<in> U" "p \<noteq> 0"
proof -
  have pU: "(p, Large32k) \<in> U" using assms(2) leaves_pages [OF assms(3)] by (auto simp: tree_in_def)
  have "holds ops s (unat (root_level bt)) t" using assms(2) by (simp add: tree_in_def)
  from leaves_hold [OF this assms(3)]
  have h: "p \<noteq> 0" "leaf_view ops s p = Inl (cs, nx)" "leaf_chains ops s p = ch" by simp_all
  obtain snap where r: "op_read_leaf ops s p = Inr (leaf_bytes ops s p, snap)" using read_leaf [OF assms(1) pU] by blast
  obtain n where "parse (leaf_bytes ops s p) = Inr n" "ln_cells n = cs" "ln_next_leaf_page n = nx"
    using h(2) by (auto simp: leaf_view_def split: sum.splits)
  moreover have "(case snap of None \<Rightarrow> [] | Some m \<Rightarrow> m) = ch"
    using h(3) r by (auto simp: leaf_chains_def split: option.splits)
  ultimately show ?thesis using that r pU h(1) by blast
qed

lemma read_point_leaf:
  assumes "inv s U" "tree_in ops s U bt t" "leaf_for t key = (p, cs, nx, ch)"
  obtains n snap where "read_leaf_for_point_key ops s bt key = Inr (p, leaf_bytes ops s p, snap)"
    "parse (leaf_bytes ops s p) = Inr n" "ln_cells n = cs" "sm_get (case snap of None \<Rightarrow> [] | Some m \<Rightarrow> m) key = sm_get ch key"
proof -
  have in_t: "(p, cs, nx, ch) \<in> set (leaves_of t)" using leaf_for_in [of t key] assms(3) by simp
  obtain n where n: "parse (leaf_bytes ops s p) = Inr n" "ln_cells n = cs" "(p, Large32k) \<in> U"
    using tree_leaf [OF assms(1,2) in_t] by metis
  have "holds ops s (unat (root_level bt)) t" using assms(2) by (simp add: tree_in_def)
  from leaves_hold [OF this in_t] have "leaf_chains ops s p = ch" by simp
  then obtain snap where "op_read_leaf_for_key ops s p key = Inr (leaf_bytes ops s p, snap)"
      "sm_get (case snap of None \<Rightarrow> [] | Some m \<Rightarrow> m) key = sm_get ch key"
    using read_leaf_for_key [OF assms(1) n(3), of key] by blast
  moreover have "descend ops s (\<lambda>n. find_child n key) (unat (root_level bt)) (root_page bt) = Inr p"
    using descend_ok(1) [OF assms(1), of _ t key] assms(2,3) by (auto simp: tree_in_def)
  ultimately show ?thesis using that n by (simp add: read_leaf_for_point_key_def)
qed

text \<open>A new tree is one empty leaf.\<close>

lemma tree_create_ok:
  assumes "inv s U" "tree_create crc crc_append ops s = (Inr bt, s')"
  shows "tree_in ops s' (insert (root_page bt, Large32k) U) bt (Lf (root_page bt) [] 0 [])"
    "inv s' (insert (root_page bt, Large32k) U)" "root_page bt \<notin> fst ` U" "same_pages ops U s s'"
proof -
  obtain page s1 buf where a: "op_alloc_leaf ops s = (Inr page, s1)" "encode crc crc_append empty_leaf_node = Inr buf"
      "op_write_leaf ops page buf s1 = (Inr (), s')" and bt: "bt = \<lparr>root_page = page, root_level = 0\<rparr>"
    using assms(2) by (cases "encode crc crc_append empty_leaf_node")
      (auto simp: tree_create_def empty_leaf_page_bytes_def sr_bind_ok)
  let ?U = "insert (page, Large32k) U"
  note al = alloc_leaf [OF assms(1) a(1)]
  have w: "inv s' ?U" "leaf_bytes ops s' page = buf" "leaf_chains ops s' page = leaf_chains ops s1 page"
      "same_pages ops (?U - {(page, Large32k)}) s1 s'"
    using write_leaf [of s1 ?U page buf] al a(3) encode_layout(1) [OF a(2)] by auto
  have "leaf_view ops s' page = Inl ([], 0)"
    using parse_encode [OF a(2)] by (simp add: leaf_view_def w(2) empty_leaf_node_def)
  then show "tree_in ops s' (insert (root_page bt, Large32k) U) bt (Lf (root_page bt) [] 0 [])"
    using al w(3) by (simp add: tree_in_def bt sorted_cells_def)
  show "inv s' (insert (root_page bt, Large32k) U)" "root_page bt \<notin> fst ` U" using w(1) al by (simp_all add: bt)
  have "(page, Large32k) \<notin> U" using al by (metis fst_conv image_eqI)
  then have "?U - {(page, Large32k)} = U" by blast
  then show "same_pages ops U s s'" using same_pages_trans [of ops U s s1 s'] al w(4) by simp
qed

text \<open>A lookup finds what the cells of the tree hold for the key.\<close>

lemma search_exact:
  assumes "inv s U" "tree_in ops s U bt t"
  shows "search ops s bt key = Inr (cell_map (tree_cells t) key)"
proof -
  obtain p cs nx ch where l: "leaf_for t key = (p, cs, nx, ch)" by (metis prod_cases4)
  have o: "ordered None None t" using assms(2) by (simp add: tree_in_def)
  have sorted: "sorted_cells cs" using leaf_for_ordered [OF o, of key] l by (simp add: lo_ok_def hi_ok_def)
  obtain n snap where "read_leaf_for_point_key ops s bt key = Inr (p, leaf_bytes ops s p, snap)"
      "parse (leaf_bytes ops s p) = Inr n" "ln_cells n = cs"
    by (rule read_point_leaf [OF assms l])
  then show ?thesis using lookup_parsed [of _ n key] sorted tree_maps(1) [OF o l] by (simp add: search_def)
qed

end

text \<open>A point read depends on the chains only through the chain of its key.\<close>

lemma read_key_snap:
  assumes "sm_get (case snap of None \<Rightarrow> [] | Some m \<Rightarrow> m) key = sm_get (case snap' of None \<Rightarrow> [] | Some m \<Rightarrow> m) key"
  shows "read_key ops s v history buf snap key = read_key ops s v history buf snap' key"
proof -
  have e: "(case x of None \<Rightarrow> None | Some cm \<Rightarrow> visible_at cm key v) =
      (case sm_get (case x of None \<Rightarrow> [] | Some m \<Rightarrow> m) key of None \<Rightarrow> None | Some c \<Rightarrow> visible_in c v)"
    "(case x of None \<Rightarrow> True | Some cm \<Rightarrow> history_is_candidate cm key r) =
      (case sm_get (case x of None \<Rightarrow> [] | Some m \<Rightarrow> m) key of None \<Rightarrow> True | Some c \<Rightarrow> chain_is_history_candidate c r)" for x r
    by (auto simp: visible_at_def history_is_candidate_def sm_get_def split: option.split)
  show ?thesis unfolding read_key_def e assms ..
qed

end
