(* ===== verification/Tree_Scan.thy ===== *)
theory Tree_Scan
  imports Tree_Read
begin

text \<open>
  What a snapshot range scan (\<open>storage/btree/scan.rs\<close>) gives back: the merge of a leaf's cells,
  visible chain versions and history candidates visits exactly the keys the point reads find,
  in key order, and the walk of the leaf list does so for the whole tree.
\<close>

section \<open>The reference: point reads in key order\<close>

fun visit_keys :: "(bytes \<Rightarrow> bytes option result) \<Rightarrow> 'c visitor \<Rightarrow> bytes list \<Rightarrow> 'c \<Rightarrow> bool result \<times> 'c" where
  "visit_keys rd visit [] c = (Inr True, c)"
| "visit_keys rd visit (k # ks) c = (case rd k of
     Inl e \<Rightarrow> (Inl e, c)
   | Inr None \<Rightarrow> visit_keys rd visit ks c
   | Inr (Some x) \<Rightarrow> (case visit k x c of
       (Inl e, c') \<Rightarrow> (Inl e, c')
     | (Inr False, c') \<Rightarrow> (Inr False, c')
     | (Inr True, c') \<Rightarrow> visit_keys rd visit ks c'))"

lemma visit_keys_skip: "visit_keys rd visit ks c = visit_keys rd visit (filter (\<lambda>k. rd k \<noteq> Inr None) ks) c"
  by (induction ks arbitrary: c) (auto split: sum.split option.split prod.split bool.split)

lemma visit_keys_cong: "(\<And>k. k \<in> set ks \<Longrightarrow> rd k = rd' k) \<Longrightarrow> visit_keys rd visit ks c = visit_keys rd' visit ks c"
  by (induction ks arbitrary: c) (auto split: sum.split option.split prod.split bool.split)

lemma visit_keys_append:
  "visit_keys rd visit (ks @ ks') c = (case visit_keys rd visit ks c of
     (Inr True, c') \<Rightarrow> visit_keys rd visit ks' c' | r \<Rightarrow> r)"
  by (induction ks arbitrary: c) (auto split: sum.split option.split prod.split bool.split)

lemma visit_sets:
  assumes "finite A" "finite B" "\<And>k. k \<in> A \<Longrightarrow> k \<notin> B \<Longrightarrow> rd k = Inr None" "\<And>k. k \<in> B \<Longrightarrow> k \<notin> A \<Longrightarrow> rd k = Inr None"
  shows "visit_keys rd visit (sorted_list_of_set A) c = visit_keys rd visit (sorted_list_of_set B) c"
proof -
  have f: "filter P (sorted_list_of_set S) = sorted_list_of_set {k \<in> S. P k}" if "finite S" for P and S :: "bytes set"
    using that by (intro sorted_distinct_set_unique) (auto simp: sorted_wrt_filter)
  have "{k \<in> A. rd k \<noteq> Inr None} = {k \<in> B. rd k \<noteq> Inr None}" using assms(3,4) by blast
  then show ?thesis by (subst (1 2) visit_keys_skip) (simp add: f assms(1,2))
qed

section \<open>One leaf\<close>

definition strict_keys :: "bytes list \<Rightarrow> bool" where
  "strict_keys ks \<longleftrightarrow> sorted_wrt (<) ks"

lemma strict_keys_Cons [simp]: "strict_keys (k # ks) \<longleftrightarrow> (\<forall>k' \<in> set ks. k < k') \<and> strict_keys ks"
  by (auto simp: strict_keys_def)

lemma strict_keys_Nil [simp]: "strict_keys []"
  by (simp add: strict_keys_def)

text \<open>The three iterators of a leaf, all ascending; a history candidate has no visible version.\<close>

definition sources :: "leaf_cell list \<Rightarrow> (bytes \<times> version_entry) list \<Rightarrow> bytes list \<Rightarrow> bool" where
  "sources base chain hist \<longleftrightarrow> strict_keys (map cell_key base) \<and> strict_keys (map fst chain) \<and> strict_keys hist \<and>
     fst ` set chain \<inter> set hist = {}"

definition source_keys :: "leaf_cell list \<Rightarrow> (bytes \<times> version_entry) list \<Rightarrow> bytes list \<Rightarrow> bytes set" where
  "source_keys base chain hist = cell_key ` set base \<union> fst ` set chain \<union> set hist"

lemma merge_step_None: "merge_step base chain hist = None \<Longrightarrow> source_keys base chain hist = {}"
  by (auto simp: merge_step_def merge_source_def source_keys_def Let_def split: list.splits prod.splits option.splits if_splits)

text \<open>The history iterator after a tie with the base cell was dropped.\<close>

definition untied :: "leaf_cell list \<Rightarrow> bytes list \<Rightarrow> bytes list" where
  "untied base hist = (case (base, hist) of (b # _, h # hs) \<Rightarrow> if cell_key b = h then hs else hist | _ \<Rightarrow> hist)"

lemma merge_step_cases:
  assumes "merge_step base chain hist = Some (src, key, base', chain', hist')" "sources base chain hist"
  obtains (Base) bs b where "src = From_Base" "base = b # bs" "cell_key b = key" "base' = bs" "chain' = chain" "hist' = untied base hist"
      "\<forall>k \<in> fst ` set chain. key < k" "\<forall>k \<in> set hist. key \<le> k"
  | (Chain) cs e where "src = From_Chain" "chain = (key, e) # cs" "base' = base" "chain' = cs" "hist' = untied base hist"
      "\<forall>k \<in> cell_key ` set base. key < k" "\<forall>k \<in> set hist. key \<le> k"
  | (Both) bs b cs e where "src = From_Both" "base = b # bs" "cell_key b = key" "chain = (key, e) # cs" "base' = bs" "chain' = cs"
      "hist' = untied base hist" "\<forall>k \<in> set hist. key \<le> k"
  | (History) hs where "src = From_History" "hist = key # hs" "base' = base" "chain' = chain" "hist' = hs"
      "\<forall>k \<in> cell_key ` set base. key < k" "\<forall>k \<in> fst ` set chain. key < k"
proof -
  define hk where "hk = (case (base, hist) of (_, []) \<Rightarrow> None | ([], h # hs) \<Rightarrow> Some h
      | (b # _, h # hs) \<Rightarrow> if cell_key b = h then None else Some h)"
  define bk where "bk = (case base of [] \<Rightarrow> None | b # _ \<Rightarrow> Some (cell_key b))"
  define ck where "ck = (case chain of [] \<Rightarrow> None | (k, _) # _ \<Rightarrow> Some k)"
  have m: "merge_source bk ck hk = Some (src, key)"
    and r: "base' = (if src = From_Base \<or> src = From_Both then tl base else base)"
      "chain' = (if src = From_Chain \<or> src = From_Both then tl chain else chain)"
      "hist' = (if src = From_History then tl (untied base hist) else untied base hist)"
    using assms(1) unfolding merge_step_def hk_def bk_def ck_def untied_def
    by (auto simp: Let_def split: prod.splits option.splits list.splits if_splits)
  have b: "\<exists>b bs. base = b # bs \<and> cell_key b = x \<and> (\<forall>k \<in> cell_key ` set bs. x < k)" if "bk = Some x" for x
    using that assms(2) by (auto simp: bk_def sources_def split: list.splits)
  have b0: "base = []" if "bk = None" using that by (simp add: bk_def split: list.splits)
  have c: "\<exists>e cs. chain = (x, e) # cs \<and> (\<forall>k \<in> fst ` set cs. x < k)" if "ck = Some x" for x
    using that assms(2) by (auto simp: ck_def sources_def split: list.splits prod.splits)
  have c0: "chain = []" if "ck = None" using that by (simp add: ck_def split: list.splits prod.splits)
  have h: "\<exists>hs. hist = x # hs \<and> untied base hist = hist \<and> (\<forall>k \<in> set hs. x < k)" if "hk = Some x" for x
    using that assms(2) by (auto simp: hk_def sources_def untied_def split: list.splits if_splits)
  have h0: "hist = [] \<or> (\<exists>x hs. bk = Some x \<and> hist = x # hs \<and> (\<forall>k \<in> set hs. x < k))" if "hk = None"
    using that assms(2) by (auto simp: hk_def bk_def sources_def split: list.splits if_splits)
  have hist_le: "\<forall>k \<in> set hist. key \<le> k" if "\<And>x. hk = Some x \<Longrightarrow> key \<le> x" "\<And>x. bk = Some x \<Longrightarrow> key \<le> x"
  proof (cases hk)
    case None
    then show ?thesis using h0 that(2) by (auto, metis less_imp_le order_trans)
  next
    case (Some x)
    then show ?thesis using h [OF Some] that(1) [OF Some] by (auto, metis less_imp_le order_trans)
  qed
  have chain_gt: "\<forall>k \<in> fst ` set chain. key < k" if "\<forall>x. ck = Some x \<longrightarrow> key < x"
  proof (cases ck)
    case (Some x)
    then obtain e cs where "chain = (x, e) # cs" "\<forall>k \<in> fst ` set cs. x < k" using c by blast
    then show ?thesis using that Some less_trans by auto
  qed (use c0 in simp)
  have base_gt: "\<forall>k \<in> cell_key ` set base. key < k" if "\<forall>x. bk = Some x \<longrightarrow> key < x"
  proof (cases bk)
    case (Some x)
    then obtain b' bs where "base = b' # bs" "cell_key b' = x" "\<forall>k \<in> cell_key ` set bs. x < k" using b by blast
    then show ?thesis using that Some less_trans by auto
  qed (use b0 in simp)
  show thesis
  proof (cases src)
    case From_Base
    note f = merge_source_Some(1) [OF m From_Base]
    obtain b bs where b: "base = b # bs" "cell_key b = key" using b f by blast
    have "\<forall>k \<in> fst ` set chain. key < k" by (rule chain_gt) (use f in blast)
    moreover have "\<forall>k \<in> set hist. key \<le> k" by (rule hist_le) (use f in auto)
    ultimately show ?thesis by (rule Base [OF From_Base b, rotated 3]) (simp_all add: r From_Base b(1))
  next
    case From_Chain
    note f = merge_source_Some(2) [OF m From_Chain]
    obtain e cs where c: "chain = (key, e) # cs" using c f by blast
    have "\<forall>k \<in> cell_key ` set base. key < k" by (rule base_gt) (use f in blast)
    moreover have "\<forall>k \<in> set hist. key \<le> k" by (rule hist_le) (use f less_imp_le in blast)+
    ultimately show ?thesis by (rule Chain [OF From_Chain c, rotated 3]) (simp_all add: r From_Chain c)
  next
    case From_Both
    note f = merge_source_Some(3) [OF m From_Both]
    obtain b bs where b: "base = b # bs" "cell_key b = key" using b f by blast
    obtain e cs where c: "chain = (key, e) # cs" using c f by blast
    have "\<forall>k \<in> set hist. key \<le> k" by (rule hist_le) (use f in auto)
    then show ?thesis by (rule Both [OF From_Both b c, rotated 3]) (simp_all add: r From_Both b(1) c)
  next
    case From_History
    note f = merge_source_Some(4) [OF m From_History]
    obtain hs where h: "hist = key # hs" "untied base hist = hist" using h f by blast
    have "\<forall>k \<in> cell_key ` set base. key < k" by (rule base_gt) (use f in blast)
    moreover have "\<forall>k \<in> fst ` set chain. key < k" by (rule chain_gt) (use f in blast)
    ultimately show ?thesis by (rule History [OF From_History h(1), rotated 3]) (simp_all add: r From_History h(2), simp add: h(1))
  qed
qed

lemma untied_set: "set (untied base hist) \<subseteq> set hist" "set hist - set (untied base hist) \<subseteq> cell_key ` set base"
  "strict_keys hist \<Longrightarrow> strict_keys (untied base hist)"
  by (auto simp: untied_def split: list.splits if_splits)

lemma merge_step_min:
  assumes "merge_step base chain hist = Some (src, key, base', chain', hist')" "sources base chain hist"
  shows "key \<in> source_keys base chain hist" "\<forall>k \<in> source_keys base chain hist. key \<le> k"
    "source_keys base' chain' hist' = source_keys base chain hist - {key}" "sources base' chain' hist'"
    "set base' \<subseteq> set base" "set base - set base' \<subseteq> {c. cell_key c = key}" "set chain' \<subseteq> set chain" "set hist' \<subseteq> set hist"
proof -
  have s: "strict_keys (map cell_key base)" "strict_keys (map fst chain)" "strict_keys hist" "fst ` set chain \<inter> set hist = {}"
    using assms(2) by (auto simp: sources_def)
  note u = untied_set(1) [of base hist] untied_set(2,3) [of hist base]
  from assms have "key \<in> source_keys base chain hist \<and> (\<forall>k \<in> source_keys base chain hist. key \<le> k) \<and>
    source_keys base' chain' hist' = source_keys base chain hist - {key} \<and> sources base' chain' hist' \<and>
    set base' \<subseteq> set base \<and> set base - set base' \<subseteq> {c. cell_key c = key} \<and> set chain' \<subseteq> set chain \<and> set hist' \<subseteq> set hist"
  proof (cases rule: merge_step_cases)
    case (Base bs b)
    have "untied base hist = (case hist of h # hs \<Rightarrow> if key = h then hs else hist | [] \<Rightarrow> [])"
      using Base by (simp add: untied_def split: list.split)
    then have "set hist - {key} = set (untied base hist)" using s(3) Base(8) by (auto split: list.splits if_splits)
    then show ?thesis using Base s u by (auto simp: source_keys_def sources_def intro: less_imp_le)
  next
    case (Chain cs e)
    then show ?thesis using s u by (auto simp: source_keys_def sources_def intro: less_imp_le)
  next
    case (Both bs b cs e)
    have "untied base hist = (case hist of h # hs \<Rightarrow> if key = h then hs else hist | [] \<Rightarrow> [])"
      using Both by (simp add: untied_def split: list.split)
    then have "set hist - {key} = set (untied base hist)" using s(3) Both(8) by (auto split: list.splits if_splits)
    then show ?thesis using Both s u by (auto simp: source_keys_def sources_def intro: less_imp_le)
  next
    case (History hs)
    then show ?thesis using s by (auto simp: source_keys_def sources_def intro: less_imp_le)
  qed
  then show "key \<in> source_keys base chain hist" "\<forall>k \<in> source_keys base chain hist. key \<le> k"
    "source_keys base' chain' hist' = source_keys base chain hist - {key}" "sources base' chain' hist'"
    "set base' \<subseteq> set base" "set base - set base' \<subseteq> {c. cell_key c = key}" "set chain' \<subseteq> set chain" "set hist' \<subseteq> set hist"
    by blast+
qed

lemma end_excludes_mono: "end_excludes_key hi k \<Longrightarrow> k \<le> k' \<Longrightarrow> end_excludes_key hi k'"
  by (auto simp: end_excludes_key_def split: bound.splits)

definition reads_sources :: "'s page_ops \<Rightarrow> 's \<Rightarrow> bound \<Rightarrow> view \<Rightarrow> probe option \<Rightarrow> chain_map option \<Rightarrow> (bytes \<Rightarrow> bytes option result) \<Rightarrow>
    leaf_cell list \<Rightarrow> (bytes \<times> version_entry) list \<Rightarrow> bytes list \<Rightarrow> bool" where
  "reads_sources ops s hi v history snap rd base chain hist \<longleftrightarrow>
     (\<forall>b \<in> set base. \<not> end_excludes_key hi (cell_key b) \<longrightarrow> cell_key b \<notin> fst ` set chain \<longrightarrow> rd (cell_key b) = base_value ops s v history snap b) \<and>
     (\<forall>(k, e) \<in> set chain. rd k = entry_value ops s e) \<and>
     (\<forall>k \<in> set hist. k \<notin> cell_key ` set base \<longrightarrow> rd k = history_value ops s v history k)"

lemma merge_step_value:
  assumes "merge_step base chain hist = Some (src, key, base', chain', hist')" "sources base chain hist"
    and "reads_sources ops s hi v history snap rd base chain hist"
  shows "\<not> end_excludes_key hi key \<Longrightarrow> (case src of
            From_Base \<Rightarrow> base_value ops s v history snap (hd base)
          | From_Chain \<Rightarrow> entry_value ops s (snd (hd chain))
          | From_Both \<Rightarrow> entry_value ops s (snd (hd chain))
          | From_History \<Rightarrow> history_value ops s v history key) = rd key"
    and "reads_sources ops s hi v history snap rd base' chain' hist'"
proof -
  have b: "rd (cell_key x) = base_value ops s v history snap x" if "x \<in> set base" "\<not> end_excludes_key hi (cell_key x)" "cell_key x \<notin> fst ` set chain" for x
    using assms(3) that by (simp add: reads_sources_def)
  have c: "rd k = entry_value ops s e" if "(k, e) \<in> set chain" for k e
    using assms(3) that by (auto simp: reads_sources_def)
  have h: "rd k = history_value ops s v history k" if "k \<in> set hist" "k \<notin> cell_key ` set base" for k
    using assms(3) that by (simp add: reads_sources_def)
  from assms(1,2) show "(case src of
            From_Base \<Rightarrow> base_value ops s v history snap (hd base)
          | From_Chain \<Rightarrow> entry_value ops s (snd (hd chain))
          | From_Both \<Rightarrow> entry_value ops s (snd (hd chain))
          | From_History \<Rightarrow> history_value ops s v history key) = rd key" if "\<not> end_excludes_key hi key"
  proof (cases rule: merge_step_cases)
    case (Base bs x)
    have "cell_key x \<notin> fst ` set chain" using Base(3,7) by auto
    then show ?thesis using b [of x] Base that by simp
  next
    case (Chain cs e)
    then show ?thesis using c [of key e] by simp
  next
    case (Both bs x cs e)
    then show ?thesis using c [of key e] by simp
  next
    case (History hs)
    have "key \<notin> cell_key ` set base" using History(6) by auto
    then show ?thesis using h [of key] History by simp
  qed
  note m = merge_step_min [OF assms(1,2)]
  have gone: "key \<notin> source_keys base' chain' hist'" using m(3) by simp
  show "reads_sources ops s hi v history snap rd base' chain' hist'"
    unfolding reads_sources_def
  proof (intro conjI ballI impI; (elim conjE)?)
    fix x assume x: "x \<in> set base'" "\<not> end_excludes_key hi (cell_key x)" "cell_key x \<notin> fst ` set chain'"
    have "cell_key x \<noteq> key" using gone x(1) by (auto simp: source_keys_def)
    moreover from assms(1,2) have "fst ` set chain \<subseteq> insert key (fst ` set chain')" by (cases rule: merge_step_cases) auto
    ultimately have "cell_key x \<notin> fst ` set chain" using x(3) by blast
    then show "rd (cell_key x) = base_value ops s v history snap x" using b x(1,2) m(5) by blast
  next
    fix y assume "y \<in> set chain'"
    then show "case y of (k, e) \<Rightarrow> rd k = entry_value ops s e" using c m(7) by (cases y) auto
  next
    fix k assume k: "k \<in> set hist'" "k \<notin> cell_key ` set base'"
    have "k \<noteq> key" using gone k(1) by (auto simp: source_keys_def)
    then have "k \<notin> cell_key ` set base" using k(2) m(6) by auto
    then show "rd k = history_value ops s v history k" using h k(1) m(8) by blast
  qed
qed

lemma leaf_merge_reads:
  assumes "sources base chain hist" "reads_sources ops s hi v history snap rd base chain hist"
  shows "leaf_merge ops s hi v history snap visit base chain hist c =
    (case visit_keys rd visit (filter (\<lambda>k. \<not> end_excludes_key hi k) (sorted_list_of_set (source_keys base chain hist))) c of
       (Inr True, c') \<Rightarrow> (Inr (\<forall>k \<in> source_keys base chain hist. \<not> end_excludes_key hi k), c') | r \<Rightarrow> r)"
  using assms
proof (induction "length base + length chain + length hist" arbitrary: base chain hist c rule: less_induct)
  case less
  show ?case
  proof (cases "merge_step base chain hist")
    case None
    then have "source_keys base chain hist = {}" by (rule merge_step_None)
    then show ?thesis using None by (simp add: leaf_merge.simps)
  next
    case (Some st)
    then obtain src key base' chain' hist' where st: "merge_step base chain hist = Some (src, key, base', chain', hist')"
      by (cases st) auto
    let ?K = "source_keys base chain hist"
    note m = merge_step_min [OF st less.prems(1)]
    note val = merge_step_value [OF st less.prems]
    have fin: "finite ?K" by (simp add: source_keys_def)
    have "Min ?K = key" by (rule Min_eqI [OF fin]) (use m in auto)
    then have K: "sorted_list_of_set ?K = key # sorted_list_of_set (source_keys base' chain' hist')"
      using sorted_list_of_set_nonempty [OF fin] m(1,3) by auto
    show ?thesis
    proof (cases "end_excludes_key hi key")
      case True
      then have "\<forall>k \<in> ?K. end_excludes_key hi k" using m(2) end_excludes_mono by blast
      then have "filter (\<lambda>k. \<not> end_excludes_key hi k) (sorted_list_of_set ?K) = []" using fin by (simp add: filter_empty_conv)
      then show ?thesis using True m(1) by (subst leaf_merge.simps) (auto simp: st)
    next
      case False
      have all: "(\<forall>k \<in> ?K. \<not> end_excludes_key hi k) = (\<forall>k \<in> source_keys base' chain' hist'. \<not> end_excludes_key hi k)"
        using m(3) False by auto
      note ih = less.hyps [OF merge_step_smaller [OF st] m(4) val(2)]
      show ?thesis
        using False by (subst leaf_merge.simps) (simp add: st K ih val(1) [OF False] all split: sum.split option.split prod.split bool.split)
    qed
  qed
qed

definition chains_in :: "chain_map option \<Rightarrow> chain_map" where
  "chains_in snap = (case snap of None \<Rightarrow> [] | Some m \<Rightarrow> m)"

lemma map_filter_keys:
  assumes "\<And>x y. f x = Some y \<Longrightarrow> g y = fst x" "strict_keys (map fst m)"
  shows "strict_keys (map g (List.map_filter f m))"
  using assms(2)
proof (induction m)
  case (Cons x m)
  have "g y \<in> fst ` set m" if "y \<in> set (List.map_filter f m)" for y
    using that assms(1) by (force simp: List.map_filter_def)
  then have "fst x < g y" if "y \<in> set (List.map_filter f m)" for y using that Cons.prems by fastforce
  then show ?case using Cons assms(1) [of x] by (auto simp: List.map_filter_simps split: option.split)
qed (simp add: List.map_filter_simps)

lemma in_map_filter: "y \<in> set (List.map_filter f m) \<longleftrightarrow> (\<exists>x \<in> set m. f x = Some y)"
  by (force simp: List.map_filter_def)

lemma sm_strict: "sm_inv m = strict_keys (map fst m)"
  by (simp add: sm_inv_def strict_keys_def)

lemma visible_range_keys:
  assumes "sm_inv cm"
  shows "strict_keys (map fst (visible_range cm lo hi v))"
    "(k, e) \<in> set (visible_range cm lo hi v) \<longleftrightarrow> in_bounds lo hi k \<and> visible_at cm k v = Some e"
proof -
  show "strict_keys (map fst (visible_range cm lo hi v))"
    unfolding visible_range_def
    by (rule map_filter_keys) (use sm_range_inv [OF assms] in \<open>auto simp: sm_strict\<close>)
  show "(k, e) \<in> set (visible_range cm lo hi v) \<longleftrightarrow> in_bounds lo hi k \<and> visible_at cm k v = Some e"
    using sm_get_iff [OF assms, of k] by (force simp: visible_range_def in_map_filter sm_range_def visible_at_def split: option.split)
qed

lemma history_candidate_keys:
  assumes "sm_inv cm"
  shows "strict_keys (history_candidate_keys_without_visible_entry cm lo hi v r)"
    "k \<in> set (history_candidate_keys_without_visible_entry cm lo hi v r) \<longleftrightarrow>
       in_bounds lo hi k \<and> k \<in> fst ` set cm \<and> visible_at cm k v = None \<and> history_is_candidate cm k r"
proof -
  show "strict_keys (history_candidate_keys_without_visible_entry cm lo hi v r)"
    unfolding history_candidate_keys_without_visible_entry_def
    by (rule map_filter_keys [where g = id, simplified]) (use sm_range_inv [OF assms] in \<open>auto simp: sm_strict split: if_splits\<close>)
  have vis: "list_ex (\<lambda>e. version_visible_to e v) c \<longleftrightarrow> visible_in c v \<noteq> None" for c
    by (auto simp: visible_in_def list_ex_iff find_None_iff)
  have "k \<in> set (history_candidate_keys_without_visible_entry cm lo hi v r) \<longleftrightarrow>
      (\<exists>c. (k, c) \<in> set cm \<and> in_bounds lo hi k \<and> visible_in c v = None \<and> chain_is_history_candidate c r)"
    by (auto simp: history_candidate_keys_without_visible_entry_def in_map_filter sm_range_def vis split: if_splits)
  moreover have "k \<in> fst ` set cm \<longleftrightarrow> (\<exists>c. sm_get cm k = Some c)" using sm_get_None_iff [of cm k] by (cases "sm_get cm k") auto
  ultimately show "k \<in> set (history_candidate_keys_without_visible_entry cm lo hi v r) \<longleftrightarrow>
       in_bounds lo hi k \<and> k \<in> fst ` set cm \<and> visible_at cm k v = None \<and> history_is_candidate cm k r"
    unfolding sm_get_iff [OF assms] by (auto simp: visible_at_def history_is_candidate_def)
qed

lemma base_start_set:
  assumes "sorted_cells cs"
  shows "set (drop (base_start_index cs lo) cs) = {c \<in> set cs. after_start lo (cell_key c)}"
    "strict_keys (map cell_key (drop i cs))"
proof -
  show st: "strict_keys (map cell_key (drop i cs))" for i
    using assms by (simp add: sorted_cells_def strict_keys_def sorted_wrt_drop flip: drop_map)
  show "set (drop (base_start_index cs lo) cs) = {c \<in> set cs. after_start lo (cell_key c)}"
  proof (cases "lo = Unbounded")
    case False
    then obtain k where k: "lo = Included k \<or> lo = Excluded k" by (cases lo) auto
    let ?i = "length (takeWhile (\<lambda>c. cell_key c < k) cs)"
    define D where "D = drop ?i cs"
    have "set (dropWhile (\<lambda>c. cell_key c < k) cs) = {c \<in> set cs. k \<le> cell_key c}"
      using assms unfolding sorted_cells_def by (induction cs) (auto intro: order.strict_trans2 less_imp_le)
    then have D: "set D = {c \<in> set cs. k \<le> cell_key c}" "strict_keys (map cell_key D)"
      using st by (simp_all add: D_def dropWhile_eq_drop)
    have hit: "?i < length cs \<and> cell_key (cs ! ?i) = k \<longleftrightarrow> D \<noteq> [] \<and> cell_key (hd D) = k"
      by (auto simp: D_def hd_drop_conv_nth)
    have "drop (?i + 1) cs = tl D" by (simp add: D_def drop_Suc tl_drop)
    then have b: "drop (base_start_index cs lo) cs =
        (if lo = Excluded k \<and> D \<noteq> [] \<and> cell_key (hd D) = k then tl D else D)"
      using k hit by (auto simp: base_start_index_def binary_search_def Let_def D_def simp del: drop_eq_Nil)
    show ?thesis
    proof (cases "lo = Excluded k")
      case True
      have gt: "k < cell_key c \<longleftrightarrow> k \<le> cell_key c \<and> cell_key c \<noteq> k" for c by auto
      show ?thesis
      proof (cases D)
        case Nil
        then show ?thesis using b True D(1) by (auto simp: gt)
      next
        case (Cons d ds)
        then have "d \<in> {c \<in> set cs. k \<le> cell_key c}" using D(1) by auto
        then have "set (if cell_key d = k then ds else d # ds) = {c \<in> set (d # ds). cell_key c \<noteq> k}"
          using D(2) Cons by auto
        also have "\<dots> = {c \<in> set cs. k < cell_key c}" using D(1) Cons by (auto simp: gt)
        finally show ?thesis using b True Cons by (cases "cell_key d = k") simp_all
      qed
    qed (use b k D(1) in auto)
  qed (simp add: base_start_index_def)
qed

text \<open>A point read over the chains and the cells of its leaf.\<close>

lemma read_key_eq:
  assumes "parse buf = Inr n" "sorted_cells (ln_cells n)"
  shows "read_key ops s v history buf snap k = (case visible_at (chains_in snap) k v of
      Some e \<Rightarrow> entry_value ops s e
    | None \<Rightarrow> rbind (if history_is_candidate (chains_in snap) k (read_ts v) then probe_value ops s v history k else Inr None)
        (\<lambda>found. case found of Some x \<Rightarrow> Inr x
          | None \<Rightarrow> (case cell_map (ln_cells n) k of Some c \<Rightarrow> rbind (resolve_cell_value ops s c) (\<lambda>b. Inr (Some b)) | None \<Rightarrow> Inr None)))"
proof -
  have v: "(case snap of None \<Rightarrow> None | Some cm \<Rightarrow> visible_at cm k v) = visible_at (chains_in snap) k v"
    and h: "(case snap of None \<Rightarrow> True | Some cm \<Rightarrow> history_is_candidate cm k (read_ts v)) = history_is_candidate (chains_in snap) k (read_ts v)"
    by (simp_all add: chains_in_def visible_at_def history_is_candidate_def sm_get_def split: option.split)
  show ?thesis
    unfolding read_key_def v h lookup_parsed [OF assms]
    by (auto simp: probe_value_def rbind_def split: option.splits sum.splits)
qed

lemma base_value_eq:
  "base_value ops s v history snap b =
    rbind (if history_is_candidate (chains_in snap) (cell_key b) (read_ts v) then probe_value ops s v history (cell_key b) else Inr None)
      (\<lambda>found. case found of Some x \<Rightarrow> Inr x | None \<Rightarrow> rbind (resolve_cell_value ops s (cell_val b)) (\<lambda>b. Inr (Some b)))"
proof -
  have h: "(case snap of Some cm \<Rightarrow> history_is_candidate cm k r | None \<Rightarrow> True) = history_is_candidate (chains_in snap) k r" for k r
    by (simp add: chains_in_def history_is_candidate_def sm_get_def split: option.split)
  show ?thesis unfolding base_value_def h ..
qed

lemma cell_map_mem: "sorted_cells cs \<Longrightarrow> b \<in> set cs \<Longrightarrow> cell_map cs (cell_key b) = Some (cell_val b)"
  using cell_map_Some by (metis in_set_conv_nth)

lemma cell_map_absent: "k \<notin> cell_key ` set cs \<Longrightarrow> cell_map cs k = None"
  by (rule cell_map_None) auto

lemma before_end_excludes: "end_excludes_key hi k \<longleftrightarrow> \<not> before_end hi k"
  by (auto simp: end_excludes_key_def split: bound.split)

lemma scan_leaf_reads:
  assumes p: "parse buf = Inr n" and sorted: "sorted_cells (ln_cells n)" and ch: "sm_inv (chains_in snap)"
    and K: "K = cell_key ` set (ln_cells n) \<union> fst ` set (chains_in snap)"
  shows "\<exists>go. scan_leaf ops s lo hi v history visit n snap c =
      (case visit_keys (read_key ops s v history buf snap) visit (sorted_list_of_set {k \<in> K. in_bounds lo hi k}) c of
         (Inr True, c') \<Rightarrow> (Inr go, c') | r \<Rightarrow> r) \<and> (\<not> go \<longrightarrow> (\<exists>k \<in> K. \<not> before_end hi k))"
proof -
  let ?rd = "read_key ops s v history buf snap"
  define base where "base = drop (base_start_index (ln_cells n) lo) (ln_cells n)"
  define chain where "chain = visible_range (chains_in snap) lo hi v"
  define hist where "hist = history_candidate_keys_without_visible_entry (chains_in snap) lo hi v (read_ts v)"
  have base: "set base = {c \<in> set (ln_cells n). after_start lo (cell_key c)}" "strict_keys (map cell_key base)"
    using base_start_set [OF sorted] by (simp_all add: base_def)
  note chain = visible_range_keys [OF ch, where lo = lo and hi = hi and v = v, folded chain_def]
  note hist = history_candidate_keys [OF ch, where lo = lo and hi = hi and v = v and r = "read_ts v", folded hist_def]
  have in_chain: "k \<in> fst ` set chain \<longleftrightarrow> in_bounds lo hi k \<and> visible_at (chains_in snap) k v \<noteq> None" for k
    using chain(2) [of k] by force
  have "k \<notin> set hist" if "k \<in> fst ` set chain" for k using that hist(2) [of k] in_chain [of k] by simp
  then have src: "sources base chain hist" using base(2) chain(1) hist(1) by (auto simp: sources_def)
  have rd: "reads_sources ops s hi v history snap ?rd base chain hist"
    unfolding reads_sources_def
  proof (intro conjI ballI impI)
    fix b assume b: "b \<in> set base" "\<not> end_excludes_key hi (cell_key b)" "cell_key b \<notin> fst ` set chain"
    then have "visible_at (chains_in snap) (cell_key b) v = None"
      using in_chain base(1) by (simp add: before_end_excludes in_bounds_def)
    then show "?rd (cell_key b) = base_value ops s v history snap b"
      using cell_map_mem [OF sorted, of b] b(1) base(1) by (simp add: read_key_eq [OF p sorted] base_value_eq)
  next
    fix x assume x: "x \<in> set chain"
    obtain k e where ke: "x = (k, e)" by (cases x)
    have "visible_at (chains_in snap) k v = Some e" using x chain(2) [of k e] by (simp add: ke)
    then show "case x of (k, e) \<Rightarrow> ?rd k = entry_value ops s e" by (simp add: ke read_key_eq [OF p sorted])
  next
    fix k assume k: "k \<in> set hist" "k \<notin> cell_key ` set base"
    then have "cell_map (ln_cells n) k = None"
      using hist(2) base(1) by (intro cell_map_absent) (auto simp: in_bounds_def)
    moreover have "visible_at (chains_in snap) k v = None" "history_is_candidate (chains_in snap) k (read_ts v)"
      using hist(2) [of k] k(1) by simp_all
    ultimately show "?rd k = history_value ops s v history k"
      unfolding read_key_eq [OF p sorted] history_value_def rbind_def by (simp split: sum.split option.split)
  qed
  let ?S = "source_keys base chain hist"
  have fin: "finite ?S" "finite K" by (simp_all add: source_keys_def K)
  have vis: "k \<in> fst ` set (chains_in snap)" if "visible_at (chains_in snap) k v \<noteq> None" for k
    using that sm_get_None_iff [of "chains_in snap" k] by (cases "sm_get (chains_in snap) k") (simp_all add: visible_at_def)
  have "k \<in> K" if "k \<in> ?S" for k
    using that base(1) hist(2) [of k] in_chain [of k] vis [of k] unfolding source_keys_def K by blast
  then have S: "?S \<subseteq> K" by blast
  have f: "filter (\<lambda>k. \<not> end_excludes_key hi k) (sorted_list_of_set ?S) = sorted_list_of_set {k \<in> ?S. before_end hi k}"
    using fin by (intro sorted_distinct_set_unique) (auto simp: sorted_wrt_filter before_end_excludes)
  have "visit_keys ?rd visit (sorted_list_of_set {k \<in> ?S. before_end hi k}) c =
      visit_keys ?rd visit (sorted_list_of_set {k \<in> K. in_bounds lo hi k}) c"
  proof (rule visit_sets)
    fix k assume "k \<in> {k \<in> ?S. before_end hi k}" "k \<notin> {k \<in> K. in_bounds lo hi k}"
    moreover have "k \<in> ?S \<Longrightarrow> after_start lo k"
      using base(1) hist(2) [of k] in_chain [of k] unfolding source_keys_def in_bounds_def by blast
    ultimately show "?rd k = Inr None" using S by (auto simp: in_bounds_def)
  next
    fix k assume k: "k \<in> {k \<in> K. in_bounds lo hi k}" "k \<notin> {k \<in> ?S. before_end hi k}"
    then have "k \<notin> ?S" by (simp add: in_bounds_def)
    then have out: "k \<notin> fst ` set chain" "k \<notin> cell_key ` set base" "k \<notin> set hist" by (simp_all add: source_keys_def)
    have ib: "k \<in> K" "in_bounds lo hi k" using k(1) by simp_all
    have v: "visible_at (chains_in snap) k v = None" using out(1) ib(2) in_chain [of k] by simp
    moreover have nc: "k \<notin> cell_key ` set (ln_cells n)" using out(2) ib(2) base(1) by (auto simp: in_bounds_def)
    moreover have "k \<in> fst ` set (chains_in snap)" using ib(1) nc by (simp add: K)
    then have "\<not> history_is_candidate (chains_in snap) k (read_ts v)" using out(3) hist(2) [of k] ib(2) v by simp
    ultimately show "?rd k = Inr None" using cell_map_absent [of k] by (simp add: read_key_eq [OF p sorted])
  qed (use fin in simp_all)
  moreover have "scan_leaf ops s lo hi v history visit n snap c = leaf_merge ops s hi v history snap visit base chain hist c"
    by (simp add: scan_leaf_def base_def chain_def hist_def chains_in_def visible_range_def sm_range_def List.map_filter_simps
        history_candidate_keys_without_visible_entry_def split: option.split)
  ultimately have "scan_leaf ops s lo hi v history visit n snap c =
      (case visit_keys ?rd visit (sorted_list_of_set {k \<in> K. in_bounds lo hi k}) c of
         (Inr True, c') \<Rightarrow> (Inr (\<forall>k \<in> ?S. \<not> end_excludes_key hi k), c') | r \<Rightarrow> r)"
    using leaf_merge_reads [OF src rd, where visit = visit and c = c] f by simp
  then show ?thesis using S by (intro exI [of _ "\<forall>k \<in> ?S. \<not> end_excludes_key hi k"]) (auto simp: before_end_excludes)
qed

section \<open>The whole tree\<close>

lemma route_split:
  assumes "ordered lo (first_sep xs hi) t" "ordered_kids hi xs" "seps lo hi xs"
  shows "\<exists>P Q. leaves_of (Nd p t xs) = P @ leaves_of (route t xs k) @ Q \<and> (\<forall>l \<in> set P. \<forall>x \<in> keys_of l. x < k)"
  using assms
proof (induction t xs k arbitrary: lo rule: route.induct)
  case (2 t k' u xs k)
  show ?case
  proof (cases "k < k'")
    case True
    then show ?thesis by (intro exI [of _ "[]"] exI [of _ "leaves_of (Nd p u xs)"]) simp
  next
    case False
    have t: "ordered lo (Some k') t" using 2(2) by (simp add: first_sep_def)
    obtain P Q where pq: "leaves_of (Nd p u xs) = P @ leaves_of (route u xs k) @ Q" "\<forall>l \<in> set P. \<forall>x \<in> keys_of l. x < k"
      using 2(1) [OF False, of "Some k'"] 2(3,4) by auto
    have "x < k" if "l \<in> set (leaves_of t)" "x \<in> keys_of l" for l x
      using ordered_keys [OF t that] False by (auto simp: hi_ok_def)
    then show ?thesis using pq False by (intro exI [of _ "leaves_of t @ P"] exI [of _ Q]) auto
  qed
qed (intro exI [of _ "[]"], simp)

lemma leaves_before:
  assumes "ordered lo hi t" "lo_ok lo k" "hi_ok hi k"
  shows "\<exists>A B. leaves_of t = A @ leaf_for t k # B \<and> (\<forall>l \<in> set A. \<forall>x \<in> keys_of l. x < k)"
  using assms
proof (induction t k arbitrary: lo hi rule: leaf_for.induct)
  case (2 p t xs k)
  obtain P Q where pq: "leaves_of (Nd p t xs) = P @ leaves_of (route t xs k) @ Q" "\<forall>l \<in> set P. \<forall>x \<in> keys_of l. x < k"
    using route_split [of lo xs hi t p k] 2(2) by auto
  obtain lo' hi' where "ordered lo' hi' (route t xs k)" "lo_ok lo' k" "hi_ok hi' k"
    using route_ordered [of lo xs hi t k] 2(2-4) by (auto split: prod.splits)
  then obtain A B where ab: "leaves_of (route t xs k) = A @ leaf_for (route t xs k) k # B" "\<forall>l \<in> set A. \<forall>x \<in> keys_of l. x < k"
    using 2(1) by blast
  show ?case using pq ab by (intro exI [of _ "P @ A"] exI [of _ "B @ Q"]) auto
qed (intro exI [of _ "[]"], simp)

definition all_keys :: "leaf_info list \<Rightarrow> bytes set" where
  "all_keys ls = (\<Union>l \<in> set ls. keys_of l)"

lemma all_keys_simps [simp]: "all_keys [] = {}" "all_keys (l # ls) = keys_of l \<union> all_keys ls" "finite (all_keys ls)"
  by (simp_all add: all_keys_def)

fun scan_result :: "bool result \<times> 'c \<Rightarrow> unit result \<times> 'c" where
  "scan_result (Inl e, c) = (Inl e, c)"
| "scan_result (Inr _, c) = (Inr (), c)"

lemma sorted_list_of_set_Un:
  assumes "finite A" "finite B" "\<And>x y. x \<in> A \<Longrightarrow> y \<in> B \<Longrightarrow> x < (y :: bytes)"
  shows "sorted_list_of_set (A \<union> B) = sorted_list_of_set A @ sorted_list_of_set B"
proof (rule sorted_distinct_set_unique)
  show "distinct (sorted_list_of_set A @ sorted_list_of_set B)" using assms by fastforce
  show "sorted (sorted_list_of_set A @ sorted_list_of_set B)" using assms by (auto simp: sorted_append less_imp_le)
qed (use assms in simp_all)

lemma before_end_mono: "\<not> before_end hi k \<Longrightarrow> k \<le> k' \<Longrightarrow> \<not> before_end hi k'"
  by (cases hi) auto

lemma linked_next: "linked z (A @ (p, cs, n, ch) # ls) \<Longrightarrow> n = (case ls of [] \<Rightarrow> z | m # _ \<Rightarrow> fst m)"
proof (induction z A rule: linked.induct)
  case (1 nx)
  then show ?case by (cases ls) auto
next
  case (2 nx q ds n' e)
  then show ?case by (cases ls) auto
next
  case (3 nx q ds n' e r rs)
  then show ?case by (cases rs) auto
qed

context page_store
begin

lemma get_mvcc_leaf:
  assumes "inv s U" "tree_in ops s U bt t" "(p, cs, nx, ch) \<in> set (leaves_of t)" "k \<in> keys_of (p, cs, nx, ch)"
    and "op_read_leaf ops s p = Inr (buf, snap)"
  shows "get_mvcc ops s bt k v history = read_key ops s v history buf snap k"
proof -
  have o: "ordered None None t" using assms(2) by (simp add: tree_in_def)
  have l: "leaf_for t k = (p, cs, nx, ch)" using leaf_for_key [OF o assms(3,4)] by (simp add: lo_ok_def hi_ok_def)
  obtain n snap' where r: "read_leaf_for_point_key ops s bt k = Inr (p, leaf_bytes ops s p, snap')"
      "sm_get (case snap' of None \<Rightarrow> [] | Some m \<Rightarrow> m) k = sm_get ch k"
    using read_point_leaf [OF assms(1,2) l] by metis
  obtain n snap'' where "op_read_leaf ops s p = Inr (leaf_bytes ops s p, snap'')" "(case snap'' of None \<Rightarrow> [] | Some m \<Rightarrow> m) = ch"
    using tree_leaf [OF assms(1-3)] by metis
  then have "buf = leaf_bytes ops s p" "(case snap of None \<Rightarrow> [] | Some m \<Rightarrow> m) = ch" using assms(5) by simp_all
  then show ?thesis using read_key_snap [of snap' k snap] r by (simp add: get_mvcc_def)
qed

lemma scan_tree_leaf:
  assumes inv: "inv s U" and t: "tree_in ops s U bt t" and l: "(p, cs, nx, ch) \<in> set (leaves_of t)"
  shows "\<exists>buf n snap go. op_read_leaf ops s p = Inr (buf, snap) \<and> parse buf = Inr n \<and> p \<noteq> 0 \<and>
      ln_next_leaf_page n = nx \<and> scan_leaf ops s lo hi v history visit n snap c =
      (case visit_keys (\<lambda>k. get_mvcc ops s bt k v history) visit
          (sorted_list_of_set {k \<in> keys_of (p, cs, nx, ch). in_bounds lo hi k}) c of
         (Inr True, c') \<Rightarrow> (Inr go, c') | r \<Rightarrow> r) \<and> (\<not> go \<longrightarrow> (\<exists>k \<in> keys_of (p, cs, nx, ch). \<not> before_end hi k))"
proof -
  let ?l = "(p, cs, nx, ch)" and ?rd = "\<lambda>k. get_mvcc ops s bt k v history"
  obtain n snap where r: "op_read_leaf ops s p = Inr (leaf_bytes ops s p, snap)" "parse (leaf_bytes ops s p) = Inr n"
      "ln_cells n = cs" "ln_next_leaf_page n = nx" "chains_in snap = ch" "p \<noteq> 0"
    using tree_leaf [OF inv t l] unfolding chains_in_def by metis
  have so: "sorted_cells (ln_cells n)" "sm_inv (chains_in snap)" using ordered_leaf l t r(3,5) unfolding tree_in_def by blast+
  have K: "keys_of ?l = cell_key ` set (ln_cells n) \<union> fst ` set (chains_in snap)" by (simp add: keys_of_def r)
  have "visit_keys (read_key ops s v history (leaf_bytes ops s p) snap) visit (sorted_list_of_set {k \<in> keys_of ?l. in_bounds lo hi k}) c =
      visit_keys ?rd visit (sorted_list_of_set {k \<in> keys_of ?l. in_bounds lo hi k}) c"
    by (rule visit_keys_cong) (use get_mvcc_leaf [OF inv t l _ r(1)] in simp)
  then show ?thesis
    using scan_leaf_reads [OF r(2) so K, where ops = ops and s = s and lo = lo and hi = hi and v = v and history = history and
        visit = visit and c = c] r by auto
qed

lemma scan_loop_reads:
  assumes inv: "inv s U" and t: "tree_in ops s U bt t" and "leaves_of t = A @ l # ls"
  shows "scan_loop ops s lo hi v history visit (op_read_leaf ops s (fst l)) c =
    Some (scan_result (visit_keys (\<lambda>k. get_mvcc ops s bt k v history) visit
      (sorted_list_of_set {k \<in> all_keys (l # ls). in_bounds lo hi k}) c))"
  using assms(3)
proof (induction ls arbitrary: A l c)
  let ?rd = "\<lambda>k. get_mvcc ops s bt k v history"
  {
    case Nil
    obtain p cs nx ch where pl: "l = (p, cs, nx, ch)" by (cases l)
    have "nx = 0" using linked_next [of 0 A p cs nx ch "[]"] t Nil by (simp add: tree_in_def pl)
    moreover obtain buf n snap go where l: "op_read_leaf ops s p = Inr (buf, snap)" "parse buf = Inr n" "ln_next_leaf_page n = nx"
        "scan_leaf ops s lo hi v history visit n snap c =
          (case visit_keys ?rd visit (sorted_list_of_set {k \<in> keys_of l. in_bounds lo hi k}) c of (Inr True, c') \<Rightarrow> (Inr go, c') | r \<Rightarrow> r)"
      using scan_tree_leaf [OF inv t, of p cs nx ch] Nil pl by fastforce
    ultimately show ?case by (subst scan_loop.simps) (auto simp: pl split: prod.split sum.split bool.split)
  next
    case (Cons m ls)
    obtain p cs nx ch where pl: "l = (p, cs, nx, ch)" by (cases l)
    have nx: "nx = fst m" using linked_next [of 0 A p cs nx ch "m # ls"] t Cons.prems by (simp add: tree_in_def pl)
    have mnz: "fst m \<noteq> 0" using tree_leaf [OF inv t, of "fst m" "fst (snd m)" "fst (snd (snd m))" "snd (snd (snd m))"] Cons.prems by simp
    obtain buf n snap go where l: "op_read_leaf ops s p = Inr (buf, snap)" "parse buf = Inr n" "ln_next_leaf_page n = nx"
        "scan_leaf ops s lo hi v history visit n snap c =
          (case visit_keys ?rd visit (sorted_list_of_set {k \<in> keys_of l. in_bounds lo hi k}) c of (Inr True, c') \<Rightarrow> (Inr go, c') | r \<Rightarrow> r)"
        "\<not> go \<longrightarrow> (\<exists>k \<in> keys_of l. \<not> before_end hi k)"
      using scan_tree_leaf [OF inv t, of p cs nx ch] Cons.prems pl by fastforce
    have asc: "x < y" if "x \<in> keys_of l" "y \<in> all_keys (m # ls)" for x y
      using ordered_ascending [of None None t] t that Cons.prems
      by (auto simp: tree_in_def ascending_def sorted_wrt_append all_keys_def)
    have "{k \<in> all_keys (l # m # ls). in_bounds lo hi k} = {k \<in> keys_of l. in_bounds lo hi k} \<union> {k \<in> all_keys (m # ls). in_bounds lo hi k}"
      by auto
    then have un: "sorted_list_of_set {k \<in> all_keys (l # m # ls). in_bounds lo hi k} =
        sorted_list_of_set {k \<in> keys_of l. in_bounds lo hi k} @ sorted_list_of_set {k \<in> all_keys (m # ls). in_bounds lo hi k}"
      by (simp only:) (rule sorted_list_of_set_Un, use asc in auto)
    have stop: "sorted_list_of_set {k \<in> all_keys (m # ls). in_bounds lo hi k} = []" if ng: "\<not> go"
    proof -
      obtain x where x: "x \<in> keys_of l" "\<not> before_end hi x" using ng l(5) by blast
      have "\<not> in_bounds lo hi k" if "k \<in> all_keys (m # ls)" for k
        using before_end_mono [OF x(2)] asc [OF x(1) that] by (simp add: in_bounds_def)
      then have "{k \<in> all_keys (m # ls). in_bounds lo hi k} = {}" by blast
      then show ?thesis by (simp only: sorted_list_of_set_empty)
    qed
    define M where "M = sorted_list_of_set {k \<in> all_keys (m # ls). in_bounds lo hi k}"
    note ih = Cons.IH [of "A @ [l]" m, folded M_def]
    show ?case
      unfolding un M_def [symmetric] visit_keys_append
      using l(1-4) nx mnz stop [folded M_def] ih Cons.prems by (subst scan_loop.simps) (auto simp: pl split: prod.split sum.split bool.split)
  }
qed

lemma start_leaf_ok:
  assumes "inv s U" "tree_in ops s U bt t"
  obtains A l ls where "leaves_of t = A @ l # ls" "rbind (start_leaf ops s bt lo) (\<lambda>(_, leaf). Inr leaf) = op_read_leaf ops s (fst l)"
    "\<forall>l \<in> set A. \<forall>x \<in> keys_of l. \<not> after_start lo x"
proof -
  have o: "ordered None None t" and h: "holds ops s (unat (root_level bt)) t" "root_of t = root_page bt" "set (pages_of t) \<subseteq> U"
    using assms(2) by (simp_all add: tree_in_def)
  note d = descend_ok [OF assms(1) h(1,3), unfolded h(2)]
  have rb: "rbind (rbind r (\<lambda>leaf. Inr (page, leaf))) (\<lambda>(_, leaf). Inr leaf) = r" for r :: "(bytes \<times> chain_map option) result" and page :: u32
    by (cases r) auto
  have key: "\<exists>A l ls. leaves_of t = A @ l # ls \<and> rbind (start_leaf ops s bt lo) (\<lambda>(_, leaf). Inr leaf) = op_read_leaf ops s (fst l) \<and>
      (\<forall>l \<in> set A. \<forall>x \<in> keys_of l. \<not> after_start lo x)" if lo: "lo = Included k \<or> lo = Excluded k" for k
  proof -
    obtain A ls where "leaves_of t = A @ leaf_for t k # ls" "\<forall>l \<in> set A. \<forall>x \<in> keys_of l. x < k"
      using leaves_before [OF o, of k] by (simp add: lo_ok_def hi_ok_def) blast
    moreover have "\<not> after_start lo x" if "x < k" for x using lo that by (elim disjE) (simp_all add: not_le)
    moreover have "rbind (start_leaf ops s bt lo) (\<lambda>(_, leaf). Inr leaf) = op_read_leaf ops s (fst (leaf_for t k))"
      using lo d(1) [of k] rb by (elim disjE) (simp_all add: start_leaf_def read_leaf_for_key_def)
    ultimately show ?thesis by blast
  qed
  show thesis
  proof (cases lo)
    case (Included k)
    then show thesis using key [of k] that by blast
  next
    case (Excluded k)
    then show thesis using key [of k] that by blast
  next
    case Unbounded
    obtain l ls where "leaves_of t = l # ls" by (cases "leaves_of t") auto
    then show thesis using that [of "[]" l ls] d(2) rb Unbounded by (simp add: start_leaf_def read_leftmost_leaf_def)
  qed
qed

text \<open>The scan is the point reads of all keys of the tree within the bounds, in key order.\<close>

lemma scan_exact:
  assumes "inv s U" "tree_in ops s U bt t"
  shows "try_for_each_range_scan_mvcc_bounded ops s bt lo hi v history visit c =
    Some (scan_result (visit_keys (\<lambda>k. get_mvcc ops s bt k v history) visit
      (sorted_list_of_set {k \<in> all_keys (leaves_of t). in_bounds lo hi k}) c))"
proof -
  obtain A l ls where l: "leaves_of t = A @ l # ls" "rbind (start_leaf ops s bt lo) (\<lambda>(_, leaf). Inr leaf) = op_read_leaf ops s (fst l)"
      "\<forall>l \<in> set A. \<forall>x \<in> keys_of l. \<not> after_start lo x"
    by (rule start_leaf_ok [OF assms])
  have "{k \<in> all_keys (leaves_of t). in_bounds lo hi k} = {k \<in> all_keys (l # ls). in_bounds lo hi k}"
    using l(1,3) by (auto simp: all_keys_def in_bounds_def)
  then show ?thesis using scan_loop_reads [OF assms l(1)] l(2) by (simp only: try_for_each_range_scan_mvcc_bounded_def)
qed

end

section \<open>Scans and point reads agree\<close>


lemma ex_tree_create: "\<exists>s. tree_create (\<lambda>_. 0) (\<lambda>_ _. 0) pool_ops ex_pool = (Inr (tree_open 1 0), s)"
proof -
  have "\<exists>s. pool_alloc Large32k ex_pool = (Inr 1, s)"
    by (simp add: pool_alloc_def al_alloc_def page_allocate_def ex_pool_def allocator_new_def
        free_list_head_def header_new_def checked_add_one Let_def)
  moreover have "\<exists>buf. encode (\<lambda>_. 0) (\<lambda>_ _. 0) empty_leaf_node = Inr buf"
    by (simp add: encode_def Let_def empty_leaf_node_def used_bytes_def used_bytes_for_cells_def encoded_size_def
        PAGE_SIZE_LEAF_def LEAF_HEADER_SIZE_def)
  ultimately show ?thesis
    by (auto simp: tree_create_def tree_open_def empty_leaf_page_bytes_def sr_bind_def sr_return_def sr_lift_def pool_ops_def pool_write_def)
qed

text \<open>A tree of one leaf without cells, and with one chain.\<close>

lemma ex_tree_chain:
  "\<exists>s. pool_inv False s {(1, Large32k)} \<and> tree_in pool_ops s {(1, Large32k)} (tree_open 1 0) (Lf 1 [] 0 [([1], c)])"
proof -
  obtain s where s: "tree_create (\<lambda>_. 0) (\<lambda>_ _. 0) pool_ops ex_pool = (Inr (tree_open 1 0), s)" using ex_tree_create by blast
  note t = pool.tree_create_ok [OF ex_pool_inv s]
  have inv: "pool_inv False s {(1, Large32k)}" and ch: "leaf_chains pool_ops s 1 = []" and view: "leaf_view pool_ops s 1 = Inl ([], 0)"
    using t(1,2) by (simp_all add: tree_in_def tree_open_def)
  obtain s2 where s2: "pool_with_chain 1 [1] (\<lambda>_. Some c) s = (Inr (), s2)" "pool_inv False s2 {(1, Large32k)}"
      "leaf_bytes pool_ops s2 1 = leaf_bytes pool_ops s 1"
    using pool.with_chain [OF inv, of 1 "[1]" "\<lambda>_. Some c"] by (auto simp: pool_ops_def)
  have "leaf_chains pool_ops s2 1 = [([1], c)]"
    using s2(1) ch inv by (auto simp: pool_bytes pool_with_chain_def pool_inv_def Let_def)
  moreover have "leaf_view pool_ops s2 1 = Inl ([], 0)" using view by (simp only: leaf_view_def s2(3))
  ultimately have "tree_in pool_ops s2 {(1, Large32k)} (tree_open 1 0) (Lf 1 [] 0 [([1], c)])"
    by (simp add: tree_in_def tree_open_def sorted_cells_def sm_inv_def lo_ok_def hi_ok_def)
  then show ?thesis using s2(2) by blast
qed


end
