(* ===== verification/Reconcile.thy ===== *)
theory Reconcile
  imports Leaf_Frame Tree_Scan History_Store
begin

text \<open>
  Folding a leaf at a checkpoint: \<open>src/src/storage/reconcile/synth.rs\<close> and the size
  arithmetic of \<open>src/src/storage/btree/reconcile.rs\<close>.

  \<open>synthesize_page\<close> takes the image of a leaf and its version chains. For each key the newest
  version committed at or before the checkpoint becomes the cell of the new image, the newer
  and the pending ones stay on the chain, and the older ones a reader may still need are given
  to the history store. The lemmas follow one key through this: where each entry of its chain
  goes, and that a reader finds the same version afterwards.
\<close>

section \<open>Sizes\<close>

definition RETAINED_CHAIN_KEY_LEN_BYTES :: nat where "RETAINED_CHAIN_KEY_LEN_BYTES = 2"
definition RETAINED_CHAIN_ENTRY_COUNT_BYTES :: nat where "RETAINED_CHAIN_ENTRY_COUNT_BYTES = 4"
definition TS_BYTES :: nat where "TS_BYTES = 12"
definition TXN_ID_BYTES :: nat where "TXN_ID_BYTES = 8"
definition VERSION_STATE_TAG_BYTES :: nat where "VERSION_STATE_TAG_BYTES = 1"
definition PENDING_STATE_TXN_ID_BYTES :: nat where "PENDING_STATE_TXN_ID_BYTES = 8"
definition TOMBSTONE_FLAG_BYTES :: nat where "TOMBSTONE_FLAG_BYTES = 1"
definition VERSION_DATA_KIND_BYTES :: nat where "VERSION_DATA_KIND_BYTES = 1"
definition RETAINED_INLINE_LEN_BYTES :: nat where "RETAINED_INLINE_LEN_BYTES = 4"
definition RETAINED_OVERFLOW_REF_BYTES :: nat where "RETAINED_OVERFLOW_REF_BYTES = 12"

definition version_data_encoded_size :: "version_data \<Rightarrow> nat" where
  "version_data_encoded_size d = (case d of
     Inline bs \<Rightarrow> RETAINED_INLINE_LEN_BYTES + length bs
   | Overflow _ _ \<Rightarrow> RETAINED_OVERFLOW_REF_BYTES)"

definition version_state_encoded_size :: "version_state \<Rightarrow> nat" where
  "version_state_encoded_size st = VERSION_STATE_TAG_BYTES + (case st of
     Pending _ \<Rightarrow> PENDING_STATE_TXN_ID_BYTES | Committed \<Rightarrow> 0 | Aborted \<Rightarrow> 0)"

definition retained_version_entry_encoded_size :: "version_entry \<Rightarrow> nat" where
  "retained_version_entry_encoded_size e = TS_BYTES + TS_BYTES + TXN_ID_BYTES + version_state_encoded_size (state e) +
     TOMBSTONE_FLAG_BYTES + VERSION_DATA_KIND_BYTES + version_data_encoded_size (data e)"

definition retained_chains_encoded_size :: "chain_map \<Rightarrow> nat" where
  "retained_chains_encoded_size cm = sum_list (map (\<lambda>(k, c). RETAINED_CHAIN_KEY_LEN_BYTES + length k +
     RETAINED_CHAIN_ENTRY_COUNT_BYTES + sum_list (map retained_version_entry_encoded_size c)) cm)"

definition folded_encoded_size :: "leaf_cell \<Rightarrow> nat" where
  "folded_encoded_size c = leaf_cell_encoded_size (length (cell_key c)) (case cell_val c of
     Cell_Inline bs \<Rightarrow> CELL_INLINE_LEN_BYTES + length bs
   | Cell_Overflow _ _ \<Rightarrow> CELL_OVERFLOW_REF_BYTES)"

definition predict_encoded_leaf_size :: "leaf_cell list \<Rightarrow> chain_map \<Rightarrow> nat" where
  "predict_encoded_leaf_size winners retained =
    LEAF_HEADER_SIZE + length winners * SLOT_POINTER_BYTES + sum_list (map folded_encoded_size winners) +
    retained_chains_encoded_size retained"

definition LEAF_PAGE_BUDGET :: nat where "LEAF_PAGE_BUDGET = PAGE_SIZE_LEAF"

section \<open>Synthesis of one page\<close>

datatype not_installable = NI_VisibleWinnerExceedsPageBudget | NI_FoldedLeafExceedsPageByteBudget

record page_synthesis =
  new_base :: bytes
  history_spills :: "history_spill list"
  retained_chains :: chain_map

definition checkpoint_winner_index :: "chain \<Rightarrow> ts \<Rightarrow> nat option" where
  "checkpoint_winner_index c checkpoint_ts =
    (case filter (\<lambda>(_, e). state e = Committed \<and> start_ts e \<le> checkpoint_ts) (enumerate 0 c) of
       [] \<Rightarrow> None
     | x # xs \<Rightarrow> Some (fst (fold (\<lambda>y best. if start_ts (snd best) \<le> start_ts (snd y) then y else best) xs x)))"

definition stable_history_counter :: "chain \<Rightarrow> nat \<Rightarrow> ts \<Rightarrow> not_installable + u32" where
  "stable_history_counter c index st =
    (let prior_same_start = length (filter (\<lambda>e. state e = Committed \<and> start_ts e = st) (take index c)) in
     if prior_same_start < 2 ^ 32 then Inr (of_nat prior_same_start) else Inl NI_FoldedLeafExceedsPageByteBudget)"

definition folded_cell_from_entry :: "bytes \<Rightarrow> version_entry \<Rightarrow> not_installable + leaf_cell" where
  "folded_cell_from_entry key e = (case data e of
     Inline bs \<Rightarrow> Inr \<lparr>cell_key = key, cell_val = Cell_Inline bs\<rparr>
   | Overflow first_page total_length \<Rightarrow>
       if unat total_length < 2 ^ 32 then Inr \<lparr>cell_key = key, cell_val = Cell_Overflow first_page (ucast total_length)\<rparr>
       else Inl NI_FoldedLeafExceedsPageByteBudget)"

text \<open>The inner loop: the entries of a chain that stay, and those that are spilled.\<close>

fun synth_entries :: "tree_ident \<Rightarrow> bytes \<Rightarrow> chain \<Rightarrow> nat option \<Rightarrow> ts \<Rightarrow> ts \<Rightarrow> (nat \<times> version_entry) list \<Rightarrow>
    not_installable + chain \<times> history_spill list" where
  "synth_entries ident key c winner ckpt ort [] = Inr ([], [])"
| "synth_entries ident key c winner ckpt ort ((index, e) # es) =
    (if Some index = winner then synth_entries ident key c winner ckpt ort es
     else case state e of
       Committed \<Rightarrow>
         if start_ts e > ckpt then rbind (synth_entries ident key c winner ckpt ort es) (\<lambda>(r, h). Inr (e # r, h))
         else if stop_ts e \<le> ort then synth_entries ident key c winner ckpt ort es
         else rbind (stable_history_counter c index (start_ts e)) (\<lambda>n.
           rbind (synth_entries ident key c winner ckpt ort es) (\<lambda>(r, h).
             Inr (r, \<lparr>hs_ident = ident, hs_key = key, hs_entry = e, hs_counter = n\<rparr> # h)))
     | Pending _ \<Rightarrow> rbind (synth_entries ident key c winner ckpt ort es) (\<lambda>(r, h). Inr (e # r, h))
     | Aborted \<Rightarrow> synth_entries ident key c winner ckpt ort es)"

text \<open>The outer loop over the chains, with the cells of the base image as a map.\<close>

definition fold_winner :: "bytes \<Rightarrow> chain \<Rightarrow> nat option \<Rightarrow> (bytes, leaf_cell) smap \<Rightarrow> not_installable + (bytes, leaf_cell) smap" where
  "fold_winner key c winner base = (case winner of
     None \<Rightarrow> Inr base
   | Some index \<Rightarrow>
       let base = sm_remove key base in
       if is_tombstone (c ! index) then Inr base
       else rbind (folded_cell_from_entry key (c ! index)) (\<lambda>cell. Inr (sm_insert key cell base)))"

fun synth_chains :: "tree_ident \<Rightarrow> ts \<Rightarrow> ts \<Rightarrow> chain_map \<Rightarrow> (bytes, leaf_cell) smap \<Rightarrow> chain_map \<Rightarrow> history_spill list \<Rightarrow>
    not_installable + (bytes, leaf_cell) smap \<times> chain_map \<times> history_spill list" where
  "synth_chains ident ckpt ort [] base retained spills = Inr (base, retained, spills)"
| "synth_chains ident ckpt ort ((key, c) # cs) base retained spills =
    (let winner = checkpoint_winner_index c ckpt in
     rbind (fold_winner key c winner base) (\<lambda>base.
     rbind (synth_entries ident key c winner ckpt ort (enumerate 0 c)) (\<lambda>(r, h).
       synth_chains ident ckpt ort cs base (if r = [] then retained else sm_insert key r retained) (spills @ h))))"

definition base_map :: "leaf_cell list \<Rightarrow> (bytes, leaf_cell) smap" where
  "base_map cells = fold (\<lambda>c m. sm_insert (cell_key c) c m) cells []"

definition synthesize_page :: "(bytes \<Rightarrow> u32) \<Rightarrow> (u32 \<Rightarrow> bytes \<Rightarrow> u32) \<Rightarrow> bytes \<Rightarrow> chain_map \<Rightarrow> ts \<Rightarrow> ts \<Rightarrow> tree_ident \<Rightarrow>
    not_installable + page_synthesis" where
  "synthesize_page crc crc_append base_image cm checkpoint_ts oldest_required_ts ident =
    (case decode_folded_leaf base_image of
       Inl _ \<Rightarrow> Inl NI_FoldedLeafExceedsPageByteBudget
     | Inr decoded \<Rightarrow>
         rbind (synth_chains ident checkpoint_ts oldest_required_ts cm (base_map (fi_cells decoded)) [] []) (\<lambda>(base, retained, spills).
         let folded_cells = map snd base in
         rbind (rguard (predict_encoded_leaf_size folded_cells [] \<le> LEAF_PAGE_BUDGET) NI_VisibleWinnerExceedsPageBudget) (\<lambda>_.
         rbind (rguard (predict_encoded_leaf_size folded_cells retained \<le> LEAF_PAGE_BUDGET) NI_FoldedLeafExceedsPageByteBudget) (\<lambda>_.
         case encode_folded_leaf crc crc_append folded_cells (fi_links decoded) of
           Inl _ \<Rightarrow> Inl NI_FoldedLeafExceedsPageByteBudget
         | Inr base \<Rightarrow> Inr \<lparr>new_base = base, history_spills = spills, retained_chains = retained\<rparr>))))"

text \<open>Whether the winners fit once the tree may split the leaf and move large values out.\<close>

fun winners_fit :: "ts \<Rightarrow> chain_map \<Rightarrow> nat \<Rightarrow> not_installable + bool" where
  "winners_fit ckpt [] visible_winners = Inr (visible_winners > 1)"
| "winners_fit ckpt ((key, c) # cs) visible_winners = (case checkpoint_winner_index c ckpt of
     None \<Rightarrow> Inr False
   | Some index \<Rightarrow>
       if length c \<noteq> 1 then Inr False
       else let e = c ! index in
         if is_tombstone e then winners_fit ckpt cs visible_winners
         else rbind (case data e of
             Inline bs \<Rightarrow>
               if length bs > OVERFLOW_THRESHOLD
               then if length bs < 2 ^ 32 then Inr \<lparr>cell_key = key, cell_val = Cell_Overflow 0 (of_nat (length bs))\<rparr>
                    else Inl NI_FoldedLeafExceedsPageByteBudget
               else folded_cell_from_entry key e
           | Overflow _ _ \<Rightarrow> folded_cell_from_entry key e) (\<lambda>cell.
           if predict_encoded_leaf_size [cell] [] > LEAF_PAGE_BUDGET then Inr False
           else winners_fit ckpt cs (visible_winners + 1)))"

definition visible_winners_fit_individual_leaf_pages :: "chain_map \<Rightarrow> ts \<Rightarrow> not_installable + bool" where
  "visible_winners_fit_individual_leaf_pages cm checkpoint_ts = winners_fit checkpoint_ts cm 0"

section \<open>The winner of a chain\<close>

lemma fold_last_max:
  "fold (\<lambda>y best. if f best \<le> f y then y else best) xs x \<in> insert x (set xs) \<and>
   (\<forall>y \<in> insert x (set xs). f y \<le> f (fold (\<lambda>y best. if f best \<le> f y then y else best) xs x))"
  for f :: "'a \<Rightarrow> 'b :: linorder"
proof (induction xs arbitrary: x)
  case (Cons a xs)
  show ?case using Cons.IH [of a] Cons.IH [of x] by (auto intro: order_trans)
qed simp

definition candidate :: "ts \<Rightarrow> version_entry \<Rightarrow> bool" where
  "candidate ckpt e \<longleftrightarrow> state e = Committed \<and> start_ts e \<le> ckpt"

lemma set_enumerate: "set c = snd ` set (enumerate 0 c)"
  by (metis map_snd_enumerate set_map)

lemma winner_None: "checkpoint_winner_index c ckpt = None \<longleftrightarrow> (\<forall>e \<in> set c. \<not> candidate ckpt e)"
proof -
  have "checkpoint_winner_index c ckpt = None \<longleftrightarrow> filter (\<lambda>(_, e). candidate ckpt e) (enumerate 0 c) = []"
    by (auto simp: checkpoint_winner_index_def candidate_def split: list.splits)
  also have "\<dots> \<longleftrightarrow> (\<forall>e \<in> set c. \<not> candidate ckpt e)"
    unfolding filter_empty_conv set_enumerate [of c] by auto
  finally show ?thesis .
qed

lemma winner_Some:
  assumes "checkpoint_winner_index c ckpt = Some i"
  shows "i < length c" "candidate ckpt (c ! i)" "\<And>e. e \<in> set c \<Longrightarrow> candidate ckpt e \<Longrightarrow> start_ts e \<le> start_ts (c ! i)"
proof -
  obtain x xs where xs: "filter (\<lambda>(_, e). candidate ckpt e) (enumerate 0 c) = x # xs"
      and i: "i = fst (fold (\<lambda>y best. if start_ts (snd best) \<le> start_ts (snd y) then y else best) xs x)"
    using assms by (auto simp: checkpoint_winner_index_def candidate_def split: list.splits)
  define w where "w = fold (\<lambda>y best. if start_ts (snd best) \<le> start_ts (snd y) then y else best) xs x"
  have s: "set (x # xs) = {p \<in> set (enumerate 0 c). candidate ckpt (snd p)}" unfolding xs [symmetric] by auto
  have w: "w \<in> set (x # xs)" "\<And>y. y \<in> set (x # xs) \<Longrightarrow> start_ts (snd y) \<le> start_ts (snd w)"
    using fold_last_max [of "\<lambda>p. start_ts (snd p)" xs x] unfolding w_def by auto
  have "i = fst w" using i by (simp only: w_def)
  then have wi: "w = (i, c ! i)" "i < length c" "candidate ckpt (c ! i)"
    using w(1) unfolding s by (cases w; auto simp: in_set_enumerate_eq)+
  then show "i < length c" "candidate ckpt (c ! i)" by simp_all
  fix e assume "e \<in> set c" "candidate ckpt e"
  then obtain j where "(j, e) \<in> set (x # xs)" unfolding s set_enumerate [of c] by auto
  from w(2) [OF this] show "start_ts e \<le> start_ts (c ! i)" using wi(1) by simp
qed

section \<open>Where the entries of a chain go\<close>

definition stays :: "ts \<Rightarrow> version_entry \<Rightarrow> bool" where
  "stays ckpt e \<longleftrightarrow> is_pending e \<or> state e = Committed \<and> start_ts e > ckpt"

definition spills :: "ts \<Rightarrow> ts \<Rightarrow> version_entry \<Rightarrow> bool" where
  "spills ckpt ort e \<longleftrightarrow> candidate ckpt e \<and> stop_ts e > ort"

lemma synth_entries_kept:
  assumes "synth_entries ident key c w ckpt ort es = Inr (r, h)" "\<And>i e. (i, e) \<in> set es \<Longrightarrow> w = Some i \<Longrightarrow> candidate ckpt e"
  shows "r = filter (stays ckpt) (map snd es)"
  using assms
proof (induction es arbitrary: r h)
  case (Cons a es)
  obtain i e where a: "a = (i, e)" by force
  have IH: "synth_entries ident key c w ckpt ort es = Inr (r', h') \<Longrightarrow> r' = filter (stays ckpt) (map snd es)" for r' h'
    using Cons.IH Cons.prems(2) by (metis list.set_intros(2))
  show ?case
  proof (cases "w = Some i")
    case True
    then have "\<not> stays ckpt e" using Cons.prems(2) a by (auto simp: stays_def candidate_def not_less)
    then show ?thesis using True Cons.prems(1) IH by (simp add: a)
  next
    case False
    then show ?thesis using Cons.prems(1) IH
      by (auto simp: a stays_def [of _ e] rbind_Inr_iff split: version_state.splits if_splits)
  qed
qed simp

lemma synth_entries_spilled:
  assumes "synth_entries ident key c w ckpt ort es = Inr (r, h)"
  shows "set h \<subseteq> {x. hs_ident x = ident \<and> hs_key x = key \<and> hs_entry x \<in> snd ` set es \<and> spills ckpt ort (hs_entry x)}"
    and "(i, e) \<in> set es \<Longrightarrow> w \<noteq> Some i \<Longrightarrow> spills ckpt ort e \<Longrightarrow> \<exists>n. \<lparr>hs_ident = ident, hs_key = key, hs_entry = e, hs_counter = n\<rparr> \<in> set h"
  using assms
proof (induction es arbitrary: r h)
  case (Cons a es)
  obtain j x where a: "a = (j, x)" by force
  {
    case 1
    show ?case using 1 Cons.IH(1)
      by (fastforce simp: a rbind_Inr_iff spills_def candidate_def not_less not_le split: version_state.splits if_splits)
  next
    case 2
    show ?case using 2 Cons.IH(2)
      by (fastforce simp: a rbind_Inr_iff spills_def candidate_def not_less not_le split: version_state.splits if_splits)
  }
qed simp_all

text \<open>For a whole chain: what stays does not depend on the winner, which never stays.\<close>

lemma chain_kept:
  assumes "synth_entries ident key c (checkpoint_winner_index c ckpt) ckpt ort (enumerate 0 c) = Inr (r, h)"
  shows "r = filter (stays ckpt) c"
proof -
  have "candidate ckpt e" if "(i, e) \<in> set (enumerate 0 c)" "checkpoint_winner_index c ckpt = Some i" for i e
    using winner_Some(2) [OF that(2)] that(1) by (simp add: in_set_enumerate_eq)
  from synth_entries_kept [OF assms this] show ?thesis by simp
qed

section \<open>The page as a whole\<close>

definition keyed :: "(bytes, leaf_cell) smap \<Rightarrow> bool" where
  "keyed m \<longleftrightarrow> (\<forall>(k, c) \<in> set m. cell_key c = k)"

text \<open>The value a chain leaves in the new image, given the value of the old one.\<close>

definition folded_value :: "ts \<Rightarrow> chain option \<Rightarrow> cell_value option \<Rightarrow> cell_value option" where
  "folded_value ckpt c old = (case c of None \<Rightarrow> old | Some c \<Rightarrow> (case checkpoint_winner_index c ckpt of None \<Rightarrow> old
     | Some i \<Rightarrow> if is_tombstone (c ! i) then None
         else (case data (c ! i) of Inline bs \<Rightarrow> Some (Cell_Inline bs) | Overflow p n \<Rightarrow> Some (Cell_Overflow p (ucast n)))))"

definition kept_chain :: "ts \<Rightarrow> chain option \<Rightarrow> chain option" where
  "kept_chain ckpt c = (case c of None \<Rightarrow> None | Some c \<Rightarrow> if filter (stays ckpt) c = [] then None else Some (filter (stays ckpt) c))"

lemma keyed_insert: "keyed m \<Longrightarrow> cell_key c = k \<Longrightarrow> keyed (sm_insert k c m)"
  by (induction k c m rule: sm_insert.induct) (auto simp: keyed_def)

lemma keyed_remove: "keyed m \<Longrightarrow> keyed (sm_remove k m)"
  by (induction k m rule: sm_remove.induct) (auto simp: keyed_def)

lemma fold_winner_ok:
  assumes "fold_winner key c (checkpoint_winner_index c ckpt) base = Inr base'" "sm_inv base" "keyed base"
  shows "sm_inv base'" "keyed base'" "k \<noteq> key \<Longrightarrow> sm_get base' k = sm_get base k"
    "map_option cell_val (sm_get base' key) = folded_value ckpt (Some c) (map_option cell_val (sm_get base key))"
proof -
  have cell: "cell_key x = key \<and> (case data e of Inline bs \<Rightarrow> cell_val x = Cell_Inline bs | Overflow p n \<Rightarrow> cell_val x = Cell_Overflow p (ucast n))"
    if "folded_cell_from_entry key e = Inr x" for x e
    using that by (auto simp: folded_cell_from_entry_def split: version_data.splits if_splits)
  note d = fold_winner_def Let_def rbind_Inr_iff
  show "sm_inv base'" using assms by (auto simp: d sm_insert_inv sm_remove_inv split: option.splits if_splits)
  show "keyed base'" using assms cell by (auto simp: d keyed_insert keyed_remove split: option.splits if_splits)
  show "k \<noteq> key \<Longrightarrow> sm_get base' k = sm_get base k"
    using assms by (auto simp: d sm_get_insert sm_get_remove sm_remove_inv split: option.splits if_splits)
  show "map_option cell_val (sm_get base' key) = folded_value ckpt (Some c) (map_option cell_val (sm_get base key))"
  proof (cases "checkpoint_winner_index c ckpt")
    case (Some i)
    then show ?thesis
    proof (cases "is_tombstone (c ! i)")
      case False
      then obtain x where "folded_cell_from_entry key (c ! i) = Inr x" "base' = sm_insert key x (sm_remove key base)"
        using assms(1) Some by (auto simp: d)
      then show ?thesis using cell [of "c ! i" x] Some False assms(2)
        by (auto simp: folded_value_def sm_get_insert sm_remove_inv split: version_data.splits)
    qed (use assms(1,2) in \<open>auto simp: d folded_value_def sm_get_remove\<close>)
  qed (use assms(1) in \<open>simp add: d folded_value_def\<close>)
qed

lemma synth_chains_maps:
  assumes "synth_chains ident ckpt ort cm base ret sp = Inr (base', ret', sp')"
    and "sm_inv cm" "sm_inv base" "keyed base" "sm_inv ret" "\<forall>k \<in> fst ` set cm. sm_get ret k = None"
  shows "sm_inv base' \<and> keyed base' \<and> sm_inv ret' \<and>
    (\<forall>k. map_option cell_val (sm_get base' k) = folded_value ckpt (sm_get cm k) (map_option cell_val (sm_get base k))) \<and>
    (\<forall>k. sm_get ret' k = (if k \<in> fst ` set cm then kept_chain ckpt (sm_get cm k) else sm_get ret k))"
  using assms
proof (induction cm arbitrary: base ret sp)
  case Nil
  then show ?case by (simp add: folded_value_def sm_get_def)
next
  case (Cons a cm)
  obtain key c where a: "a = (key, c)" by force
  obtain b r h where b: "fold_winner key c (checkpoint_winner_index c ckpt) base = Inr b"
      and e: "synth_entries ident key c (checkpoint_winner_index c ckpt) ckpt ort (enumerate 0 c) = Inr (r, h)"
      and rest: "synth_chains ident ckpt ort cm b (if r = [] then ret else sm_insert key r ret) (sp @ h) = Inr (base', ret', sp')"
    using Cons.prems(1) by (auto simp: a Let_def rbind_Inr_iff)
  note f = fold_winner_ok [OF b Cons.prems(3,4)]
  note r = chain_kept [OF e]
  let ?ret = "if r = [] then ret else sm_insert key r ret"
  have cm: "sm_inv cm" "key \<notin> fst ` set cm" using Cons.prems(2) by (auto simp: a sm_inv_Cons)
  have ret: "sm_inv ?ret" "\<forall>k \<in> fst ` set cm. sm_get ?ret k = None"
    using Cons.prems(5,6) cm(2) by (auto simp: a sm_insert_inv sm_get_insert)
  note IH = Cons.IH [OF rest cm(1) f(1,2) ret]
  have none: "sm_get cm key = None" using cm(2) by (simp add: sm_get_None_iff)
  have get: "sm_get (a # cm) k = (if k = key then Some c else sm_get cm k)" for k by (simp add: a sm_get_def)
  have "map_option cell_val (sm_get base' k) = folded_value ckpt (sm_get (a # cm) k) (map_option cell_val (sm_get base k))" for k
    using IH f(3,4) none by (cases "k = key") (simp_all add: get folded_value_def [of _ None])
  moreover have "sm_get ret' k = (if k \<in> fst ` set (a # cm) then kept_chain ckpt (sm_get (a # cm) k) else sm_get ret k)" for k
  proof (cases "k = key")
    case True
    then have "sm_get ret' k = sm_get ?ret key" using IH cm(2) by simp
    also have "\<dots> = kept_chain ckpt (Some c)" using Cons.prems(5,6) r by (simp add: a kept_chain_def sm_get_insert)
    finally show ?thesis using True by (simp add: a get [unfolded a])
  qed (use IH Cons.prems(5) in \<open>simp add: a get [unfolded a] sm_get_insert\<close>)
  ultimately show ?case using IH by blast
qed

lemma synth_chains_spilled:
  assumes "synth_chains ident ckpt ort cm base ret sp = Inr (base', ret', sp')"
  shows "x \<in> set sp' \<Longrightarrow> x \<in> set sp \<or> hs_ident x = ident \<and> spills ckpt ort (hs_entry x) \<and> (\<exists>c. (hs_key x, c) \<in> set cm \<and> hs_entry x \<in> set c)"
    and "set sp \<subseteq> set sp'"
    and "(k, c) \<in> set cm \<Longrightarrow> i < length c \<Longrightarrow> checkpoint_winner_index c ckpt \<noteq> Some i \<Longrightarrow> spills ckpt ort (c ! i) \<Longrightarrow>
      \<exists>n. \<lparr>hs_ident = ident, hs_key = k, hs_entry = c ! i, hs_counter = n\<rparr> \<in> set sp'"
  using assms
proof (induction cm arbitrary: base ret sp)
  case (Cons a cm)
  obtain key d where a: "a = (key, d)" by force
  have step: "\<exists>b r h. synth_entries ident key d (checkpoint_winner_index d ckpt) ckpt ort (enumerate 0 d) = Inr (r, h) \<and>
      synth_chains ident ckpt ort cm b (if r = [] then ret else sm_insert key r ret) (sp @ h) = Inr (base', ret', sp')"
    if "synth_chains ident ckpt ort (a # cm) base ret sp = Inr (base', ret', sp')" for base ret sp
    using that unfolding a by (simp only: synth_chains.simps Let_def rbind_Inr_iff split_paired_Ex prod.case) blast
  {
    case 1
    obtain b r h where e: "synth_entries ident key d (checkpoint_winner_index d ckpt) ckpt ort (enumerate 0 d) = Inr (r, h)"
        and rest: "synth_chains ident ckpt ort cm b (if r = [] then ret else sm_insert key r ret) (sp @ h) = Inr (base', ret', sp')"
      using step [OF 1(2)] by blast
    show ?case using Cons.IH(1) [OF 1(1) rest] synth_entries_spilled(1) [OF e]
      unfolding a set_enumerate [of d, symmetric] by auto
  next
    case 2
    show ?case using step [OF 2] Cons.IH(2) by fastforce
  next
    case 3
    obtain b r h where e: "synth_entries ident key d (checkpoint_winner_index d ckpt) ckpt ort (enumerate 0 d) = Inr (r, h)"
        and rest: "synth_chains ident ckpt ort cm b (if r = [] then ret else sm_insert key r ret) (sp @ h) = Inr (base', ret', sp')"
      using step [OF 3(5)] by blast
    show ?case
    proof (cases "(k, c) \<in> set cm")
      case False
      then have kc: "k = key" "c = d" using 3(1) by (auto simp: a)
      have "(i, c ! i) \<in> set (enumerate 0 d)" using 3(2) kc by (simp add: in_set_enumerate_eq)
      then obtain n where "\<lparr>hs_ident = ident, hs_key = key, hs_entry = c ! i, hs_counter = n\<rparr> \<in> set h"
        using synth_entries_spilled(2) [OF e] 3(3,4) kc by blast
      then show ?thesis using Cons.IH(2) [OF rest] kc by auto
    qed (use Cons.IH(3) [OF _ 3(2,3,4) rest] in blast)
  }
qed simp_all

lemma map_of_rev: "distinct (map fst xs) \<Longrightarrow> map_of (rev xs) = map_of xs"
proof (rule ext)
  fix k assume d: "distinct (map fst xs)"
  then have "distinct (map fst (rev xs))" by (simp add: rev_map [symmetric])
  then show "map_of (rev xs) k = map_of xs k"
    using map_of_eq_Some_iff [of "rev xs" k] map_of_eq_Some_iff [OF d, of k] by (metis not_Some_eq set_rev)
qed

lemma base_map_ok:
  shows "sm_inv (base_map cells)" "keyed (base_map cells)"
    "sorted_cells cells \<Longrightarrow> map_option cell_val (sm_get (base_map cells) k) = cell_map cells k"
proof -
  have inv: "sm_inv (fold (\<lambda>c m. sm_insert (cell_key c) c m) cells m) \<and> keyed (fold (\<lambda>c m. sm_insert (cell_key c) c m) cells m) \<and>
      sm_get (fold (\<lambda>c m. sm_insert (cell_key c) c m) cells m) = sm_get m ++ map_of (map (\<lambda>c. (cell_key c, c)) (rev cells))"
    if "sm_inv m" "keyed m" for m using that
  proof (induction cells arbitrary: m)
    case (Cons a cells)
    show ?case using Cons.IH [of "sm_insert (cell_key a) a m"] Cons.prems
      by (auto simp: sm_insert_inv keyed_insert sm_get_insert fun_eq_iff map_add_def split: option.splits)
  qed simp
  from inv [of "[]"] show "sm_inv (base_map cells)" "keyed (base_map cells)" by (simp_all add: base_map_def keyed_def)
  assume "sorted_cells cells"
  then have "distinct (map cell_key cells)" by (simp add: sorted_cells_def strict_sorted_iff)
  then have "map_of (map (\<lambda>c. (cell_key c, c)) (rev cells)) = map_of (map (\<lambda>c. (cell_key c, c)) cells)"
    using map_of_rev [of "map (\<lambda>c. (cell_key c, c)) cells"] by (simp add: rev_map o_def)
  moreover have "cell_map cells k = map_option cell_val (map_of (map (\<lambda>c. (cell_key c, c)) cells) k)"
    by (induction cells) (simp_all add: cell_map_def)
  moreover have "(sm_get [] :: bytes \<rightharpoonup> leaf_cell) = Map.empty" by (simp add: fun_eq_iff sm_get_def)
  ultimately show "map_option cell_val (sm_get (base_map cells) k) = cell_map cells k"
    using inv [of "[]"] by (simp add: base_map_def keyed_def)
qed

lemma keyed_cells:
  assumes "sm_inv m" "keyed m"
  shows "sorted_cells (map snd m)" "cell_map (map snd m) k = map_option cell_val (sm_get m k)"
proof -
  have "map cell_key (map snd m) = map fst m" using assms(2) by (auto simp: keyed_def)
  then show "sorted_cells (map snd m)" using assms(1) by (simp only: sorted_cells_def sm_inv_def)
  show "cell_map (map snd m) k = map_option cell_val (sm_get m k)"
    using assms(2) by (induction m) (auto simp: cell_map_def sm_get_def keyed_def)
qed

lemma case_err_Inr: "(case x of Inl _ \<Rightarrow> Inl e | Inr y \<Rightarrow> f y) = Inr z \<longleftrightarrow> (\<exists>y. x = Inr y \<and> f y = Inr z)"
  by (cases x) auto

lemma synthesize_ok:
  assumes "synthesize_page crc crc_append img cm ckpt ort ident = Inr res" "parse img = Inr n" "sorted_cells (ln_cells n)" "sm_inv cm"
  obtains n' where "parse (new_base res) = Inr n'" "length (new_base res) = PAGE_SIZE_LEAF" "hd (new_base res) = PAGE_TYPE_LEAF"
    "ln_next_leaf_page n' = ln_next_leaf_page n"
    "sorted_cells (ln_cells n')" "\<And>k. cell_map (ln_cells n') k = folded_value ckpt (sm_get cm k) (cell_map (ln_cells n) k)"
    "sm_inv (retained_chains res)" "\<And>k. sm_get (retained_chains res) k = kept_chain ckpt (sm_get cm k)"
    "\<And>x. x \<in> set (history_spills res) \<Longrightarrow> hs_ident x = ident \<and> spills ckpt ort (hs_entry x) \<and> (\<exists>c. sm_get cm (hs_key x) = Some c \<and> hs_entry x \<in> set c)"
    "\<And>k c i. sm_get cm k = Some c \<Longrightarrow> i < length c \<Longrightarrow> checkpoint_winner_index c ckpt \<noteq> Some i \<Longrightarrow> spills ckpt ort (c ! i) \<Longrightarrow>
      \<exists>m. \<lparr>hs_ident = ident, hs_key = k, hs_entry = c ! i, hs_counter = m\<rparr> \<in> set (history_spills res)"
proof -
  let ?links = "\<lparr>fl_next_leaf_page = ln_next_leaf_page n, fl_prev_leaf_page = ln_prev_leaf_page n\<rparr>"
  obtain b r sp where s: "synth_chains ident ckpt ort cm (base_map (ln_cells n)) [] [] = Inr (b, r, sp)"
      and enc: "encode_folded_leaf crc crc_append (map snd b) ?links = Inr (new_base res)"
      and res: "history_spills res = sp" "retained_chains res = r"
    using assms(1,2) by (auto simp: synthesize_page_def decode_folded_leaf_def Let_def rbind_Inr_iff case_err_Inr)
  note m = synth_chains_maps [OF s assms(4) base_map_ok(1,2) sm_inv_Nil]
  have m': "sm_inv b" "keyed b" "sm_inv r"
      "\<And>k. map_option cell_val (sm_get b k) = folded_value ckpt (sm_get cm k) (cell_map (ln_cells n) k)"
    using m base_map_ok(3) [OF assms(3)] by (simp_all add: sm_get_def)
  have none: "kept_chain ckpt (sm_get cm k) = None" if "k \<notin> fst ` set cm" for k
    using that by (simp add: kept_chain_def sm_get_None_iff [symmetric])
  have ret: "sm_get r k = kept_chain ckpt (sm_get cm k)" for k using m none by (auto simp: sm_get_def [of "[]"])
  let ?n = "\<lparr>ln_flags = 0, ln_next_leaf_page = ln_next_leaf_page n, ln_prev_leaf_page = ln_prev_leaf_page n, ln_cells = map snd b\<rparr>"
  have e: "encode crc crc_append ?n = Inr (new_base res)" using enc by (simp add: encode_folded_leaf_def)
  have "hd (new_base res) = PAGE_TYPE_LEAF"
    using encode_layout(1,2) [OF e] by (cases "new_base res") (auto simp: leaf_from_bytes_def PAGE_SIZE_LEAF_def split: if_splits)
  then show thesis
    by (intro that [of "?n\<lparr>ln_flags := encoded_flags ?n\<rparr>"])
      (use parse_encode [OF e] encode_layout [OF e] keyed_cells [OF m'(1,2)] m'(3,4) ret res
         synth_chains_spilled [OF s] sm_get_iff [OF assms(4)] in auto)
qed

section \<open>What readers see of a folded page\<close>

lemma windows_cover_unique:
  assumes "windows_ok u c" "x \<in> set c" "y \<in> set c" "state x \<noteq> Aborted" "state y \<noteq> Aborted" "covers r x" "covers r y"
  shows "x = y"
  using assms
proof (induction c arbitrary: u)
  case (Cons a c)
  have below: "\<not> covers r z" if "covers r a" "state a \<noteq> Aborted" "z \<in> set c" "state z \<noteq> Aborted" for z
    using windows_ok_bounds [of "start_ts a" c z] Cons.prems(1) that by (auto simp: covers_def)
  show ?case using Cons below by (cases "state a = Aborted") (auto split: if_splits)
qed simp

lemma visible_pending_head:
  assumes "only_head_pending c" "x \<in> set c" "is_pending x" "version_visible_to x v"
  shows "visible_in c v = Some x"
  using assms
proof (induction c)
  case (Cons a c)
  have "\<not> version_visible_to a v" if "state a = Aborted" using that by (simp add: version_visible_to_def)
  then show ?case using Cons by (cases "state a = Aborted") (auto simp: visible_in_def settled_def)
qed simp

lemma visible_committed: "state e = Committed \<Longrightarrow> version_visible_to e v \<longleftrightarrow> covers (read_ts v) e"
  by (simp add: version_visible_to_def covers_def)

lemma visible_in_Some: "visible_in c v = Some e \<Longrightarrow> e \<in> set c \<and> version_visible_to e v"
  by (auto simp: visible_in_def find_Some_iff)

lemma find_filter: "find P xs = Some x \<Longrightarrow> Q x \<Longrightarrow> find P (filter Q xs) = Some x"
  by (induction xs) (auto split: if_splits)

text \<open>A version that a reader sees on a well-formed chain either stays there, or was committed
  at or before the checkpoint, and then the reader sees nothing on what is left of the chain.\<close>

lemma visible_kept:
  assumes "chain_wf c" "visible_in c v = Some e"
  shows "stays ckpt e \<Longrightarrow> visible_in (filter (stays ckpt) c) v = Some e"
    and "\<not> stays ckpt e \<Longrightarrow> candidate ckpt e \<and> covers (read_ts v) e \<and> visible_in (filter (stays ckpt) c) v = None \<and>
      chain_is_history_candidate (filter (stays ckpt) c) (read_ts v)"
proof -
  note e = visible_in_Some [OF assms(2)]
  show "stays ckpt e \<Longrightarrow> visible_in (filter (stays ckpt) c) v = Some e"
    using find_filter assms(2) by (simp add: visible_in_def)
  assume ns: "\<not> stays ckpt e"
  then have com: "state e = Committed" using e by (cases "state e") (auto simp: stays_def version_visible_to_def)
  then have cand: "candidate ckpt e" and cov: "covers (read_ts v) e"
    using ns e visible_committed [OF com] by (auto simp: stays_def candidate_def)
  have wf: "windows_ok ts_max c" "only_head_pending c" using assms(1) by (simp_all add: chain_wf_def)
  have "\<not> version_visible_to x v" if x: "x \<in> set c" "stays ckpt x" for x
  proof
    assume vis: "version_visible_to x v"
    show False
    proof (cases "is_pending x")
      case True
      then show False using visible_pending_head [OF wf(2) x(1) True vis] assms(2) com by simp
    next
      case False
      then have "state x = Committed" using x(2) by (simp add: stays_def)
      then have "x = e" using windows_cover_unique [OF wf(1) x(1) conjunct1 [OF e]] cov com vis visible_committed by auto
      then show False using ns x(2) by simp
    qed
  qed
  moreover have "read_ts v < start_ts x \<or> is_pending x" if x: "x \<in> set c" "stays ckpt x" for x
  proof (rule ccontr)
    assume *: "\<not> (read_ts v < start_ts x \<or> is_pending x)"
    then have "state x = Committed" "start_ts x > ckpt" using x(2) by (auto simp: stays_def)
    moreover have "start_ts e \<le> ckpt" using cand by (simp add: candidate_def)
    ultimately have "start_ts e < start_ts x" "start_ts x \<le> read_ts v" using * by auto
    then have "start_ts x < stop_ts e" using cov by (auto simp: covers_def)
    then have "covers (start_ts x) e" "covers (start_ts x) x"
      using \<open>start_ts e < start_ts x\<close> windows_ok_bounds [OF wf(1) x(1)] \<open>state x = Committed\<close> by (auto simp: covers_def)
    then show False using windows_cover_unique [OF wf(1) x(1) conjunct1 [OF e]] \<open>state x = Committed\<close> com \<open>start_ts e < start_ts x\<close> by auto
  qed
  ultimately show "candidate ckpt e \<and> covers (read_ts v) e \<and> visible_in (filter (stays ckpt) c) v = None \<and>
      chain_is_history_candidate (filter (stays ckpt) c) (read_ts v)"
    using cand cov by (auto simp: visible_in_def find_None_iff chain_is_history_candidate_def list_all_iff)
qed

text \<open>What the history store of a tree may hold for a key while the chain is in memory: versions
  older than the whole chain, and versions of the chain that an earlier checkpoint spilled
  without installing the leaf.\<close>

definition history_behind :: "history_tree \<Rightarrow> tree_ident \<Rightarrow> bytes \<Rightarrow> chain \<Rightarrow> bool" where
  "history_behind t i k c \<longleftrightarrow> (\<forall>n x. hist_stored t i k n x \<longrightarrow>
     x \<in> set c \<and> state x = Committed \<or> (\<forall>e \<in> set c. stop_ts x \<le> start_ts e))"

lemma probe_newest:
  assumes "hist_ok t" "length k < 2 ^ 32" "readable_at t alloc i k"
  shows "(\<exists>c e. newest_covering t i k r c e \<and> probe_visible_entry t alloc i k r skip = Inr (if skip \<and> is_tombstone e then None else Some e)) \<or>
      (\<forall>c e. \<not> newest_covering t i k r c e) \<and> probe_visible_entry t alloc i k r skip = Inr None"
proof -
  have "\<forall>c e. \<not> newest_covering t i k r c e" if "\<forall>c e. hist_stored t i k c e \<longrightarrow> \<not> covers r e"
    using that by (auto simp: newest_covering_def)
  then show ?thesis using probe_visible_cases [OF assms, of r skip] by blast
qed

lemma probe_same:
  assumes "hist_ok t" "hist_ok t'" "length k < 2 ^ 32" "readable_at t' alloc i k"
    and "\<And>n x. hist_stored t' i k n x \<longleftrightarrow> hist_stored t i k n x"
  shows "probe_visible_entry t' alloc i k r skip = probe_visible_entry t alloc i k r skip"
proof -
  have "readable_at t alloc i k" using assms(4,5) by (simp add: readable_at_def)
  moreover have "newest_covering t' i k r = newest_covering t i k r" using assms(5) by (simp add: fun_eq_iff newest_covering_def)
  ultimately have n: "(\<exists>c e. newest_covering t i k r c e \<and> probe_visible_entry t' alloc i k r skip = Inr (if skip \<and> is_tombstone e then None else Some e)) \<or>
      (\<forall>c e. \<not> newest_covering t i k r c e) \<and> probe_visible_entry t' alloc i k r skip = Inr None" and a: "readable_at t alloc i k"
    using probe_newest [OF assms(2,3,4), of r skip] by simp_all
  from probe_newest [OF assms(1,3) a, of r skip] show ?thesis
  proof
    assume "\<exists>c e. newest_covering t i k r c e \<and> probe_visible_entry t alloc i k r skip = Inr (if skip \<and> is_tombstone e then None else Some e)"
    then obtain c e where e: "newest_covering t i k r c e" "probe_visible_entry t alloc i k r skip = Inr (if skip \<and> is_tombstone e then None else Some e)" by blast
    then obtain d x where x: "newest_covering t i k r d x" "probe_visible_entry t' alloc i k r skip = Inr (if skip \<and> is_tombstone x then None else Some x)"
      using n by blast
    have "e = x" by (rule newest_covering_unique [OF e(1) x(1)])
    then show ?thesis using e(2) x(2) by simp
  qed (use n in auto)
qed

lemma probe_only:
  assumes "hist_ok t" "length k < 2 ^ 32" "readable_at t alloc i k" "\<forall>n x. hist_stored t i k n x \<longrightarrow> covers r x \<longrightarrow> x = e"
  shows "probe_visible_entry t alloc i k r False = Inr (Some e) \<or> probe_visible_entry t alloc i k r False = Inr None"
    and "hist_stored t i k n e \<Longrightarrow> covers r e \<Longrightarrow> probe_visible_entry t alloc i k r False = Inr (Some e)"
proof -
  have "(\<exists>c x. hist_stored t i k c x \<and> covers r x \<and> probe_visible_entry t alloc i k r False = Inr (Some x)) \<or>
      (\<forall>c e. hist_stored t i k c e \<longrightarrow> \<not> covers r e) \<and> probe_visible_entry t alloc i k r False = Inr None"
    using probe_visible_cases [OF assms(1,2,3), of r False] unfolding newest_covering_def by auto
  then show "probe_visible_entry t alloc i k r False = Inr (Some e) \<or> probe_visible_entry t alloc i k r False = Inr None"
    and "hist_stored t i k n e \<Longrightarrow> covers r e \<Longrightarrow> probe_visible_entry t alloc i k r False = Inr (Some e)"
    using assms(4) by blast+
qed

text \<open>The three ways a read of a key goes: by a version of the chain, or through the history
  store, or straight to the cell.\<close>

definition chain_of :: "chain_map \<Rightarrow> bytes \<Rightarrow> chain" where
  "chain_of cm k = (case sm_get cm k of None \<Rightarrow> [] | Some c \<Rightarrow> c)"

definition cell_read :: "'s page_ops \<Rightarrow> 's \<Rightarrow> cell_value option \<Rightarrow> bytes option result" where
  "cell_read ops s c = (case c of None \<Rightarrow> Inr None | Some x \<Rightarrow> rbind (resolve_cell_value ops s x) (\<lambda>b. Inr (Some b)))"

lemma read_key_cases:
  assumes "parse img = Inr n" "sorted_cells (ln_cells n)"
  shows "visible_in (chain_of cm k) v = Some e \<Longrightarrow> read_key ops s v (Some pr) img (Some cm) k = entry_value ops s e"
    and "visible_in (chain_of cm k) v = None \<Longrightarrow> \<not> chain_is_history_candidate (chain_of cm k) (read_ts v) \<Longrightarrow>
      read_key ops s v (Some pr) img (Some cm) k = cell_read ops s (cell_map (ln_cells n) k)"
    and "visible_in (chain_of cm k) v = None \<Longrightarrow> pr k (read_ts v) = Inr None \<Longrightarrow> read_key ops s v (Some pr) img (Some cm) k = cell_read ops s (cell_map (ln_cells n) k)"
    and "visible_in (chain_of cm k) v = None \<Longrightarrow> chain_is_history_candidate (chain_of cm k) (read_ts v) \<Longrightarrow>
      pr k (read_ts v) = Inr (Some e) \<Longrightarrow> read_key ops s v (Some pr) img (Some cm) k = entry_value ops s e"
    and "visible_in (chain_of cm k) v = None \<Longrightarrow> chain_is_history_candidate (chain_of cm k) (read_ts v) \<Longrightarrow>
      read_key ops s v (Some pr) img (Some cm) k = rbind (pr k (read_ts v)) (\<lambda>found. case found of
        Some e \<Rightarrow> entry_value ops s e | None \<Rightarrow> cell_read ops s (cell_map (ln_cells n) k))"
proof -
  have vis: "visible_at cm k v = visible_in (chain_of cm k) v" by (simp add: visible_at_def chain_of_def visible_in_def split: option.splits)
  have hist: "history_is_candidate cm k r = chain_is_history_candidate (chain_of cm k) r" for r
    by (simp add: history_is_candidate_def chain_of_def chain_is_history_candidate_def split: option.splits)
  note d = read_key_def vis hist lookup_parsed [OF assms(1,2)] cell_read_def
  show "visible_in (chain_of cm k) v = Some e \<Longrightarrow> read_key ops s v (Some pr) img (Some cm) k = entry_value ops s e" by (simp add: d)
  show "visible_in (chain_of cm k) v = None \<Longrightarrow> \<not> chain_is_history_candidate (chain_of cm k) (read_ts v) \<Longrightarrow>
      read_key ops s v (Some pr) img (Some cm) k = cell_read ops s (cell_map (ln_cells n) k)" by (simp add: d split: option.splits)
  show "visible_in (chain_of cm k) v = None \<Longrightarrow> pr k (read_ts v) = Inr None \<Longrightarrow> read_key ops s v (Some pr) img (Some cm) k = cell_read ops s (cell_map (ln_cells n) k)"
    by (simp add: d split: option.splits)
  show "visible_in (chain_of cm k) v = None \<Longrightarrow> chain_is_history_candidate (chain_of cm k) (read_ts v) \<Longrightarrow>
      pr k (read_ts v) = Inr (Some e) \<Longrightarrow> read_key ops s v (Some pr) img (Some cm) k = entry_value ops s e" by (simp add: d)
  show "visible_in (chain_of cm k) v = None \<Longrightarrow> chain_is_history_candidate (chain_of cm k) (read_ts v) \<Longrightarrow>
      read_key ops s v (Some pr) img (Some cm) k = rbind (pr k (read_ts v)) (\<lambda>found. case found of
        Some e \<Rightarrow> entry_value ops s e | None \<Rightarrow> cell_read ops s (cell_map (ln_cells n) k))"
    by (simp add: d cong: option.case_cong)
qed

text \<open>The history probe of a tree, as a checkpoint leaves it and as it was.\<close>

definition history_of :: "history_tree \<Rightarrow> overflow_alloc \<Rightarrow> tree_ident \<Rightarrow> probe" where
  "history_of t alloc ident k r = probe_visible_entry t alloc ident k r False"

lemma chain_of_kept: "sm_get ret k = kept_chain ckpt (sm_get cm k) \<Longrightarrow> chain_of ret k = filter (stays ckpt) (chain_of cm k)"
  by (auto simp: chain_of_def kept_chain_def split: option.splits if_splits)

text \<open>The value that the winner of a chain leaves in the image reads like the winner itself.\<close>

lemma winner_read:
  assumes "sm_get cm k = Some c" "checkpoint_winner_index c ckpt = Some i"
  shows "cell_read ops s (folded_value ckpt (sm_get cm k) old) = entry_value ops s (c ! i)"
  using assms by (auto simp: folded_value_def cell_read_def entry_value_def resolve_cell_value_def resolve_version_data_def
      split: version_data.splits)

lemma fold_keeps_visible:
  assumes syn: "synthesize_page crc crc_append img cm ckpt ort ident = Inr res" "parse img = Inr n" "sorted_cells (ln_cells n)" "sm_inv cm"
    and h: "hist_ok t" "\<forall>x \<in> set (history_spills res). hs_key x = k \<longrightarrow> hist_stored t (hs_ident x) (hs_key x) (hs_counter x) (hs_entry x)"
    and k: "length k < 2 ^ 32" "readable_at t alloc ident k" and v: "ort \<le> read_ts v"
    and c: "sm_get cm k = Some c" "chain_wf c" "history_behind t ident k c" "visible_in c v = Some e"
  shows "read_key ops s v (Some (history_of t alloc ident)) (new_base res) (Some (retained_chains res)) k = entry_value ops s e"
proof -
  obtain n' where n: "parse (new_base res) = Inr n'" "sorted_cells (ln_cells n')"
      "\<And>k. cell_map (ln_cells n') k = folded_value ckpt (sm_get cm k) (cell_map (ln_cells n) k)"
      "\<And>k. sm_get (retained_chains res) k = kept_chain ckpt (sm_get cm k)"
      "\<And>k c i. sm_get cm k = Some c \<Longrightarrow> i < length c \<Longrightarrow> checkpoint_winner_index c ckpt \<noteq> Some i \<Longrightarrow> spills ckpt ort (c ! i) \<Longrightarrow>
        \<exists>m. \<lparr>hs_ident = ident, hs_key = k, hs_entry = c ! i, hs_counter = m\<rparr> \<in> set (history_spills res)"
    using synthesize_ok [OF syn] by metis
  note rk = read_key_cases [OF n(1,2)]
  have kept: "chain_of (retained_chains res) k = filter (stays ckpt) c" using chain_of_kept [OF n(4)] c(1) by (simp add: chain_of_def)
  show ?thesis
  proof (cases "stays ckpt e")
    case True
    then show ?thesis by (intro rk(1)) (simp add: kept visible_kept(1) [OF c(2,4)])
  next
    case False
    note f = visible_kept(2) [OF c(2,4) False]
    note e = visible_in_Some [OF c(4)]
    have only: "x = e" if "hist_stored t ident k m x" "covers (read_ts v) x" for m x
    proof -
      have "\<not> (\<forall>e \<in> set c. stop_ts x \<le> start_ts e)" using that(2) f e by (force simp: covers_def)
      then have "x \<in> set c \<and> state x = Committed" using that(1) c(3) by (auto simp: history_behind_def)
      then show ?thesis
        using windows_cover_unique [of ts_max c x e "read_ts v"] c(2) e f that(2) by (auto simp: chain_wf_def candidate_def)
    qed
    have "\<forall>n x. hist_stored t ident k n x \<longrightarrow> covers (read_ts v) x \<longrightarrow> x = e" using only by blast
    note po = probe_only [OF h(1) k this]
    have found: ?thesis if "probe_visible_entry t alloc ident k (read_ts v) False = Inr (Some e)"
      using f that by (intro rk(4)) (simp_all add: kept history_of_def)
    obtain i where i: "i < length c" "e = c ! i" using e by (auto simp: in_set_conv_nth)
    show ?thesis
    proof (cases "checkpoint_winner_index c ckpt = Some i")
      case True
      from po(1) show ?thesis
      proof
        assume "probe_visible_entry t alloc ident k (read_ts v) False = Inr None"
        then have "read_key ops s v (Some (history_of t alloc ident)) (new_base res) (Some (retained_chains res)) k =
            cell_read ops s (cell_map (ln_cells n') k)"
          using f by (intro rk(3)) (simp_all add: kept history_of_def)
        then show ?thesis using winner_read [OF c(1) True] i n(3) by simp
      qed (rule found)
    next
      case no: False
      have "spills ckpt ort (c ! i)" using f v i by (auto simp: spills_def covers_def)
      then obtain m where "\<lparr>hs_ident = ident, hs_key = k, hs_entry = e, hs_counter = m\<rparr> \<in> set (history_spills res)"
        using n(5) [OF c(1) i(1) no] i(2) by blast
      with h(2) have "hist_stored t ident k m e" by fastforce
      then show ?thesis using found po(2) f by simp
    qed
  qed
qed

text \<open>A key whose chain has nothing to fold keeps its cell and its history.\<close>

lemma fold_keeps_unfolded:
  assumes syn: "synthesize_page crc crc_append img cm ckpt ort ident = Inr res" "parse img = Inr n" "sorted_cells (ln_cells n)" "sm_inv cm"
    and k: "hist_ok t" "length k < 2 ^ 32" "readable_at t alloc ident k"
    and c: "\<forall>e \<in> set (chain_of cm k). \<not> candidate ckpt e" "history_behind t ident k (chain_of cm k)" "visible_in (chain_of cm k) v = None"
  shows "read_key ops s v (Some (history_of t alloc ident)) (new_base res) (Some (retained_chains res)) k =
    read_key ops s v (Some (history_of t alloc ident)) img (Some cm) k"
proof -
  obtain n' where n: "parse (new_base res) = Inr n'" "sorted_cells (ln_cells n')"
      "\<And>k. cell_map (ln_cells n') k = folded_value ckpt (sm_get cm k) (cell_map (ln_cells n) k)"
      "\<And>k. sm_get (retained_chains res) k = kept_chain ckpt (sm_get cm k)"
    using synthesize_ok [OF syn] by metis
  let ?c = "chain_of cm k"
  note after = read_key_cases [OF n(1,2)] and before = read_key_cases [OF syn(2,3)]
  have cells: "cell_map (ln_cells n') k = cell_map (ln_cells n) k"
    using n(3) [of k] c(1) winner_None [of "chain_of cm k" ckpt] by (cases "sm_get cm k") (simp_all add: folded_value_def chain_of_def)
  have kept: "chain_of (retained_chains res) k = filter (stays ckpt) ?c" by (rule chain_of_kept [OF n(4)])
  have vis: "visible_in (chain_of (retained_chains res) k) v = None" using c(3) by (auto simp: kept visible_in_def find_None_iff)
  show ?thesis
  proof (cases "chain_is_history_candidate ?c (read_ts v)")
    case True
    then have a: "chain_is_history_candidate (chain_of (retained_chains res) k) (read_ts v)"
      by (auto simp: kept chain_is_history_candidate_def list_all_iff)
    show ?thesis unfolding after(5) [OF vis a] before(5) [OF c(3) True] cells ..
  next
    case no: False
    then obtain x where x: "x \<in> set ?c" "start_ts x \<le> read_ts v" "\<not> is_pending x"
      by (auto simp: chain_is_history_candidate_def list_ex_iff list_all_iff not_less)
    have "\<not> covers (read_ts v) y" if "hist_stored t ident k m y" for m y
    proof
      assume cov: "covers (read_ts v) y"
      then have "\<not> (\<forall>e \<in> set ?c. stop_ts y \<le> start_ts e)" using x(1,2) by (force simp: covers_def)
      then have "y \<in> set ?c" "state y = Committed" using c(2) that by (auto simp: history_behind_def)
      then show False using c(3) cov visible_committed by (auto simp: visible_in_def find_None_iff)
    qed
    then have "history_of t alloc ident k (read_ts v) = Inr None"
      using probe_visible_cases [OF k, of "read_ts v" False] unfolding history_of_def newest_covering_def by blast
    from after(3) [where pr = "history_of t alloc ident", OF vis this] show ?thesis unfolding before(2) [OF c(3) no] cells .
  qed
qed

text \<open>Reading a folded page, once its spills are in the history store, gives what reading the
  page gave. The condition on the view is that it sees a version on the chain, or that the
  chain has nothing to fold.\<close>

definition protected :: "ts \<Rightarrow> view \<Rightarrow> chain \<Rightarrow> bool" where
  "protected ckpt v c \<longleftrightarrow> chain_wf c \<and> (visible_in c v \<noteq> None \<or> (\<forall>e \<in> set c. \<not> candidate ckpt e))"

lemma fold_keeps_read:
  assumes syn: "synthesize_page crc crc_append img cm ckpt ort ident = Inr res" "parse img = Inr n" "sorted_cells (ln_cells n)" "sm_inv cm"
    and h: "hist_ok t" "\<forall>x \<in> set (history_spills res). hs_key x = k \<longrightarrow> hist_stored t (hs_ident x) (hs_key x) (hs_counter x) (hs_entry x)"
    and k: "length k < 2 ^ 32" "readable_at t alloc ident k" and v: "ort \<le> read_ts v"
    and c: "protected ckpt v (chain_of cm k)" "history_behind t ident k (chain_of cm k)"
  shows "read_key ops s v (Some (history_of t alloc ident)) (new_base res) (Some (retained_chains res)) k =
    read_key ops s v (Some (history_of t alloc ident)) img (Some cm) k"
proof (cases "visible_in (chain_of cm k) v")
  case None
  then show ?thesis using fold_keeps_unfolded [OF syn h(1) k _ c(2) None] c(1) by (simp add: protected_def)
next
  case (Some e)
  then have g: "sm_get cm k = Some (chain_of cm k)" by (auto simp: chain_of_def visible_in_def split: option.splits)
  have wf: "chain_wf (chain_of cm k)" using c(1) by (simp add: protected_def)
  show ?thesis unfolding fold_keeps_visible [OF syn h k v g wf c(2) Some] read_key_cases(1) [OF syn(2,3) Some] ..
qed

end
