(* ===== verification/Checkpoint.thy ===== *)
theory Checkpoint
  imports Reconcile
begin

text \<open>
  The checkpoint's reconcile driver: \<open>src/src/storage/reconcile/driver.rs\<close> and the frame
  access it uses in \<open>src/src/storage/buffer_pool/reconcile_access.rs\<close>.

  The engine is the page store, the set of pages with a frame in memory, the history store and
  the record of dirty leaves. The plan classifies the dirty leaves without changing anything;
  a pass takes the leaves in chunks, synthesizes each, commits the chunk's spills to the
  history store and then installs the folded leaves. The outcome of writing the history pool
  and the file header back to disk is the argument \<open>flush\<close>, and whether the payload of a
  version can still be cloned is \<open>try_clone\<close>. The main lemma is that installing a folded leaf
  after its spills changes no read of the tree by a view at or above the reclamation horizon,
  unless the view is older than everything the chain of the key still holds.
\<close>

section \<open>Frames\<close>

datatype dirty_reason = PrimaryWrite | SecondaryWrite

record leaf_state =
  dirty_reason_of :: dirty_reason

record engine =
  eng_pool :: pool_store
  resident :: "u32 \<Rightarrow> bool"
  eng_history :: history_tree
  dirty_leaves :: "(tree_ident \<times> (u32, leaf_state) smap) list"

datatype replace_leaf_error = NotResident | NotLeaf

definition frame_image :: "engine \<Rightarrow> u32 \<Rightarrow> bytes" where
  "frame_image eng p = read_page (ps_slots (eng_pool eng)) p Large32k"

definition snapshot_leaf_for_reconcile :: "engine \<Rightarrow> u32 \<Rightarrow> (bytes \<times> chain_map) option result" where
  "snapshot_leaf_for_reconcile eng p =
    (if \<not> resident eng p then Inr None
     else if frame_image eng p = [] \<or> hd (frame_image eng p) \<noteq> PAGE_TYPE_LEAF
     then Inl (Internal ''dirty-leaf reconcile target is not a leaf page'')
     else Inr (Some (frame_image eng p, ps_chains (eng_pool eng) p)))"

definition pin_leaves_for_reconcile :: "engine \<Rightarrow> u32 list \<Rightarrow> replace_leaf_error + u32 list" where
  "pin_leaves_for_reconcile eng planned_pages =
    (case find (\<lambda>p. \<not> resident eng p \<or> frame_image eng p = [] \<or> hd (frame_image eng p) \<noteq> PAGE_TYPE_LEAF) planned_pages of
       None \<Rightarrow> Inr planned_pages
     | Some p \<Rightarrow> Inl (if resident eng p then NotLeaf else NotResident))"

definition replace_leaf_and_chains :: "engine \<Rightarrow> u32 \<Rightarrow> bytes \<Rightarrow> chain_map \<Rightarrow> (replace_leaf_error + unit) \<times> engine" where
  "replace_leaf_and_chains eng p base retained =
    (if length base \<noteq> page_size_bytes Large32k \<or> base = [] \<or> hd base \<noteq> PAGE_TYPE_LEAF then (Inl NotLeaf, eng)
     else (Inr (), eng\<lparr>eng_pool := (eng_pool eng)\<lparr>ps_slots := write_page (ps_slots (eng_pool eng)) p base,
            ps_chains := (ps_chains (eng_pool eng))(p := retained)\<rparr>\<rparr>))"

section \<open>The plan\<close>

datatype checkpoint_plan_blocker =
    Blocked_FrameCoWRefused
  | Blocked_OverflowSpillNotWired
  | Blocked_VisibleWinnerExceedsPageBudget
  | Blocked_TombstonePredecessorPressure
  | Blocked_PoolExhausted pool_exhausted_reason
  | Blocked_HistoryDuplicateConflict
  | Blocked_HistoryDuplicateCapExceeded
  | Blocked_ReachabilityRepairRequired

fun checkpoint_reason_for_plan_blocker :: "checkpoint_plan_blocker \<Rightarrow> checkpoint_incomplete_reason" where
  "checkpoint_reason_for_plan_blocker Blocked_FrameCoWRefused = FrameCoWRefused"
| "checkpoint_reason_for_plan_blocker Blocked_OverflowSpillNotWired = OverflowSpillNotWired"
| "checkpoint_reason_for_plan_blocker Blocked_VisibleWinnerExceedsPageBudget = VisibleWinnerExceedsPageBudget"
| "checkpoint_reason_for_plan_blocker Blocked_TombstonePredecessorPressure = TombstonePredecessorPressure"
| "checkpoint_reason_for_plan_blocker (Blocked_PoolExhausted reason) = CIPoolExhausted reason"
| "checkpoint_reason_for_plan_blocker Blocked_HistoryDuplicateConflict = HistoryDuplicateConflict"
| "checkpoint_reason_for_plan_blocker Blocked_HistoryDuplicateCapExceeded = HistoryDuplicateCapExceeded"
| "checkpoint_reason_for_plan_blocker Blocked_ReachabilityRepairRequired = ReachabilityRepairRequired"

definition checkpoint_incomplete_error :: "u32 \<Rightarrow> checkpoint_incomplete_reason \<Rightarrow> error" where
  "checkpoint_incomplete_error first_blocking_page reason = CheckpointIncomplete first_blocking_page reason"

datatype leaf_plan_outcome = MutationReady | SpillRequired | ExcludedFutureDirty

fun synth_to_blocker :: "not_installable \<Rightarrow> checkpoint_plan_blocker" where
  "synth_to_blocker NI_VisibleWinnerExceedsPageBudget = Blocked_VisibleWinnerExceedsPageBudget"
| "synth_to_blocker NI_FoldedLeafExceedsPageByteBudget = Blocked_TombstonePredecessorPressure"

definition plan_leaf :: "(bytes \<Rightarrow> u32) \<Rightarrow> (u32 \<Rightarrow> bytes \<Rightarrow> u32) \<Rightarrow> engine \<Rightarrow> tree_ident \<Rightarrow> u32 \<Rightarrow> ts \<Rightarrow> ts \<Rightarrow> leaf_plan_outcome result" where
  "plan_leaf crc crc_append eng ident p checkpoint_ts oldest_required_ts =
    (case snapshot_leaf_for_reconcile eng p of
       Inl (PoolExhausted reason) \<Rightarrow> Inl (checkpoint_incomplete_error p (checkpoint_reason_for_plan_blocker (Blocked_PoolExhausted reason)))
     | Inl e \<Rightarrow> Inl e
     | Inr None \<Rightarrow> Inr ExcludedFutureDirty
     | Inr (Some (base_image, cm)) \<Rightarrow>
         let blocker_err = (\<lambda>b. checkpoint_incomplete_error p (checkpoint_reason_for_plan_blocker b)) in
         if \<not> list_ex (\<lambda>(_, c). list_ex (\<lambda>e. state e = Committed \<and> start_ts e \<le> checkpoint_ts) c) cm then Inr ExcludedFutureDirty
         else case synthesize_page crc crc_append base_image cm checkpoint_ts oldest_required_ts ident of
           Inr syn \<Rightarrow> if history_spills syn = [] \<and> retained_chains syn = [] then Inr MutationReady else Inr SpillRequired
         | Inl NI_VisibleWinnerExceedsPageBudget \<Rightarrow> (case visible_winners_fit_individual_leaf_pages cm checkpoint_ts of
               Inr True \<Rightarrow> Inr MutationReady
             | Inr False \<Rightarrow> Inl (blocker_err Blocked_VisibleWinnerExceedsPageBudget)
             | Inl reason \<Rightarrow> Inl (blocker_err (synth_to_blocker reason)))
         | Inl reason \<Rightarrow> Inl (blocker_err (synth_to_blocker reason)))"

record checkpoint_tree_plan =
  cp_ident :: tree_ident
  mutation_ready_pages :: "u32 list"
  spill_required_pages :: "u32 list"
  excluded_future_dirty_pages :: "u32 list"

fun plan_pages :: "(u32 \<Rightarrow> leaf_plan_outcome result) \<Rightarrow> u32 list \<Rightarrow> checkpoint_tree_plan \<Rightarrow> checkpoint_tree_plan result" where
  "plan_pages plan [] tp = Inr tp"
| "plan_pages plan (p # ps) tp = rbind (plan p) (\<lambda>out. plan_pages plan ps (case out of
     MutationReady \<Rightarrow> tp\<lparr>mutation_ready_pages := mutation_ready_pages tp @ [p]\<rparr>
   | SpillRequired \<Rightarrow> tp\<lparr>spill_required_pages := spill_required_pages tp @ [p]\<rparr>
   | ExcludedFutureDirty \<Rightarrow> tp\<lparr>excluded_future_dirty_pages := excluded_future_dirty_pages tp @ [p]\<rparr>))"

fun plan_trees :: "(bytes \<Rightarrow> u32) \<Rightarrow> (u32 \<Rightarrow> bytes \<Rightarrow> u32) \<Rightarrow> engine \<Rightarrow> ts \<Rightarrow> ts \<Rightarrow> (tree_ident \<times> u32 list) list \<Rightarrow>
    checkpoint_tree_plan list result" where
  "plan_trees crc crc_append eng ckpt ort [] = Inr []"
| "plan_trees crc crc_append eng ckpt ort ((ident, pages) # ts) =
    rbind (plan_pages (\<lambda>p. plan_leaf crc crc_append eng ident p ckpt ort) pages
      \<lparr>cp_ident = ident, mutation_ready_pages = [], spill_required_pages = [], excluded_future_dirty_pages = []\<rparr>) (\<lambda>tp.
    rbind (plan_trees crc crc_append eng ckpt ort ts) (\<lambda>trees.
      Inr (if mutation_ready_pages tp \<noteq> [] \<or> spill_required_pages tp \<noteq> [] \<or> excluded_future_dirty_pages tp \<noteq> []
           then tp # trees else trees)))"

definition build_checkpoint_reconcile_plan :: "(bytes \<Rightarrow> u32) \<Rightarrow> (u32 \<Rightarrow> bytes \<Rightarrow> u32) \<Rightarrow> engine \<Rightarrow> ts \<Rightarrow> ts \<Rightarrow> checkpoint_tree_plan list result" where
  "build_checkpoint_reconcile_plan crc crc_append eng checkpoint_ts oldest_required_ts =
    plan_trees crc crc_append eng checkpoint_ts oldest_required_ts (map (\<lambda>(ident, pages). (ident, map fst pages)) (dirty_leaves eng))"

section \<open>The pass\<close>

record reconcile_tree_stats =
  rs_dirty_leaves :: nat
  installed :: nat
  not_installable_count :: nat
  history_spill_count :: nat

definition stats_merge :: "reconcile_tree_stats \<Rightarrow> reconcile_tree_stats \<Rightarrow> reconcile_tree_stats" where
  "stats_merge a b = \<lparr>rs_dirty_leaves = rs_dirty_leaves a + rs_dirty_leaves b, installed = installed a + installed b,
     not_installable_count = not_installable_count a + not_installable_count b,
     history_spill_count = history_spill_count a + history_spill_count b\<rparr>"

datatype leaf_install_plan = Planned (pl_page: u32) (pl_synthesized: page_synthesis) | AlreadyMaterialized | NotInstallable

definition plan_leaf_install :: "(bytes \<Rightarrow> u32) \<Rightarrow> (u32 \<Rightarrow> bytes \<Rightarrow> u32) \<Rightarrow> engine \<Rightarrow> tree_ident \<Rightarrow> u32 \<Rightarrow> ts \<Rightarrow> ts \<Rightarrow> bool \<Rightarrow>
    leaf_install_plan result" where
  "plan_leaf_install crc crc_append eng ident p checkpoint_ts oldest_required_ts allow_split_materialized_pages =
    rbind (snapshot_leaf_for_reconcile eng p) (\<lambda>snapshot. case snapshot of
      None \<Rightarrow> Inr (if allow_split_materialized_pages then AlreadyMaterialized else NotInstallable)
    | Some (base_image, cm) \<Rightarrow>
        Inr (case synthesize_page crc crc_append base_image cm checkpoint_ts oldest_required_ts ident of
          Inr syn \<Rightarrow> Planned p syn
        | Inl NI_VisibleWinnerExceedsPageBudget \<Rightarrow>
            if allow_split_materialized_pages \<and> (case visible_winners_fit_individual_leaf_pages cm checkpoint_ts of Inr b \<Rightarrow> b | Inl _ \<Rightarrow> False)
            then AlreadyMaterialized else NotInstallable
        | Inl _ \<Rightarrow> NotInstallable))"

fun stage_spills :: "(version_entry \<Rightarrow> bool) \<Rightarrow> history_spill list \<Rightarrow> history_spill list \<Rightarrow> history_spill list result" where
  "stage_spills try_clone txn [] = Inr txn"
| "stage_spills try_clone txn (w # ws) =
    rbind (if tree_kind_of (hs_ident w) = Primary
           then spill_primary try_clone txn (hs_ident w) (hs_key w) (hs_entry w) (hs_counter w)
           else spill_sec_index try_clone txn (hs_ident w) (hs_key w) (hs_entry w) (hs_counter w)) (\<lambda>txn.
      stage_spills try_clone txn ws)"

definition stage_history_spills :: "(version_entry \<Rightarrow> bool) \<Rightarrow> history_spill list \<Rightarrow> page_synthesis \<Rightarrow> history_spill list result" where
  "stage_history_spills try_clone txn syn = stage_spills try_clone txn (history_spills syn)"

definition commit_staged_history_spills :: "unit result \<Rightarrow> history_spill list \<Rightarrow> engine \<Rightarrow> unit result \<times> engine" where
  "commit_staged_history_spills flush txn eng =
    (if txn = [] then (Inr (), eng)
     else case commit_spill_txn (eng_history eng) txn of
       Inl e \<Rightarrow> (Inl e, eng)
     | Inr t \<Rightarrow> (flush, eng\<lparr>eng_history := t\<rparr>))"

definition install_planned_leaf :: "engine \<Rightarrow> u32 \<Rightarrow> page_synthesis \<Rightarrow> bool result \<times> engine" where
  "install_planned_leaf eng p syn =
    (let replace_err = (\<lambda>err. case err of
           NotResident \<Rightarrow> Inr False
         | NotLeaf \<Rightarrow> Inl (Internal ''dirty-leaf reconcile target is not a leaf page'')) in
     case pin_leaves_for_reconcile eng [p] of
       Inl err \<Rightarrow> (replace_err err, eng)
     | Inr _ \<Rightarrow> (case replace_leaf_and_chains eng p (new_base syn) (retained_chains syn) of
         (Inr _, eng') \<Rightarrow> (Inr True, eng')
       | (Inl err, eng') \<Rightarrow> (replace_err err, eng')))"

text \<open>Phase 1 of a chunk: the pages one by one, with their spills staged.\<close>

definition push_at :: "nat \<Rightarrow> 'a \<Rightarrow> 'a list list \<Rightarrow> 'a list list" where
  "push_at i x xss = xss[i := xss ! i @ [x]]"

fun plan_chunk :: "(tree_ident \<Rightarrow> u32 \<Rightarrow> leaf_install_plan result) \<Rightarrow> (version_entry \<Rightarrow> bool) \<Rightarrow> tree_ident list \<Rightarrow> (nat \<times> u32) list \<Rightarrow>
    reconcile_tree_stats \<Rightarrow> u32 list list \<Rightarrow> history_spill list \<Rightarrow> (nat \<times> u32 \<times> page_synthesis) list \<Rightarrow>
    (reconcile_tree_stats \<times> u32 list list \<times> history_spill list \<times> (nat \<times> u32 \<times> page_synthesis) list) result" where
  "plan_chunk plan try_clone idents [] st fin txn planned = Inr (st, fin, txn, planned)"
| "plan_chunk plan try_clone idents ((tree_idx, p) # items) st fin txn planned =
    rbind (plan (idents ! tree_idx) p) (\<lambda>out. case out of
      Planned page syn \<Rightarrow> rbind (stage_history_spills try_clone txn syn) (\<lambda>txn.
        plan_chunk plan try_clone idents items st fin txn (planned @ [(tree_idx, page, syn)]))
    | AlreadyMaterialized \<Rightarrow>
        plan_chunk plan try_clone idents items (st\<lparr>installed := installed st + 1\<rparr>) (push_at tree_idx p fin) txn planned
    | NotInstallable \<Rightarrow>
        plan_chunk plan try_clone idents items (st\<lparr>not_installable_count := not_installable_count st + 1\<rparr>) fin txn planned)"

text \<open>Phase 3: the installs.\<close>

fun install_chunk :: "(nat \<times> u32 \<times> page_synthesis) list \<Rightarrow> reconcile_tree_stats \<Rightarrow> u32 list list \<Rightarrow> engine \<Rightarrow>
    (reconcile_tree_stats \<times> u32 list list) result \<times> engine" where
  "install_chunk [] st fin eng = (Inr (st, fin), eng)"
| "install_chunk ((tree_idx, p, syn) # planned) st fin eng = (case install_planned_leaf eng p syn of
     (Inl e, eng) \<Rightarrow> (Inl e, eng)
   | (Inr True, eng) \<Rightarrow> install_chunk planned (st\<lparr>installed := installed st + 1,
         history_spill_count := history_spill_count st + length (history_spills syn)\<rparr>) (push_at tree_idx p fin) eng
   | (Inr False, eng) \<Rightarrow> install_chunk planned (st\<lparr>not_installable_count := not_installable_count st + 1\<rparr>) fin eng)"

definition RECONCILE_CHUNK_PAGES :: nat where "RECONCILE_CHUNK_PAGES = 64"

fun reconcile_chunks :: "(bytes \<Rightarrow> u32) \<Rightarrow> (u32 \<Rightarrow> bytes \<Rightarrow> u32) \<Rightarrow> (version_entry \<Rightarrow> bool) \<Rightarrow> (nat \<Rightarrow> unit result) \<Rightarrow> tree_ident list \<Rightarrow>
    ts \<Rightarrow> ts \<Rightarrow> bool \<Rightarrow> (nat \<times> u32) list list \<Rightarrow> reconcile_tree_stats \<Rightarrow> u32 list list \<Rightarrow> engine \<Rightarrow>
    (reconcile_tree_stats \<times> u32 list list) result \<times> engine" where
  "reconcile_chunks crc crc_append try_clone flush idents ckpt ort allow [] st fin eng = (Inr (st, fin), eng)"
| "reconcile_chunks crc crc_append try_clone flush idents ckpt ort allow (chunk # cs) st fin eng =
    (case plan_chunk (\<lambda>ident p. plan_leaf_install crc crc_append eng ident p ckpt ort allow) try_clone idents chunk st fin [] [] of
       Inl e \<Rightarrow> (Inl e, eng)
     | Inr (st, fin, txn, planned) \<Rightarrow> (case commit_staged_history_spills (flush (length cs)) txn eng of
         (Inl e, eng) \<Rightarrow> (Inl e, eng)
       | (Inr _, eng) \<Rightarrow> (case install_chunk planned st fin eng of
           (Inl e, eng) \<Rightarrow> (Inl e, eng)
         | (Inr (st, fin), eng) \<Rightarrow> reconcile_chunks crc crc_append try_clone flush idents ckpt ort allow cs st fin eng)))"

text \<open>The installed pages leave the record of dirty leaves.\<close>

definition clear_dirty :: "tree_ident \<times> u32 list \<Rightarrow> (tree_ident \<times> (u32, leaf_state) smap) list \<Rightarrow> (tree_ident \<times> (u32, leaf_state) smap) list" where
  "clear_dirty = (\<lambda>(ident, pages) dirty.
     if pages = [] then dirty
     else filter (\<lambda>(i, m). \<not> (i = ident \<and> m = []))
       (map (\<lambda>(i, m). if i = ident then (i, fold sm_remove pages m) else (i, m)) dirty))"

definition work_items :: "(tree_ident \<times> u32 list) list \<Rightarrow> (nat \<times> u32) list" where
  "work_items work = concat (map (\<lambda>(tree_idx, _, pages). map (Pair tree_idx) pages) (enumerate 0 work))"

definition reconcile_trees_dirty_sets :: "(bytes \<Rightarrow> u32) \<Rightarrow> (u32 \<Rightarrow> bytes \<Rightarrow> u32) \<Rightarrow> (version_entry \<Rightarrow> bool) \<Rightarrow> (nat \<Rightarrow> unit result) \<Rightarrow>
    engine \<Rightarrow> (tree_ident \<times> u32 list) list \<Rightarrow> ts \<Rightarrow> ts \<Rightarrow> bool \<Rightarrow> reconcile_tree_stats result \<times> engine" where
  "reconcile_trees_dirty_sets crc crc_append try_clone flush eng work checkpoint_ts oldest_required_ts allow_split_materialized_pages =
    (let items = work_items work;
         st = \<lparr>rs_dirty_leaves = length items, installed = 0, not_installable_count = 0, history_spill_count = 0\<rparr> in
     case reconcile_chunks crc crc_append try_clone flush (map fst work) checkpoint_ts oldest_required_ts allow_split_materialized_pages
         (chunks RECONCILE_CHUNK_PAGES items) st (replicate (length work) []) eng of
       (Inl e, eng) \<Rightarrow> (Inl e, eng)
     | (Inr (st, fin), eng) \<Rightarrow>
         (Inr st, eng\<lparr>dirty_leaves := fold clear_dirty (zip (map fst work) fin) (dirty_leaves eng)\<rparr>))"

definition reconcile_tree_dirty_set :: "(bytes \<Rightarrow> u32) \<Rightarrow> (u32 \<Rightarrow> bytes \<Rightarrow> u32) \<Rightarrow> (version_entry \<Rightarrow> bool) \<Rightarrow> (nat \<Rightarrow> unit result) \<Rightarrow>
    engine \<Rightarrow> tree_ident \<Rightarrow> u32 list \<Rightarrow> ts \<Rightarrow> ts \<Rightarrow> bool \<Rightarrow> reconcile_tree_stats result \<times> engine" where
  "reconcile_tree_dirty_set crc crc_append try_clone flush eng ident dirty_pages =
    reconcile_trees_dirty_sets crc crc_append try_clone flush eng [(ident, dirty_pages)]"

section \<open>Rewriting a leaf page changes no other read\<close>

text \<open>Replacing one leaf image by another leaves every descent and every overflow chain as it
  was: both check the type byte of each page they read.\<close>

definition rewrite_leaf :: "pool_store \<Rightarrow> u32 \<Rightarrow> bytes \<Rightarrow> chain_map \<Rightarrow> pool_store" where
  "rewrite_leaf s q base cm = s\<lparr>ps_slots := write_page (ps_slots s) q base, ps_chains := (ps_chains s)(q := cm)\<rparr>"

definition leaf_image :: "bytes \<Rightarrow> bool" where
  "leaf_image b \<longleftrightarrow> length b = PAGE_SIZE_LEAF \<and> hd b = PAGE_TYPE_LEAF"

lemma leaf_image_type: "leaf_image b \<Longrightarrow> b ! 0 = PAGE_TYPE_LEAF"
  by (cases b) (auto simp: leaf_image_def PAGE_SIZE_LEAF_def)

lemma leaf_image_not_internal: "leaf_image b \<Longrightarrow> internal_parse (take PAGE_SIZE_INTERNAL b) = Inl (Internal ''expected internal page type 0x01'')"
  by (simp add: internal_parse_def internal_from_bytes_def internal_validate_type_def leaf_image_type PAGE_TYPE_LEAF_def
      PAGE_TYPE_INTERNAL_def PAGE_SIZE_INTERNAL_def INTERNAL_HEADER_SIZE_def PAGE_SIZE_LEAF_def leaf_image_def [of b])

lemma leaf_image_not_overflow:
  "leaf_image b \<Longrightarrow> rbind (overflow_from_bytes b) (\<lambda>hdr. rbind (overflow_validate_type hdr) (f hdr)) = Inl (Internal ''expected overflow page type 0x05'')"
  by (simp add: overflow_from_bytes_def overflow_validate_type_def leaf_image_type PAGE_TYPE_LEAF_def PAGE_TYPE_OVERFLOW_def
      OVERFLOW_HEADER_SIZE_def PAGE_SIZE_LEAF_def leaf_image_def [of b])

lemma rewrite_slots:
  assumes "slots_ok (ps_slots s)" "leaf_image base"
  shows "ps_slots (rewrite_leaf s q base cm) = (ps_slots s)(q := base)" "slots_ok (ps_slots (rewrite_leaf s q base cm))"
    "is_history (rewrite_leaf s q base cm) = is_history s" "ps_chains (rewrite_leaf s q base cm) = (ps_chains s)(q := cm)"
  using assms by (auto simp: rewrite_leaf_def write_page_def slots_ok_def leaf_image_def put_def)

lemma read_page_slots: "slots_ok sl \<Longrightarrow> read_page sl p Large32k = sl p" "read_page sl p Small4k = take PAGE_SIZE_INTERNAL (sl p)"
  by (simp_all add: read_page_def slots_ok_def PAGE_SIZE_LEAF_def PAGE_SIZE_INTERNAL_def)

lemma rewrite_reads:
  assumes "slots_ok (ps_slots s)" "leaf_image (ps_slots s q)" "leaf_image base"
  shows "descend pool_ops (rewrite_leaf s q base cm) = descend pool_ops s"
    "read_overflow_chain pool_ops (rewrite_leaf s q base cm) = read_overflow_chain pool_ops s"
proof -
  let ?s = "rewrite_leaf s q base cm"
  note r = rewrite_slots [OF assms(1,3), of q cm]
  have step: "rbind (op_read_internal pool_ops ?s p) (\<lambda>buf. rbind (internal_parse buf) f) =
      rbind (op_read_internal pool_ops s p) (\<lambda>buf. rbind (internal_parse buf) f)" for p f
    using leaf_image_not_internal [OF assms(2)] leaf_image_not_internal [OF assms(3)]
    by (simp add: pool_ops_def pool_read_internal_def r(1) read_page_slots)
  have "descend pool_ops ?s pick l p = descend pool_ops s pick l p" for pick l p
    by (induction l arbitrary: p) (simp_all add: step)
  then show "descend pool_ops ?s = descend pool_ops s" by (intro ext)
  have head: "overflow_header_at pool_ops ?s p = overflow_header_at pool_ops s p" for p
    by (simp add: leaf_image_not_overflow [OF assms(2)] leaf_image_not_overflow [OF assms(3)] overflow_header_at_def pool_ops_def pool_read_leaf_def r(1) read_page_slots(1) [OF r(2), unfolded r(1)]
        read_page_slots(1) [OF assms(1)])
  have "read_overflow_loop pool_ops ?s b p acc = read_overflow_loop pool_ops s b p acc" for b p acc
    by (induction b arbitrary: p acc) (simp_all add: head Let_def cong: if_cong)
  then show "read_overflow_chain pool_ops ?s = read_overflow_chain pool_ops s" by (intro ext) (simp add: read_overflow_chain_def)
qed

lemma rewrite_read_key:
  assumes "slots_ok (ps_slots s)" "leaf_image (ps_slots s q)" "leaf_image base"
  shows "read_key pool_ops (rewrite_leaf s q base cm) = read_key pool_ops s"
proof -
  note r = rewrite_reads(2) [OF assms, of cm]
  have c: "resolve_cell_value pool_ops (rewrite_leaf s q base cm) = resolve_cell_value pool_ops s"
    by (intro ext) (simp add: resolve_cell_value_def r split: cell_value.split)
  have e: "entry_value pool_ops (rewrite_leaf s q base cm) = entry_value pool_ops s"
    by (intro ext) (simp add: entry_value_def resolve_version_data_def r split: version_data.split)
  show ?thesis by (intro ext) (simp only: read_key_def c e)
qed

lemma get_mvcc_at:
  assumes "find_leaf pool_ops s bt k = Inr p" "\<not> is_history s" "slots_ok (ps_slots s)"
  shows "get_mvcc pool_ops s bt k v h = read_key pool_ops s v h (ps_slots s p) (Some (ps_chains s p)) k"
proof -
  have "read_leaf_for_point_key pool_ops s bt k = Inr (p, ps_slots s p, Some (case sm_get (ps_chains s p) k of None \<Rightarrow> [] | Some c \<Rightarrow> [(k, c)]))"
    using assms by (simp add: read_leaf_for_point_key_def find_leaf_def pool_ops_def pool_read_leaf_for_key_def read_page_slots)
  moreover have "sm_get (case sm_get (ps_chains s p) k of None \<Rightarrow> [] | Some c \<Rightarrow> [(k, c)]) k = sm_get (ps_chains s p) k"
    by (auto simp: sm_get_def split: option.splits)
  ultimately show ?thesis
    using read_key_snap [of "Some (case sm_get (ps_chains s p) k of None \<Rightarrow> [] | Some c \<Rightarrow> [(k, c)])" k "Some (ps_chains s p)"]
    by (simp add: get_mvcc_def)
qed


section \<open>The steps of a pass\<close>

text \<open>The read of one key through one tree, and what the state must be for it to be a read of
  a leaf.\<close>

definition engine_read :: "engine \<Rightarrow> overflow_alloc \<Rightarrow> tree_ident \<Rightarrow> btree \<Rightarrow> bytes \<Rightarrow> view \<Rightarrow> bytes option result" where
  "engine_read eng alloc ident bt k v = get_mvcc pool_ops (eng_pool eng) bt k v (Some (history_of (eng_history eng) alloc ident))"

definition steady :: "engine \<Rightarrow> overflow_alloc \<Rightarrow> tree_ident \<Rightarrow> btree \<Rightarrow> bytes \<Rightarrow> u32 \<Rightarrow> bool" where
  "steady eng alloc ident bt k p \<longleftrightarrow>
    slots_ok (ps_slots (eng_pool eng)) \<and> \<not> is_history (eng_pool eng) \<and> find_leaf pool_ops (eng_pool eng) bt k = Inr p \<and>
    (\<exists>n. parse (ps_slots (eng_pool eng) p) = Inr n \<and> sorted_cells (ln_cells n)) \<and> sm_inv (ps_chains (eng_pool eng) p) \<and>
    hist_ok (eng_history eng) \<and> length k < 2 ^ 32 \<and> readable_at (eng_history eng) alloc ident k"

definition key_chain :: "engine \<Rightarrow> u32 \<Rightarrow> bytes \<Rightarrow> chain" where
  "key_chain eng p k = chain_of (ps_chains (eng_pool eng) p) k"

lemma engine_read_key:
  assumes "steady eng alloc ident bt k p"
  shows "engine_read eng alloc ident bt k v = read_key pool_ops (eng_pool eng) v (Some (history_of (eng_history eng) alloc ident))
    (ps_slots (eng_pool eng) p) (Some (ps_chains (eng_pool eng) p)) k"
  using assms get_mvcc_at by (simp add: engine_read_def steady_def)

text \<open>A commit of spills, of which those of the key are versions on its chain.\<close>

lemma commit_step:
  assumes st: "steady eng alloc ident bt k p" and c: "commit_spill_txn (eng_history eng) ws = Inr t" "spill_ok ws"
    and w: "\<forall>x \<in> set ws. hs_ident x = ident \<longrightarrow> hs_key x = k \<longrightarrow>
      hs_entry x \<in> set (key_chain eng p k) \<and> candidate ckpt (hs_entry x) \<and> readable alloc (hs_entry x)"
    and v: "(\<forall>x \<in> set ws. hs_ident x = ident \<longrightarrow> hs_key x \<noteq> k) \<or> protected ckpt v (key_chain eng p k)"
  shows "steady (eng\<lparr>eng_history := t\<rparr>) alloc ident bt k p"
    "engine_read (eng\<lparr>eng_history := t\<rparr>) alloc ident bt k v = engine_read eng alloc ident bt k v"
    "history_behind (eng_history eng) ident k (key_chain eng p k) \<Longrightarrow> history_behind t ident k (key_chain eng p k)"
proof -
  have ok: "hist_ok (eng_history eng)" "length k < 2 ^ 32" "readable_at (eng_history eng) alloc ident k" using st by (simp_all add: steady_def)
  note h = commit_spill_stored [OF ok(1) c(2,1)]
  have stored: "hist_stored t ident k m x \<Longrightarrow> hist_stored (eng_history eng) ident k m x \<or>
      x \<in> set (key_chain eng p k) \<and> candidate ckpt x \<and> readable alloc x" for m x
    using h w by fastforce
  have re: "readable_at t alloc ident k" using stored ok(3) by (auto simp: readable_at_def)
  then show st': "steady (eng\<lparr>eng_history := t\<rparr>) alloc ident bt k p" using st h by (simp add: steady_def)
  show "history_behind (eng_history eng) ident k (key_chain eng p k) \<Longrightarrow> history_behind t ident k (key_chain eng p k)"
    using stored by (auto simp: history_behind_def candidate_def)
  have same: "history_of t alloc ident k r = history_of (eng_history eng) alloc ident k r" if "\<forall>x \<in> set ws. hs_ident x = ident \<longrightarrow> hs_key x \<noteq> k" for r
    unfolding history_of_def
    by (rule probe_same [OF ok(1) conjunct1 [OF h] ok(2) re]) (use h that in fastforce)
  obtain n where n: "parse (ps_slots (eng_pool eng) p) = Inr n" "sorted_cells (ln_cells n)" using st by (auto simp: steady_def)
  show "engine_read (eng\<lparr>eng_history := t\<rparr>) alloc ident bt k v = engine_read eng alloc ident bt k v"
  proof (cases "visible_in (key_chain eng p k) v")
    case None
    then have "\<forall>x \<in> set ws. hs_ident x = ident \<longrightarrow> hs_key x \<noteq> k" using v w by (auto simp: protected_def)
    from same [OF this] show ?thesis
      unfolding engine_read_key [OF st] engine_read_key [OF st'] by (simp add: read_key_def split: option.split)
  next
    case (Some e)
    then have e: "visible_in (chain_of (ps_chains (eng_pool eng) p) k) v = Some e" by (simp add: key_chain_def)
    show ?thesis unfolding engine_read_key [OF st] engine_read_key [OF st'] by (simp add: read_key_cases(1) [OF n e])
  qed
qed

lemma rewrite_other_step:
  assumes st: "steady eng alloc ident bt k p" and q: "q \<noteq> p" "leaf_image (ps_slots (eng_pool eng) q)" "leaf_image base"
    and eng': "eng' = eng\<lparr>eng_pool := rewrite_leaf (eng_pool eng) q base cm\<rparr>"
  shows "steady eng' alloc ident bt k p" "engine_read eng' alloc ident bt k v = engine_read eng alloc ident bt k v"
    "key_chain eng' p k = key_chain eng p k"
proof -
  have sl: "slots_ok (ps_slots (eng_pool eng))" using st by (simp add: steady_def)
  note r = rewrite_slots [OF sl q(3), of q cm] and d = rewrite_reads(1) [OF sl q(2,3), of cm]
  show st': "steady eng' alloc ident bt k p" using st r q(1) by (simp add: steady_def eng' find_leaf_def d)
  show "key_chain eng' p k = key_chain eng p k" using q(1) by (simp add: key_chain_def eng' r)
  show "engine_read eng' alloc ident bt k v = engine_read eng alloc ident bt k v"
    unfolding engine_read_key [OF st] engine_read_key [OF st'] using q(1) by (simp add: eng' r rewrite_read_key [OF sl q(2,3)])
qed

lemma install_step:
  assumes st: "steady eng alloc ident bt k p" and p: "leaf_image (ps_slots (eng_pool eng) p)"
    and syn: "synthesize_page crc crc_append (ps_slots (eng_pool eng) p) (ps_chains (eng_pool eng) p) ckpt ort ident = Inr syn"
    and h: "\<forall>x \<in> set (history_spills syn). hs_key x = k \<longrightarrow> hist_stored (eng_history eng) (hs_ident x) (hs_key x) (hs_counter x) (hs_entry x)"
    and v: "ort \<le> read_ts v" "protected ckpt v (key_chain eng p k)" "history_behind (eng_history eng) ident k (key_chain eng p k)"
    and eng': "eng' = eng\<lparr>eng_pool := rewrite_leaf (eng_pool eng) p (new_base syn) (retained_chains syn)\<rparr>"
  shows "steady eng' alloc ident bt k p" "engine_read eng' alloc ident bt k v = engine_read eng alloc ident bt k v"
proof -
  obtain n where n: "parse (ps_slots (eng_pool eng) p) = Inr n" "sorted_cells (ln_cells n)" and sl: "slots_ok (ps_slots (eng_pool eng))"
      and inv: "sm_inv (ps_chains (eng_pool eng) p)" and k: "hist_ok (eng_history eng)" "length k < 2 ^ 32" "readable_at (eng_history eng) alloc ident k"
    using st by (auto simp: steady_def)
  obtain n' where n': "parse (new_base syn) = Inr n'" "leaf_image (new_base syn)" "sorted_cells (ln_cells n')" "sm_inv (retained_chains syn)"
    using synthesize_ok [OF syn n inv] by (metis leaf_image_def)
  note r = rewrite_slots [OF sl n'(2), of p "retained_chains syn"]
  show st': "steady eng' alloc ident bt k p"
    using st r n' by (simp add: steady_def eng' find_leaf_def rewrite_reads(1) [OF sl p n'(2)])
  show "engine_read eng' alloc ident bt k v = engine_read eng alloc ident bt k v"
    unfolding engine_read_key [OF st] engine_read_key [OF st']
    using fold_keeps_read [OF syn n inv k(1) h k(2,3) v(1), of pool_ops "eng_pool eng"] v(2,3)
    by (simp add: eng' r rewrite_read_key [OF sl p n'(2)] key_chain_def)
qed

section \<open>A whole pass\<close>

lemma install_planned_cases:
  assumes "install_planned_leaf eng q syn = (r, eng')" "slots_ok (ps_slots (eng_pool eng))"
  shows "eng' = eng \<or> leaf_image (ps_slots (eng_pool eng) q) \<and> leaf_image (new_base syn) \<and>
    eng' = eng\<lparr>eng_pool := rewrite_leaf (eng_pool eng) q (new_base syn) (retained_chains syn)\<rparr>"
proof (cases "resident eng q \<and> leaf_image (ps_slots (eng_pool eng) q) \<and> leaf_image (new_base syn)")
  case True
  then have "pin_leaves_for_reconcile eng [q] = Inr [q]" "length (new_base syn) = 32768" "new_base syn \<noteq> []"
    by (auto simp: pin_leaves_for_reconcile_def frame_image_def read_page_slots(1) [OF assms(2)] leaf_image_def PAGE_SIZE_LEAF_def)
  then show ?thesis using True assms(1)
    by (simp add: install_planned_leaf_def Let_def replace_leaf_and_chains_def leaf_image_def rewrite_leaf_def)
next
  case False
  have len: "length (ps_slots (eng_pool eng) q) = PAGE_SIZE_LEAF" using assms(2) by (simp add: slots_ok_def)
  have "eng' = eng"
  proof (cases "pin_leaves_for_reconcile eng [q]")
    case Inr
    then have "\<not> leaf_image (new_base syn)" using False len
      by (auto simp: pin_leaves_for_reconcile_def frame_image_def read_page_slots(1) [OF assms(2)] leaf_image_def split: if_splits)
    then show ?thesis using Inr assms(1)
      by (auto simp: install_planned_leaf_def Let_def replace_leaf_and_chains_def leaf_image_def PAGE_SIZE_LEAF_def split: if_splits)
  qed (use assms(1) in \<open>simp add: install_planned_leaf_def Let_def\<close>)
  then show ?thesis by blast
qed

lemma stage_spills_append: "stage_spills tc txn ws = Inr txn' \<Longrightarrow> txn' = txn @ ws"
proof (induction ws arbitrary: txn)
  case (Cons w ws)
  obtain u where "u = txn @ [w]" "stage_spills tc u ws = Inr txn'"
    using Cons.prems by (cases w) (auto simp: rbind_Inr_iff spill_primary_def spill_sec_index_def stage_def split: if_splits)
  then show ?case using Cons.IH [of u] by simp
qed simp

lemma synthesize_spills:
  assumes "synthesize_page crc crc_append img cm ckpt ort ident = Inr res" "x \<in> set (history_spills res)"
  shows "hs_ident x = ident \<and> candidate ckpt (hs_entry x) \<and> (\<exists>c. (hs_key x, c) \<in> set cm \<and> hs_entry x \<in> set c)"
proof -
  obtain d b r where "synth_chains ident ckpt ort cm d [] [] = Inr (b, r, history_spills res)"
    using assms(1) by (auto simp: synthesize_page_def Let_def rbind_Inr_iff case_err_Inr)
  from synth_chains_spilled(1) [OF this assms(2)] show ?thesis by (auto simp: spills_def)
qed

text \<open>What phase 1 plans, and the transaction it stages.\<close>

lemma plan_chunk_ok:
  assumes "plan_chunk (\<lambda>ident p. plan_leaf_install crc crc_append eng ident p ckpt ort allow) tc idents items st fin txn planned =
      Inr (st', fin', txn', planned')" "distinct (map snd items)"
  obtains pl where "planned' = planned @ pl" "set txn' = set txn \<union> (\<Union>(i, q, syn) \<in> set pl. set (history_spills syn))"
    "distinct (map (\<lambda>x. fst (snd x)) pl)" "(\<lambda>(i, q, syn). (i, q)) ` set pl \<subseteq> set items"
    "\<forall>(i, q, syn) \<in> set pl. synthesize_page crc crc_append (frame_image eng q) (ps_chains (eng_pool eng) q) ckpt ort (idents ! i) = Inr syn"
  using assms
proof (induction items arbitrary: st fin txn planned thesis)
  case Nil
  then show ?case by (intro Nil(1) [of "[]"]) simp_all
next
  case (Cons a items)
  obtain i q where a: "a = (i, q)" by force
  obtain out where out: "plan_leaf_install crc crc_append eng (idents ! i) q ckpt ort allow = Inr out"
    using Cons.prems(2) by (auto simp: a rbind_Inr_iff)
  show ?case
  proof (cases out)
    case (Planned page syn)
    have p: "page = q" and syn: "synthesize_page crc crc_append (frame_image eng q) (ps_chains (eng_pool eng) q) ckpt ort (idents ! i) = Inr syn"
      using out Planned by (auto simp: plan_leaf_install_def snapshot_leaf_for_reconcile_def rbind_Inr_iff
          split: if_splits option.splits sum.splits not_installable.splits)
    obtain u where u: "stage_history_spills tc txn syn = Inr u"
        "plan_chunk (\<lambda>ident p. plan_leaf_install crc crc_append eng ident p ckpt ort allow) tc idents items st fin u (planned @ [(i, q, syn)]) =
          Inr (st', fin', txn', planned')"
      using Cons.prems(2) out Planned p by (auto simp: a rbind_Inr_iff)
    have u': "u = txn @ history_spills syn" using stage_spills_append u(1) by (simp add: stage_history_spills_def)
    have d: "distinct (map snd items)" "q \<notin> snd ` set items" using Cons.prems(3) by (auto simp: a)
    obtain pl where pl: "planned' = (planned @ [(i, q, syn)]) @ pl" "set txn' = set u \<union> (\<Union>(i, q, syn) \<in> set pl. set (history_spills syn))"
        "distinct (map (\<lambda>x. fst (snd x)) pl)" "(\<lambda>(i, q, syn). (i, q)) ` set pl \<subseteq> set items"
        "\<forall>(i, q, syn) \<in> set pl. synthesize_page crc crc_append (frame_image eng q) (ps_chains (eng_pool eng) q) ckpt ort (idents ! i) = Inr syn"
      by (rule Cons.IH [OF _ u(2) d(1)])
    have "q \<notin> (\<lambda>x. fst (snd x)) ` set pl" using pl(4) d(2) by force
    then show ?thesis using pl syn by (intro Cons.prems(1) [of "(i, q, syn) # pl"]) (auto simp: a u')
  next
    case AlreadyMaterialized
    have rest: "plan_chunk (\<lambda>ident p. plan_leaf_install crc crc_append eng ident p ckpt ort allow) tc idents items (st\<lparr>installed := installed st + 1\<rparr>) (push_at i q fin) txn planned = Inr (st', fin', txn', planned')" and d: "distinct (map snd items)"
      using Cons.prems(2,3) out AlreadyMaterialized by (simp_all add: a)
    obtain pl where "planned' = planned @ pl" "set txn' = set txn \<union> (\<Union>(i, q, syn) \<in> set pl. set (history_spills syn))"
        "distinct (map (\<lambda>x. fst (snd x)) pl)" "(\<lambda>(i, q, syn). (i, q)) ` set pl \<subseteq> set items"
        "\<forall>(i, q, syn) \<in> set pl. synthesize_page crc crc_append (frame_image eng q) (ps_chains (eng_pool eng) q) ckpt ort (idents ! i) = Inr syn"
      by (rule Cons.IH [OF _ rest d])
    then show ?thesis by (intro Cons.prems(1)) auto
  next
    case NotInstallable
    have rest: "plan_chunk (\<lambda>ident p. plan_leaf_install crc crc_append eng ident p ckpt ort allow) tc idents items (st\<lparr>not_installable_count := not_installable_count st + 1\<rparr>) fin txn planned = Inr (st', fin', txn', planned')" and d: "distinct (map snd items)"
      using Cons.prems(2,3) out NotInstallable by (simp_all add: a)
    obtain pl where "planned' = planned @ pl" "set txn' = set txn \<union> (\<Union>(i, q, syn) \<in> set pl. set (history_spills syn))"
        "distinct (map (\<lambda>x. fst (snd x)) pl)" "(\<lambda>(i, q, syn). (i, q)) ` set pl \<subseteq> set items"
        "\<forall>(i, q, syn) \<in> set pl. synthesize_page crc crc_append (frame_image eng q) (ps_chains (eng_pool eng) q) ckpt ort (idents ! i) = Inr syn"
      by (rule Cons.IH [OF _ rest d])
    then show ?thesis by (intro Cons.prems(1)) auto
  qed
qed

text \<open>Phase 3 keeps the read when the history store holds the spills of the key's page.\<close>

lemma install_chunk_keeps:
  assumes "install_chunk pl st fin eng = (r, eng')" "steady eng alloc ident bt k p" "distinct (map (\<lambda>x. fst (snd x)) pl)"
    and "\<forall>(i, q, syn) \<in> set pl. q = p \<longrightarrow>
      synthesize_page crc crc_append (ps_slots (eng_pool eng) p) (ps_chains (eng_pool eng) p) ckpt ort ident = Inr syn \<and>
      (\<forall>x \<in> set (history_spills syn). hs_key x = k \<longrightarrow> hist_stored (eng_history eng) (hs_ident x) (hs_key x) (hs_counter x) (hs_entry x)) \<and>
      protected ckpt v (key_chain eng p k) \<and> history_behind (eng_history eng) ident k (key_chain eng p k)"
    and "ort \<le> read_ts v"
  shows "steady eng' alloc ident bt k p \<and> engine_read eng' alloc ident bt k v = engine_read eng alloc ident bt k v \<and>
    eng_history eng' = eng_history eng \<and> (\<forall>q. q \<notin> (\<lambda>x. fst (snd x)) ` set pl \<longrightarrow> ps_chains (eng_pool eng') q = ps_chains (eng_pool eng) q)"
  using assms
proof (induction pl arbitrary: eng st fin)
  case (Cons a pl)
  obtain i q syn where a: "a = (i, q, syn)" by (cases a) auto
  obtain b eng1 where b: "install_planned_leaf eng q syn = (b, eng1)" by force
  have sl: "slots_ok (ps_slots (eng_pool eng))" using Cons.prems(2) by (simp add: steady_def)
  have rest: "eng' = eng1 \<or> (\<exists>st fin. install_chunk pl st fin eng1 = (r, eng'))"
    using Cons.prems(1) b by (auto simp: a split: sum.splits bool.splits)
  have q: "q \<notin> (\<lambda>x. fst (snd x)) ` set pl" "distinct (map (\<lambda>x. fst (snd x)) pl)" using Cons.prems(3) by (auto simp: a)
  consider "eng1 = eng" | "leaf_image (ps_slots (eng_pool eng) q)" "leaf_image (new_base syn)"
      "eng1 = eng\<lparr>eng_pool := rewrite_leaf (eng_pool eng) q (new_base syn) (retained_chains syn)\<rparr>"
    using install_planned_cases [OF b sl] by blast
  then have one: "steady eng1 alloc ident bt k p \<and> engine_read eng1 alloc ident bt k v = engine_read eng alloc ident bt k v \<and>
      eng_history eng1 = eng_history eng \<and> (\<forall>x. x \<noteq> q \<longrightarrow> ps_chains (eng_pool eng1) x = ps_chains (eng_pool eng) x \<and>
        ps_slots (eng_pool eng1) x = ps_slots (eng_pool eng) x)"
  proof cases
    case 2
    note fr = rewrite_slots [OF sl 2(2), of q "retained_chains syn"]
    show ?thesis
    proof (cases "q = p")
      case True
      have s: "synthesize_page crc crc_append (ps_slots (eng_pool eng) p) (ps_chains (eng_pool eng) p) ckpt ort ident = Inr syn"
          "\<forall>x \<in> set (history_spills syn). hs_key x = k \<longrightarrow> hist_stored (eng_history eng) (hs_ident x) (hs_key x) (hs_counter x) (hs_entry x)"
          "protected ckpt v (key_chain eng p k)" "history_behind (eng_history eng) ident k (key_chain eng p k)"
        using Cons.prems(4) True by (simp_all add: a)
      from install_step [OF Cons.prems(2) 2(1) [unfolded True] s(1,2) Cons.prems(5) s(3,4) 2(3) [unfolded True]] show ?thesis
        using fr True 2(3) by simp
    next
      case False
      from rewrite_other_step [OF Cons.prems(2) False 2(1,2,3)] show ?thesis using fr 2(3) by simp
    qed
  qed (use Cons.prems(2) in simp)
  from rest show ?case
  proof
    assume "\<exists>st fin. install_chunk pl st fin eng1 = (r, eng')"
    then obtain st fin where r: "install_chunk pl st fin eng1 = (r, eng')" by blast
    have same: "p \<in> (\<lambda>x. fst (snd x)) ` set pl \<Longrightarrow> p \<noteq> q" using q(1) by blast
    have next_ok: "\<forall>(i, q, syn) \<in> set pl. q = p \<longrightarrow>
      synthesize_page crc crc_append (ps_slots (eng_pool eng1) p) (ps_chains (eng_pool eng1) p) ckpt ort ident = Inr syn \<and>
      (\<forall>x \<in> set (history_spills syn). hs_key x = k \<longrightarrow> hist_stored (eng_history eng1) (hs_ident x) (hs_key x) (hs_counter x) (hs_entry x)) \<and>
      protected ckpt v (key_chain eng1 p k) \<and> history_behind (eng_history eng1) ident k (key_chain eng1 p k)"
    proof (clarify, goal_cases)
      case (1 j x s)
      then have "p \<noteq> q" using same by force
      then show ?case using 1 Cons.prems(4) one by (auto simp: key_chain_def)
    qed
    from Cons.IH [OF r _ q(2) next_ok Cons.prems(5)] show ?case using one by (auto simp: a)
  qed (use one in \<open>auto simp: a\<close>)
qed simp

text \<open>What the work list must be like for the key: its leaf is worked on for its tree only, no
  other leaf of the tree has a chain for it, and the versions that may be spilled fit a cell of
  the history tree.\<close>

definition work_ok :: "engine \<Rightarrow> tree_ident list \<Rightarrow> tree_ident \<Rightarrow> bytes \<Rightarrow> u32 \<Rightarrow> ts \<Rightarrow> (nat \<times> u32) list \<Rightarrow> bool" where
  "work_ok eng idents ident k p ckpt items \<longleftrightarrow> distinct (map snd items) \<and> (\<forall>(i, q) \<in> set items.
     (q = p \<longrightarrow> idents ! i = ident) \<and> (q \<noteq> p \<longrightarrow> idents ! i = ident \<longrightarrow> k \<notin> fst ` set (ps_chains (eng_pool eng) q)) \<and>
     (\<forall>(key, c) \<in> set (ps_chains (eng_pool eng) q). \<forall>e \<in> set c. candidate ckpt e \<longrightarrow> spillable key e))"

definition key_ok :: "engine \<Rightarrow> overflow_alloc \<Rightarrow> tree_ident \<Rightarrow> bytes \<Rightarrow> u32 \<Rightarrow> ts \<Rightarrow> view \<Rightarrow> bool" where
  "key_ok eng alloc ident k p ckpt v \<longleftrightarrow> protected ckpt v (key_chain eng p k) \<and>
     history_behind (eng_history eng) ident k (key_chain eng p k) \<and> (\<forall>e \<in> set (key_chain eng p k). readable alloc e)"

lemma work_okD:
  assumes "work_ok eng idents ident k p ckpt items" "(i, q) \<in> set items"
  shows "q = p \<Longrightarrow> idents ! i = ident" "q \<noteq> p \<Longrightarrow> idents ! i = ident \<Longrightarrow> k \<notin> fst ` set (ps_chains (eng_pool eng) q)"
    "(key, c) \<in> set (ps_chains (eng_pool eng) q) \<Longrightarrow> e \<in> set c \<Longrightarrow> candidate ckpt e \<Longrightarrow> spillable key e"
  using assms unfolding work_ok_def by fast+

text \<open>The spills of a chunk: all fit, and those of the key are versions on its chain.\<close>

lemma chunk_spills:
  assumes st: "steady eng alloc ident bt k p" and w: "work_ok eng idents ident k p ckpt (items @ later)"
    and k: "p \<in> snd ` set (items @ later) \<longrightarrow> key_ok eng alloc ident k p ckpt v"
    and txn: "set txn = (\<Union>(i, q, syn) \<in> set planned. set (history_spills syn))" and sub: "(\<lambda>(i, q, syn). (i, q)) ` set planned \<subseteq> set items"
    and syn: "\<forall>(i, q, syn) \<in> set planned. synthesize_page crc crc_append (ps_slots (eng_pool eng) q) (ps_chains (eng_pool eng) q) ckpt ort (idents ! i) = Inr syn"
  shows "spill_ok txn"
    and "\<forall>x \<in> set txn. hs_ident x = ident \<longrightarrow> hs_key x = k \<longrightarrow> p \<in> snd ` set items \<and>
      hs_entry x \<in> set (key_chain eng p k) \<and> candidate ckpt (hs_entry x) \<and> readable alloc (hs_entry x)"
proof -
  have inv: "sm_inv (ps_chains (eng_pool eng) p)" using st by (simp add: steady_def)
  have from_chain: "\<exists>i q c. (i, q) \<in> set items \<and> hs_ident x = idents ! i \<and> candidate ckpt (hs_entry x) \<and>
      (hs_key x, c) \<in> set (ps_chains (eng_pool eng) q) \<and> hs_entry x \<in> set c" if x: "x \<in> set txn" for x
  proof -
    obtain i q s where e: "(i, q, s) \<in> set planned" "x \<in> set (history_spills s)" using x txn by auto
    have "synthesize_page crc crc_append (ps_slots (eng_pool eng) q) (ps_chains (eng_pool eng) q) ckpt ort (idents ! i) = Inr s" using syn e(1) by fast
    from synthesize_spills [OF this e(2)] sub e(1) show ?thesis by force
  qed
  show "spill_ok txn" unfolding spill_ok_def using from_chain w by (fastforce simp: work_ok_def)
  show "\<forall>x \<in> set txn. hs_ident x = ident \<longrightarrow> hs_key x = k \<longrightarrow> p \<in> snd ` set items \<and>
      hs_entry x \<in> set (key_chain eng p k) \<and> candidate ckpt (hs_entry x) \<and> readable alloc (hs_entry x)"
  proof (intro ballI impI)
  fix x assume x: "x \<in> set txn" "hs_ident x = ident" "hs_key x = k"
  obtain i q c where q: "(i, q) \<in> set items" "hs_ident x = idents ! i" "candidate ckpt (hs_entry x)"
      "(k, c) \<in> set (ps_chains (eng_pool eng) q)" "hs_entry x \<in> set c"
    using from_chain [OF x(1)] x(3) by metis
  have "q = p" using w q(1,2,4) x(2) by (force simp: work_ok_def)
  then have "key_chain eng p k = c" "p \<in> snd ` set items" using q(1,4) sm_get_iff [OF inv] by (force simp: key_chain_def chain_of_def)+
  then show "p \<in> snd ` set items \<and> hs_entry x \<in> set (key_chain eng p k) \<and> candidate ckpt (hs_entry x) \<and> readable alloc (hs_entry x)"
    using q(3,5) k by (auto simp: key_ok_def)
  qed
qed

lemma chunk_commit:
  assumes st: "steady eng alloc ident bt k p" and cm: "commit_staged_history_spills flush txn eng = (r1, eng1)" and spill: "spill_ok txn"
    and mine: "\<forall>x \<in> set txn. hs_ident x = ident \<longrightarrow> hs_key x = k \<longrightarrow> P \<and>
      hs_entry x \<in> set (key_chain eng p k) \<and> candidate ckpt (hs_entry x) \<and> readable alloc (hs_entry x)"
    and k: "P \<longrightarrow> key_ok eng alloc ident k p ckpt v"
  shows "steady eng1 alloc ident bt k p" "engine_read eng1 alloc ident bt k v = engine_read eng alloc ident bt k v" "eng_pool eng1 = eng_pool eng"
    "key_ok eng alloc ident k p ckpt v \<Longrightarrow> key_ok eng1 alloc ident k p ckpt v"
    "r1 = Inr () \<Longrightarrow> x \<in> set txn \<Longrightarrow> hist_stored (eng_history eng1) (hs_ident x) (hs_key x) (hs_counter x) (hs_entry x)"
proof -
  have v1: "(\<forall>x \<in> set txn. hs_ident x = ident \<longrightarrow> hs_key x \<noteq> k) \<or> protected ckpt v (key_chain eng p k)"
    using mine k by (auto simp: key_ok_def)
  have all: "steady eng1 alloc ident bt k p \<and> engine_read eng1 alloc ident bt k v = engine_read eng alloc ident bt k v \<and> eng_pool eng1 = eng_pool eng \<and>
      (key_ok eng alloc ident k p ckpt v \<longrightarrow> key_ok eng1 alloc ident k p ckpt v) \<and>
      (r1 = Inr () \<longrightarrow> (\<forall>x \<in> set txn. hist_stored (eng_history eng1) (hs_ident x) (hs_key x) (hs_counter x) (hs_entry x)))"
  proof (cases "commit_spill_txn (eng_history eng) txn")
    case (Inl e)
    then have "eng1 = eng" "r1 = Inl e" using cm by (auto simp: commit_staged_history_spills_def split: if_splits)
    then show ?thesis using st by simp
  next
    case (Inr t)
    have eng1: "eng1 = eng\<lparr>eng_history := t\<rparr>" using cm Inr by (cases txn) (auto simp: commit_staged_history_spills_def)
    have "\<forall>x \<in> set txn. hs_ident x = ident \<longrightarrow> hs_key x = k \<longrightarrow> hs_entry x \<in> set (key_chain eng p k) \<and> candidate ckpt (hs_entry x) \<and> readable alloc (hs_entry x)"
      using mine by blast
    note c = commit_step [OF st Inr spill this v1]
    have "hist_stored t (hs_ident x) (hs_key x) (hs_counter x) (hs_entry x)" if "x \<in> set txn" for x
      using commit_spill_stored [OF _ spill Inr] st that by (cases x) (auto simp: steady_def)
    then show ?thesis using c eng1 by (auto simp: key_ok_def key_chain_def)
  qed
  then show "steady eng1 alloc ident bt k p" "engine_read eng1 alloc ident bt k v = engine_read eng alloc ident bt k v" "eng_pool eng1 = eng_pool eng"
    "key_ok eng alloc ident k p ckpt v \<Longrightarrow> key_ok eng1 alloc ident k p ckpt v"
    "r1 = Inr () \<Longrightarrow> x \<in> set txn \<Longrightarrow> hist_stored (eng_history eng1) (hs_ident x) (hs_key x) (hs_counter x) (hs_entry x)"
    by blast+
qed

lemma one_chunk_keeps:
  assumes st: "steady eng alloc ident bt k p" and v: "ort \<le> read_ts v" and w: "work_ok eng idents ident k p ckpt (items @ later)"
    and k: "p \<in> snd ` set (items @ later) \<longrightarrow> key_ok eng alloc ident k p ckpt v"
    and pl: "plan_chunk (\<lambda>ident p. plan_leaf_install crc crc_append eng ident p ckpt ort allow) tc idents items st0 fin0 [] [] = Inr (st1, fin1, txn, planned)"
    and cm: "commit_staged_history_spills flush txn eng = (r1, eng1)"
    and ins: "eng2 = eng1 \<or> r1 = Inr () \<and> install_chunk planned st1 fin1 eng1 = (r2, eng2)"
  shows "steady eng2 alloc ident bt k p \<and> engine_read eng2 alloc ident bt k v = engine_read eng alloc ident bt k v \<and>
    work_ok eng2 idents ident k p ckpt later \<and> (p \<in> snd ` set later \<longrightarrow> key_ok eng2 alloc ident k p ckpt v)"
proof -
  have sl: "slots_ok (ps_slots (eng_pool eng))" using st by (simp add: steady_def)
  obtain txn: "set txn = (\<Union>(i, q, syn) \<in> set planned. set (history_spills syn))" and d: "distinct (map (\<lambda>x. fst (snd x)) planned)"
      and sub: "(\<lambda>(i, q, syn). (i, q)) ` set planned \<subseteq> set items"
      and syn: "\<forall>(i, q, syn) \<in> set planned. synthesize_page crc crc_append (ps_slots (eng_pool eng) q) (ps_chains (eng_pool eng) q) ckpt ort (idents ! i) = Inr syn"
    using plan_chunk_ok [OF pl] w by (auto simp: work_ok_def frame_image_def read_page_slots(1) [OF sl])
  note cs = chunk_spills [OF st w k txn sub syn]
  have k1: "p \<in> snd ` set items \<longrightarrow> key_ok eng alloc ident k p ckpt v" using k by auto
  note c = chunk_commit [OF st cm cs k1]
  have apart: "q \<notin> (\<lambda>x. fst (snd x)) ` set planned" if "q \<in> snd ` set later" for q
  proof -
    have "(\<lambda>x. fst (snd x)) ` set planned \<subseteq> snd ` set items" using sub by force
    moreover have "snd ` set items \<inter> snd ` set later = {}" using w unfolding work_ok_def map_append distinct_append by auto
    ultimately show ?thesis using that by blast
  qed
  have own: "idents ! i = ident \<and> p \<in> snd ` set items" if "(i, p, syn) \<in> set planned" for i syn
  proof -
    have "(i, p) \<in> set items" using that sub by force
    then show ?thesis using work_okD(1) [OF w, of i p] by force
  qed
  have ok: "\<forall>(i, q, syn) \<in> set planned. q = p \<longrightarrow>
      synthesize_page crc crc_append (ps_slots (eng_pool eng1) p) (ps_chains (eng_pool eng1) p) ckpt ort ident = Inr syn \<and>
      (\<forall>x \<in> set (history_spills syn). hs_key x = k \<longrightarrow> hist_stored (eng_history eng1) (hs_ident x) (hs_key x) (hs_counter x) (hs_entry x)) \<and>
      protected ckpt v (key_chain eng1 p k) \<and> history_behind (eng_history eng1) ident k (key_chain eng1 p k)" if r: "r1 = Inr ()"
  proof (clarify, intro conjI ballI impI, goal_cases)
    case (1 i q sy)
    then show ?case using syn own c(3) by fastforce
  next
    case (2 i q sy x)
    then show ?case using c(5) [OF r] txn by fastforce
  next
    case (3 i q sy)
    then show ?case using own c(4) k1 by (auto simp: key_ok_def)
  next
    case (4 i q sy)
    then show ?case using own c(4) k1 by (auto simp: key_ok_def)
  qed
  have two: "steady eng2 alloc ident bt k p \<and> engine_read eng2 alloc ident bt k v = engine_read eng1 alloc ident bt k v \<and>
      eng_history eng2 = eng_history eng1 \<and> (\<forall>q. q \<notin> (\<lambda>x. fst (snd x)) ` set planned \<longrightarrow> ps_chains (eng_pool eng2) q = ps_chains (eng_pool eng1) q)"
    using ins
  proof
    assume "r1 = Inr () \<and> install_chunk planned st1 fin1 eng1 = (r2, eng2)"
    then show ?thesis using install_chunk_keeps [OF _ _ d ok v] c(1) by blast
  qed (use c(1) in simp)
  have ch: "ps_chains (eng_pool eng2) q = ps_chains (eng_pool eng) q" if "q \<in> snd ` set later" for q using two apart [OF that] c(3) by simp
  have "work_ok eng2 idents ident k p ckpt later"
    unfolding work_ok_def
  proof (intro conjI ballI, goal_cases)
    case 1
    then show ?case using w by (simp add: work_ok_def)
  next
    case (2 x)
    obtain i q where x: "x = (i, q)" by force
    have m: "(i, q) \<in> set (items @ later)" and e: "ps_chains (eng_pool eng2) q = ps_chains (eng_pool eng) q" using 2 ch [of q] by (force simp: x)+
    show ?case unfolding x prod.case e using work_okD(1,2) [OF w m] work_okD(3) [OF w m] by blast
  qed
  moreover have "p \<in> snd ` set later \<longrightarrow> key_ok eng2 alloc ident k p ckpt v"
    using two apart k c(4) by (auto simp: key_ok_def key_chain_def)
  ultimately show ?thesis using two c(2) by simp
qed


lemma reconcile_chunks_keep:
  assumes "reconcile_chunks crc crc_append tc flush idents ckpt ort allow cs st0 fin0 eng = (r, eng')"
    and "steady eng alloc ident bt k p" "ort \<le> read_ts v" "work_ok eng idents ident k p ckpt (concat cs)"
    and "p \<in> snd ` set (concat cs) \<longrightarrow> key_ok eng alloc ident k p ckpt v"
  shows "steady eng' alloc ident bt k p \<and> engine_read eng' alloc ident bt k v = engine_read eng alloc ident bt k v"
  using assms
proof (induction cs arbitrary: eng st0 fin0)
  case (Cons items cs)
  have w: "work_ok eng idents ident k p ckpt (items @ concat cs)" and k: "p \<in> snd ` set (items @ concat cs) \<longrightarrow> key_ok eng alloc ident k p ckpt v"
    using Cons.prems(4,5) by simp_all
  show ?case
  proof (cases "plan_chunk (\<lambda>ident p. plan_leaf_install crc crc_append eng ident p ckpt ort allow) tc idents items st0 fin0 [] []")
    case (Inl e)
    then show ?thesis using Cons.prems(1,2) by simp
  next
    case (Inr x)
    obtain st1 fin1 txn planned where x: "x = (st1, fin1, txn, planned)" by (cases x) auto
    obtain r1 eng1 where c: "commit_staged_history_spills (flush (length cs)) txn eng = (r1, eng1)" by force
    note one = one_chunk_keeps [OF Cons.prems(2,3) w k Inr [unfolded x] c]
    show ?thesis
    proof (cases r1)
      case (Inl e)
      then show ?thesis using Cons.prems(1) Inr x c one [of eng1] by simp
    next
      case r1: (Inr u)
      obtain r2 eng2 where i: "install_chunk planned st1 fin1 eng1 = (r2, eng2)" by force
      have two: "steady eng2 alloc ident bt k p \<and> engine_read eng2 alloc ident bt k v = engine_read eng alloc ident bt k v \<and>
          work_ok eng2 idents ident k p ckpt (concat cs) \<and> (p \<in> snd ` set (concat cs) \<longrightarrow> key_ok eng2 alloc ident k p ckpt v)"
        using one [of eng2 r2] i r1 by simp
      show ?thesis
      proof (cases r2)
        case (Inl e)
        then show ?thesis using Cons.prems(1) Inr x c r1 i two by simp
      next
        case r2: (Inr y)
        obtain st2 fin2 where y: "y = (st2, fin2)" by force
        have "reconcile_chunks crc crc_append tc flush idents ckpt ort allow cs st2 fin2 eng2 = (r, eng')"
          using Cons.prems(1) Inr x c r1 i r2 y by simp
        from Cons.IH [OF this _ Cons.prems(3)] show ?thesis using two by simp
      qed
    qed
  qed
qed simp

lemma history_of_primary: "history_of t alloc \<lparr>collection_id = cid, tree_kind_of = Primary\<rparr> = probe_primary t alloc cid"
  by (intro ext) (simp add: history_of_def probe_primary_def)

lemma pass_keeps_reads:
  assumes "reconcile_trees_dirty_sets crc crc_append try_clone flush eng work ckpt ort allow = (r, eng')"
    and "steady eng alloc ident bt k p" "ort \<le> read_ts v" "work_ok eng (map fst work) ident k p ckpt (work_items work)"
    and "p \<in> snd ` set (work_items work) \<longrightarrow> key_ok eng alloc ident k p ckpt v"
  shows "engine_read eng' alloc ident bt k v = engine_read eng alloc ident bt k v"
proof -
  have "concat (chunks RECONCILE_CHUNK_PAGES (work_items work)) = work_items work"
    by (simp add: chunks_concat RECONCILE_CHUNK_PAGES_def)
  note keep = reconcile_chunks_keep [OF _ assms(2,3), of crc crc_append try_clone flush "map fst work" ckpt allow
      "chunks RECONCILE_CHUNK_PAGES (work_items work)", unfolded this, OF _ assms(4,5)]
  obtain r1 eng1 where "reconcile_chunks crc crc_append try_clone flush (map fst work) ckpt ort allow
      (chunks RECONCILE_CHUNK_PAGES (work_items work))
      \<lparr>rs_dirty_leaves = length (work_items work), installed = 0, not_installable_count = 0, history_spill_count = 0\<rparr>
      (replicate (length work) []) eng = (r1, eng1)" "eng_pool eng' = eng_pool eng1" "eng_history eng' = eng_history eng1"
    using assms(1) by (auto simp: reconcile_trees_dirty_sets_def Let_def split: prod.splits sum.splits)
  then show ?thesis using keep by (simp add: engine_read_def)
qed

section \<open>Properties\<close>


text \<open>An engine whose trees are one leaf with given cells and chains.\<close>

definition ex_node :: "leaf_cell list \<Rightarrow> leaf_node" where
  "ex_node cells = \<lparr>ln_flags = 0, ln_next_leaf_page = 0, ln_prev_leaf_page = 0, ln_cells = cells\<rparr>"

definition ex_image :: "leaf_cell list \<Rightarrow> bytes" where
  "ex_image cells = projr (encode (\<lambda>_. 0) (\<lambda>_ _. 0) (ex_node cells))"

definition ex_engine :: "leaf_cell list \<Rightarrow> chain_map \<Rightarrow> engine" where
  "ex_engine cells cm = \<lparr>eng_pool = ex_pool\<lparr>ps_slots := (\<lambda>_. ex_image cells), ps_chains := (\<lambda>_. cm)\<rparr>, resident = (\<lambda>_. True),
     eng_history = [], dirty_leaves = []\<rparr>"

lemma ex_image_ok:
  assumes "used_bytes (ex_node cells) \<le> PAGE_SIZE_LEAF"
  shows "parse (ex_image cells) = Inr ((ex_node cells)\<lparr>ln_flags := encoded_flags (ex_node cells)\<rparr>)" "leaf_image (ex_image cells)"
proof -
  have e: "encode (\<lambda>_. 0) (\<lambda>_ _. 0) (ex_node cells) = Inr (ex_image cells)"
    using assms by (simp add: ex_image_def encode_def Let_def)
  show "parse (ex_image cells) = Inr ((ex_node cells)\<lparr>ln_flags := encoded_flags (ex_node cells)\<rparr>)" by (rule parse_encode [OF e])
  show "leaf_image (ex_image cells)"
    using encode_layout(1,2) [OF e] unfolding leaf_image_def
    by (cases "ex_image cells") (auto simp: leaf_from_bytes_def PAGE_SIZE_LEAF_def split: if_splits)
qed

lemma ex_engine_steady:
  assumes "used_bytes (ex_node cells) \<le> PAGE_SIZE_LEAF" "sorted_cells cells" "sm_inv cm" "length k < 2 ^ 32"
  shows "steady (ex_engine cells cm) None ident (tree_open 1 0) k 1"
  using ex_image_ok [OF assms(1)] assms(2-) hist_ok_empty
  by (auto simp: steady_def ex_engine_def ex_pool_def slots_ok_def leaf_image_def find_leaf_def tree_open_def ex_node_def
      readable_at_def hist_stored_def sm_get_def)

definition ex_a :: version_entry where
  "ex_a = \<lparr>start_ts = Ts 2 0, stop_ts = Ts 5 0, txn_id = 1, state = Committed, data = Inline [65], is_tombstone = False\<rparr>"

definition ex_b :: version_entry where
  "ex_b = \<lparr>start_ts = Ts 5 0, stop_ts = ts_max, txn_id = 2, state = Committed, data = Inline [66], is_tombstone = False\<rparr>"

definition ex_gone :: version_entry where
  "ex_gone = \<lparr>start_ts = Ts 5 0, stop_ts = ts_max, txn_id = 2, state = Committed, data = Inline [], is_tombstone = True\<rparr>"

definition ex_reader :: view where
  "ex_reader = \<lparr>read_ts = Ts 3 0, view_txn_id = 0, sequencer_frontier = Ts 9 0\<rparr>"

lemmas ex_versions = ex_a_def ex_b_def ex_gone_def ex_reader_def less_ts_def less_eq_ts_def ts_max_def

lemma ex_spillable: "spillable [1] ex_a" "spillable [1] ex_b" "spillable [1] ex_gone"
  by (simp_all add: spillable_def encodable_def fits_inline_def encode_version_entry_value_def OVERFLOW_THRESHOLD_def ex_a_def ex_b_def ex_gone_def)

lemma ex_chain_wf: "chain_wf [ex_b, ex_a]" "chain_wf [ex_gone, ex_a]" "chain_wf [ex_b]"
  by (simp_all add: chain_wf_def ex_versions)

lemma ex_visible: "visible_in [ex_b, ex_a] ex_reader = Some ex_a" "visible_in [ex_gone, ex_a] ex_reader = Some ex_a" "visible_in [ex_b] ex_reader = None"
  by (simp_all add: visible_in_def version_visible_to_def ex_versions)

lemma ex_readable: "readable None ex_a" "readable None ex_b" "readable None ex_gone"
  by (simp_all add: readable_def ex_a_def ex_b_def ex_gone_def)

lemma ex_engine_parts [simp]:
  "eng_history (ex_engine cells cm) = []" "ps_slots (eng_pool (ex_engine cells cm)) = (\<lambda>_. ex_image cells)"
  "ps_chains (eng_pool (ex_engine cells cm)) = (\<lambda>_. cm)" "resident (ex_engine cells cm) = (\<lambda>_. True)"
  by (simp_all add: ex_engine_def)

lemma history_behind_empty: "history_behind [] ident k c"
  by (simp add: history_behind_def hist_stored_def sm_get_def)

lemma ex_empty_fits: "used_bytes (ex_node []) \<le> PAGE_SIZE_LEAF"
  by (simp add: used_bytes_def used_bytes_for_cells_def ex_node_def PAGE_SIZE_LEAF_def LEAF_HEADER_SIZE_def)


text \<open>A pass over one resident leaf that can be folded.\<close>

lemma reconcile_single:
  assumes "slots_ok (ps_slots (eng_pool eng))" "resident eng p" "leaf_image (ps_slots (eng_pool eng) p)" "tree_kind_of ident = Primary"
    and syn: "synthesize_page crc crc_append (ps_slots (eng_pool eng) p) (ps_chains (eng_pool eng) p) ckpt ort ident = Inr syn"
    and "leaf_image (new_base syn)" "\<forall>x \<in> set (history_spills syn). hs_ident x = ident" "commit_spill_txn (eng_history eng) (history_spills syn) = Inr t"
  shows "\<exists>st eng'. reconcile_trees_dirty_sets crc crc_append (\<lambda>_. True) (\<lambda>_. Inr ()) eng [(ident, [p])] ckpt ort allow = (Inr st, eng') \<and>
    eng_pool eng' = rewrite_leaf (eng_pool eng) p (new_base syn) (retained_chains syn) \<and> eng_history eng' = t"
proof -
  have img: "frame_image eng p = ps_slots (eng_pool eng) p" using read_page_slots(1) [OF assms(1)] by (simp add: frame_image_def)
  have ne: "ps_slots (eng_pool eng) p \<noteq> []" "new_base syn \<noteq> []" "hd (ps_slots (eng_pool eng) p) = PAGE_TYPE_LEAF"
      "hd (new_base syn) = PAGE_TYPE_LEAF" "length (new_base syn) = 32768"
    using assms(3,6) by (auto simp: leaf_image_def PAGE_SIZE_LEAF_def)
  have plan: "plan_leaf_install crc crc_append eng ident p ckpt ort allow = Inr (Planned p syn)"
    using syn ne(1,3) assms(2) by (simp add: plan_leaf_install_def snapshot_leaf_for_reconcile_def img)
  have stage: "stage_spills (\<lambda>_. True) txn ws = Inr (txn @ ws)" if "\<forall>x \<in> set ws. hs_ident x = ident" for txn ws
    using that assms(4) by (induction ws arbitrary: txn) (auto simp: spill_primary_def stage_def)
  have commit: "commit_staged_history_spills (Inr ()) (history_spills syn) eng = (Inr (), eng\<lparr>eng_history := t\<rparr>)"
    using assms(8) by (cases "history_spills syn") (auto simp: commit_staged_history_spills_def)
  have install: "install_planned_leaf (eng\<lparr>eng_history := t\<rparr>) p syn =
      (Inr True, eng\<lparr>eng_history := t, eng_pool := rewrite_leaf (eng_pool eng) p (new_base syn) (retained_chains syn)\<rparr>)"
    using ne assms(2) img by (simp add: install_planned_leaf_def Let_def pin_leaves_for_reconcile_def frame_image_def
        replace_leaf_and_chains_def rewrite_leaf_def)
  have "chunks RECONCILE_CHUNK_PAGES (work_items [(ident, [p])]) = [[(0, p)]]"
    by (simp add: work_items_def chunks.simps RECONCILE_CHUNK_PAGES_def)
  then show ?thesis
    using plan stage [OF assms(7), of "[]"] commit install
    by (simp add: reconcile_trees_dirty_sets_def Let_def stage_history_spills_def)
qed

lemma read_single_leaf:
  assumes "slots_ok (ps_slots s)" "\<not> is_history s" "leaf_image base" "parse base = Inr n" "sorted_cells (ln_cells n)"
  shows "get_mvcc pool_ops (rewrite_leaf s 1 base cm) (tree_open 1 0) k v (Some pr) =
    read_key pool_ops (rewrite_leaf s 1 base cm) v (Some pr) base (Some cm) k"
  using get_mvcc_at [of "rewrite_leaf s 1 base cm" "tree_open 1 0" k 1] rewrite_slots [OF assms(1,3), of 1 cm] assms(2)
  by (simp add: find_leaf_def tree_open_def)

definition ex_cell :: leaf_cell where "ex_cell = \<lparr>cell_key = [1], cell_val = Cell_Inline [65]\<rparr>"

lemma ex_cell_fits: "used_bytes (ex_node [ex_cell]) \<le> PAGE_SIZE_LEAF"
  by (simp add: used_bytes_def used_bytes_for_cells_def ex_node_def ex_cell_def encoded_size_def leaf_cell_encoded_size_def
      PAGE_SIZE_LEAF_def LEAF_HEADER_SIZE_def)

lemma ex_parts:
  "state ex_a = Committed" "start_ts ex_a = Ts 2 0" "stop_ts ex_a = Ts 5 0" "is_tombstone ex_a = False" "data ex_a = Inline [65]"
  "state ex_b = Committed" "start_ts ex_b = Ts 5 0" "is_tombstone ex_b = False" "data ex_b = Inline [66]"
  "state ex_gone = Committed" "start_ts ex_gone = Ts 5 0" "is_tombstone ex_gone = True"
  by (simp_all add: ex_a_def ex_b_def ex_gone_def)

lemma ex_fold_base:
  "\<exists>syn. synthesize_page (\<lambda>_. 0) (\<lambda>_ _. 0) (ex_image [ex_cell]) [([1], [ex_b])] (Ts 5 0) (Ts 3 0) ident = Inr syn \<and>
    history_spills syn = [] \<and> retained_chains syn = []"
proof -
  have w: "checkpoint_winner_index [ex_b] (Ts 5 0) = Some 0" by (simp add: checkpoint_winner_index_def ex_parts)
  have "synth_chains ident (Ts 5 0) (Ts 3 0) [([1], [ex_b])] (base_map [ex_cell]) [] [] =
      Inr ([([1], \<lparr>cell_key = [1], cell_val = Cell_Inline [66]\<rparr>)], [], [])"
    by (simp add: w base_map_def ex_cell_def fold_winner_def folded_cell_from_entry_def ex_parts Let_def)
  then show ?thesis
    using ex_image_ok(1) [OF ex_cell_fits]
    by (simp add: synthesize_page_def decode_folded_leaf_def ex_node_def Let_def predict_encoded_leaf_size_def folded_encoded_size_def
        leaf_cell_encoded_size_def retained_chains_encoded_size_def LEAF_PAGE_BUDGET_def PAGE_SIZE_LEAF_def LEAF_HEADER_SIZE_def
        SLOT_POINTER_BYTES_def CELL_INLINE_LEN_BYTES_def encode_folded_leaf_def encode_def used_bytes_def used_bytes_for_cells_def encoded_size_def)
qed


lemma ex_fold_gone:
  "\<exists>syn. synthesize_page (\<lambda>_. 0) (\<lambda>_ _. 0) (ex_image []) [([1], [ex_gone, ex_a])] (Ts 5 0) (Ts 3 0) ident = Inr syn \<and>
    history_spills syn = [\<lparr>hs_ident = ident, hs_key = [1], hs_entry = ex_a, hs_counter = 0\<rparr>] \<and> retained_chains syn = []"
proof -
  have w: "checkpoint_winner_index [ex_gone, ex_a] (Ts 5 0) = Some 0" by (simp add: checkpoint_winner_index_def ex_parts less_eq_ts_def less_ts_def)
  have "synth_chains ident (Ts 5 0) (Ts 3 0) [([1], [ex_gone, ex_a])] (base_map []) [] [] =
      Inr ([], [], [\<lparr>hs_ident = ident, hs_key = [1], hs_entry = ex_a, hs_counter = 0\<rparr>])"
    by (simp add: w base_map_def fold_winner_def ex_parts Let_def stable_history_counter_def less_eq_ts_def less_ts_def)
  then show ?thesis
    using ex_image_ok(1) [OF ex_empty_fits]
    by (simp add: synthesize_page_def decode_folded_leaf_def ex_node_def Let_def predict_encoded_leaf_size_def
        retained_chains_encoded_size_def LEAF_PAGE_BUDGET_def PAGE_SIZE_LEAF_def LEAF_HEADER_SIZE_def
        encode_folded_leaf_def encode_def used_bytes_def used_bytes_for_cells_def)
qed

lemma scan_single_leaf:
  assumes "slots_ok (ps_slots s)" "\<not> is_history s" "leaf_image base" "parse base = Inr n" "ln_cells n = []" "ln_next_leaf_page n = 0"
  shows "range_scan_mvcc_bounded pool_ops (rewrite_leaf s 1 base []) (tree_open 1 0) lo hi v h = Some (Inr [])"
proof -
  have "read_page (ps_slots (rewrite_leaf s 1 base [])) 1 Large32k = base"
    using rewrite_slots(1,2) [OF assms(1,3), of 1 "[]"] by (simp add: read_page_slots)
  then have leaf: "rbind (start_leaf pool_ops (rewrite_leaf s 1 base []) (tree_open 1 0) lo) (\<lambda>(_, leaf). Inr leaf) = Inr (base, Some [])"
    using rewrite_slots(3,4) [OF assms(1,3), of 1 "[]"] assms(2)
    by (cases lo) (simp_all add: start_leaf_def read_leaf_for_key_def read_leftmost_leaf_def tree_open_def pool_ops_def pool_read_leaf_def)
  have none: "visible_range [] lo hi v = []" "history_candidate_keys_without_visible_entry [] lo hi v (read_ts v) = []"
    by (simp_all add: visible_range_def history_candidate_keys_without_visible_entry_def sm_range_def List.map_filter_def)
  have sc: "scan_leaf pool_ops (rewrite_leaf s 1 base []) lo hi v h visit n (Some []) c = (Inr True, c)" for visit :: "(bytes \<times> bytes) list visitor" and c
    unfolding scan_leaf_def assms(5) none option.case drop_Nil by (subst leaf_merge.simps) (simp add: merge_step_def merge_source_def)
  show ?thesis
    unfolding range_scan_mvcc_bounded_def try_for_each_range_scan_mvcc_bounded_def leaf
    by (subst scan_loop.simps) (simp add: assms(4,6) sc)
qed


end
