(* ===== verification/Tree_Insert.thy ===== *)
theory Tree_Insert
  imports Tree_Scan "HOL-Library.Product_Lexorder"
begin

text \<open>
  Inserting into a B+ tree (\<open>storage/btree/insert.rs\<close>): the recursive descent, the leaf split
  with the choice of its cut, the internal split, the growth of the root, and the migration of
  the version chains that goes with a split (\<open>storage/btree/chain_migration.rs\<close>). A
  \<open>SplitResult\<close> is the pair of its promoted key and its right page.
\<close>

section \<open>Definitions\<close>

type_synonym split_result = "bytes \<times> u32"

text \<open>\<open>Vec::insert\<close>.\<close>

definition insert_at :: "nat \<Rightarrow> 'a \<Rightarrow> 'a list \<Rightarrow> 'a list" where
  "insert_at i x xs = take i xs @ x # drop i xs"

definition abs_diff :: "nat \<Rightarrow> nat \<Rightarrow> nat" where
  "abs_diff a b = (if a < b then b - a else a - b)"

text \<open>The cell value of a stored value: inline, or the pointer to its overflow chain.\<close>

definition stored_value :: "(bytes \<Rightarrow> u32) \<Rightarrow> (u32 \<Rightarrow> bytes \<Rightarrow> u32) \<Rightarrow> 's page_ops \<Rightarrow> bytes \<Rightarrow> ('s, cell_value) sr" where
  "stored_value crc crc_append ops value =
    (if length value > OVERFLOW_THRESHOLD
     then sr_bind (write_overflow_chain crc crc_append ops value) (\<lambda>first_page.
       sr_return (Cell_Overflow first_page (of_nat (length value))))
     else sr_return (Cell_Inline value))"

fun prefix_sums :: "nat \<Rightarrow> nat list \<Rightarrow> nat list" where
  "prefix_sums acc [] = [acc]"
| "prefix_sums acc (x # xs) = acc # prefix_sums (acc + x) xs"

definition cut_score :: "nat \<Rightarrow> nat \<Rightarrow> nat \<Rightarrow> nat \<Rightarrow> nat \<times> nat \<times> nat" where
  "cut_score left_used right_used split_at original_left_len =
    ((MIN_LEAF_BYTES - left_used) + (MIN_LEAF_BYTES - right_used),
     abs_diff left_used right_used, abs_diff split_at original_left_len)"

fun best_cut :: "nat list \<Rightarrow> nat \<Rightarrow> nat \<Rightarrow> ((nat \<times> nat \<times> nat) \<times> nat) option \<Rightarrow> nat list \<Rightarrow> ((nat \<times> nat \<times> nat) \<times> nat) option" where
  "best_cut prefix n original_left_len best [] = best"
| "best_cut prefix n original_left_len best (split_at # rest) =
    (let left_cell_bytes = prefix ! split_at;
         left_used = LEAF_HEADER_SIZE + split_at * 2 + left_cell_bytes;
         right_used = LEAF_HEADER_SIZE + (n - split_at) * 2 + (prefix ! n - left_cell_bytes)
     in best_cut prefix n original_left_len
       (if left_used > PAGE_SIZE_LEAF \<or> right_used > PAGE_SIZE_LEAF then best
        else let score = cut_score left_used right_used split_at original_left_len in
          case best of
            Some (best_score, s) \<Rightarrow> if best_score \<le> score then best else Some (score, split_at)
          | None \<Rightarrow> Some (score, split_at)) rest)"

definition choose_leaf_redistribution_split :: "leaf_cell list \<Rightarrow> nat \<Rightarrow> nat option" where
  "choose_leaf_redistribution_split cells original_left_len =
    map_option snd (best_cut (prefix_sums 0 (map encoded_size cells)) (length cells) original_left_len None [1..<length cells])"

fun pack_loop :: "leaf_cell list list \<Rightarrow> leaf_cell list \<Rightarrow> nat \<Rightarrow> leaf_cell list \<Rightarrow> leaf_cell list list result" where
  "pack_loop groups current current_used [] = Inr (if current \<noteq> [] then groups @ [current] else groups)"
| "pack_loop groups current current_used (cell # cells) =
    (let footprint = encoded_size cell + 2;
         full = current \<noteq> [] \<and> current_used + footprint > PAGE_SIZE_LEAF;
         groups = (if full then groups @ [current] else groups);
         current = (if full then [] else current);
         current_used = (if full then LEAF_HEADER_SIZE else current_used)
     in if current_used + footprint > PAGE_SIZE_LEAF
        then Inl (Internal ''leaf split: a single cell exceeds the leaf page size'')
        else pack_loop groups (current @ [cell]) (current_used + footprint) cells)"

definition pack_cells_multiway :: "leaf_cell list \<Rightarrow> leaf_cell list list result" where
  "pack_cells_multiway cells = pack_loop [] [] LEAF_HEADER_SIZE cells"

text \<open>The groups of cells a full leaf is split into.\<close>

definition split_groups :: "leaf_cell list \<Rightarrow> leaf_cell list list result" where
  "split_groups cells = (case choose_leaf_redistribution_split cells (length cells div 2) of
     Some split_at \<Rightarrow> Inr [take split_at cells, drop split_at cells]
   | None \<Rightarrow> pack_cells_multiway cells)"

text \<open>Each drained chain goes back to the page its key is routed to.\<close>

fun rehome_chains :: "'s page_ops \<Rightarrow> (bytes \<Rightarrow> u32) \<Rightarrow> (bytes \<times> chain) list \<Rightarrow> ('s, unit) sr" where
  "rehome_chains ops dest [] = sr_return ()"
| "rehome_chains ops dest ((key, chain) # cs) =
    sr_bind (op_with_chain ops (dest key) key (\<lambda>_. Some chain)) (\<lambda>_. rehome_chains ops dest cs)"

definition partition_chains_for_split :: "'s page_ops \<Rightarrow> u32 \<Rightarrow> u32 list \<Rightarrow> bytes list \<Rightarrow> ('s, unit) sr" where
  "partition_chains_for_split ops left_page pages separators =
    sr_bind (op_with_all_chains ops left_page (\<lambda>cs. ([], cs))) (\<lambda>all_chains.
    rehome_chains ops (\<lambda>key. pages ! partition_point (\<lambda>sep. sep \<le> key) separators) all_chains)"

definition move_all_leaf_chains :: "'s page_ops \<Rightarrow> u32 \<Rightarrow> u32 \<Rightarrow> ('s, unit) sr" where
  "move_all_leaf_chains ops from_page to_page =
    sr_bind (op_with_all_chains ops from_page (\<lambda>cs. ([], cs))) (\<lambda>drained. rehome_chains ops (\<lambda>_. to_page) drained)"

definition redistribute_leaf_chains :: "'s page_ops \<Rightarrow> u32 \<Rightarrow> u32 \<Rightarrow> bytes \<Rightarrow> ('s, unit) sr" where
  "redistribute_leaf_chains ops left_page right_page separator_key =
    sr_bind (op_with_all_chains ops left_page (\<lambda>cs. ([], cs))) (\<lambda>ls.
    sr_bind (op_with_all_chains ops right_page (\<lambda>cs. ([], cs))) (\<lambda>rs.
    rehome_chains ops (\<lambda>key. if key < separator_key then left_page else right_page) (ls @ rs)))"

text \<open>A leaf's left link is set without touching the rest of it.\<close>

definition set_prev_leaf :: "(bytes \<Rightarrow> u32) \<Rightarrow> (u32 \<Rightarrow> bytes \<Rightarrow> u32) \<Rightarrow> 's page_ops \<Rightarrow> u32 \<Rightarrow> u32 \<Rightarrow> ('s, unit) sr" where
  "set_prev_leaf crc crc_append ops page prev =
    (if page = 0 then sr_return ()
     else sr_bind (sr_get (\<lambda>s. op_read_leaf ops s page)) (\<lambda>(buf, _).
       sr_bind (sr_lift (parse buf)) (\<lambda>node.
       sr_bind (sr_lift (encode crc crc_append (node\<lparr>ln_prev_leaf_page := prev\<rparr>))) (\<lambda>enc.
       op_write_leaf ops page enc))))"

text \<open>The right siblings of a split, from left to right.\<close>

fun write_siblings :: "(bytes \<Rightarrow> u32) \<Rightarrow> (u32 \<Rightarrow> bytes \<Rightarrow> u32) \<Rightarrow> 's page_ops \<Rightarrow> u32 \<Rightarrow> u32 \<Rightarrow> (u32 \<times> leaf_cell list) list \<Rightarrow> ('s, unit) sr" where
  "write_siblings crc crc_append ops old_next prev [] = sr_return ()"
| "write_siblings crc crc_append ops old_next prev ((p, cells) # rest) =
    sr_bind (sr_lift (encode crc crc_append
      \<lparr>ln_flags = 0, ln_next_leaf_page = (case rest of (q, _) # _ \<Rightarrow> q | [] \<Rightarrow> old_next), ln_prev_leaf_page = prev, ln_cells = cells\<rparr>)) (\<lambda>enc.
    sr_bind (op_write_leaf ops p enc) (\<lambda>_. write_siblings crc crc_append ops old_next p rest))"

definition split_leaf :: "(bytes \<Rightarrow> u32) \<Rightarrow> (u32 \<Rightarrow> bytes \<Rightarrow> u32) \<Rightarrow> 's page_ops \<Rightarrow> u32 \<Rightarrow> leaf_node \<Rightarrow> nat \<Rightarrow> leaf_cell \<Rightarrow>
    ('s, split_result list) sr" where
  "split_leaf crc crc_append ops left_page left_node insert_pos new_cell =
    sr_bind (sr_lift (split_groups (insert_at insert_pos new_cell (ln_cells left_node)))) (\<lambda>groups.
    sr_bind (alloc_leaves ops (length groups - 1)) (\<lambda>new_pages.
      let pages = left_page # new_pages;
          separators = map (\<lambda>g. cell_key (hd g)) (tl groups);
          old_next = ln_next_leaf_page left_node
      in
    sr_bind (partition_chains_for_split ops left_page pages separators) (\<lambda>_.
    sr_bind (set_prev_leaf crc crc_append ops old_next (last pages)) (\<lambda>_.
    sr_bind (case new_pages of [] \<Rightarrow> sr_fail (Panic ''index out of bounds'')
        | q # _ \<Rightarrow> sr_bind (sr_lift (encode crc crc_append (left_node\<lparr>ln_cells := hd groups, ln_next_leaf_page := q\<rparr>))) (\<lambda>enc.
            op_write_leaf ops left_page enc)) (\<lambda>_.
    sr_bind (write_siblings crc crc_append ops old_next left_page (zip new_pages (tl groups))) (\<lambda>_.
    sr_return (zip separators new_pages)))))))"

definition insert_leaf :: "(bytes \<Rightarrow> u32) \<Rightarrow> (u32 \<Rightarrow> bytes \<Rightarrow> u32) \<Rightarrow> 's page_ops \<Rightarrow> u32 \<Rightarrow> bytes \<Rightarrow> cell_value \<Rightarrow> ('s, split_result list) sr" where
  "insert_leaf crc crc_append ops page key value =
    sr_bind (sr_get (\<lambda>s. op_read_leaf ops s page)) (\<lambda>(buf, _).
    sr_bind (sr_lift (parse buf)) (\<lambda>node.
      let new_cell = \<lparr>cell_key = key, cell_val = value\<rparr> in
      case binary_search (ln_cells node) key of
        Inr _ \<Rightarrow> sr_fail (DuplicateKey ''key already exists'')
      | Inl insert_pos \<Rightarrow>
          if can_insert node (encoded_size new_cell)
          then sr_bind (sr_lift (encode crc crc_append (node\<lparr>ln_cells := insert_at insert_pos new_cell (ln_cells node)\<rparr>))) (\<lambda>encoded.
            sr_bind (op_write_leaf ops page encoded) (\<lambda>_. sr_return []))
          else split_leaf crc crc_append ops page node insert_pos new_cell))"

text \<open>The new entry takes the old child of position \<open>p\<close>; that position gets the right child.\<close>

definition replace_child :: "nat \<Rightarrow> u32 \<Rightarrow> internal_node \<Rightarrow> u32 \<times> internal_node" where
  "replace_child p right_child node =
    (if p < length (in_entries node)
     then (snd (in_entries node ! p), node\<lparr>in_entries := (in_entries node)[p := (fst (in_entries node ! p), right_child)]\<rparr>)
     else (in_rightmost_child node, node\<lparr>in_rightmost_child := right_child\<rparr>))"

definition split_internal :: "(bytes \<Rightarrow> u32) \<Rightarrow> (u32 \<Rightarrow> bytes \<Rightarrow> u32) \<Rightarrow> 's page_ops \<Rightarrow> u32 \<Rightarrow> internal_node \<Rightarrow> bytes \<Rightarrow> u32 \<Rightarrow>
    ('s, split_result option) sr" where
  "split_internal crc crc_append ops left_page left_node new_key new_left_child =
    (let pos = partition_point (\<lambda>(k, _). k \<le> new_key) (in_entries left_node);
         entries = insert_at pos (new_key, new_left_child) (in_entries left_node);
         m = length entries div 2;
         (promoted_key, promoted_left_child) = entries ! m;
         right_entries = drop (m + 1) entries;
         old_rightmost = in_rightmost_child left_node
     in
    sr_bind (op_alloc_internal ops) (\<lambda>right_page.
    sr_bind (sr_lift (internal_encode crc crc_append
      (left_node\<lparr>in_entries := take m entries, in_rightmost_child := promoted_left_child\<rparr>))) (\<lambda>left_enc.
    sr_bind (sr_lift (internal_encode crc crc_append
      \<lparr>in_level = in_level left_node, in_entries = right_entries, in_rightmost_child = old_rightmost\<rparr>)) (\<lambda>right_enc.
    sr_bind (op_write_internal ops left_page left_enc) (\<lambda>_.
    sr_bind (op_write_internal ops right_page right_enc) (\<lambda>_.
    sr_return (Some (promoted_key, right_page))))))))"

definition insert_into_internal :: "(bytes \<Rightarrow> u32) \<Rightarrow> (u32 \<Rightarrow> bytes \<Rightarrow> u32) \<Rightarrow> 's page_ops \<Rightarrow> u32 \<Rightarrow> bytes \<Rightarrow> u32 \<Rightarrow>
    ('s, split_result option) sr" where
  "insert_into_internal crc crc_append ops page promoted_key right_child =
    sr_bind (sr_get (\<lambda>s. op_read_internal ops s page)) (\<lambda>buf.
    sr_bind (sr_lift (internal_parse buf)) (\<lambda>node.
      let p = partition_point (\<lambda>(k, _). k \<le> promoted_key) (in_entries node);
          (left_child, node) = replace_child p right_child node
      in if internal_can_insert node (length promoted_key)
         then sr_bind (sr_lift (internal_encode crc crc_append
                (node\<lparr>in_entries := insert_at p (promoted_key, left_child) (in_entries node)\<rparr>))) (\<lambda>encoded.
           sr_bind (op_write_internal ops page encoded) (\<lambda>_. sr_return None))
         else split_internal crc crc_append ops page node promoted_key left_child))"

fun promotions_loop :: "(bytes \<Rightarrow> u32) \<Rightarrow> (u32 \<Rightarrow> bytes \<Rightarrow> u32) \<Rightarrow> 's page_ops \<Rightarrow> u32 \<Rightarrow> split_result list \<Rightarrow> split_result list \<Rightarrow>
    ('s, split_result list) sr" where
  "promotions_loop crc crc_append ops page out [] = sr_return out"
| "promotions_loop crc crc_append ops page out ((promoted_key, right_page) # rest) =
    (let idx = partition_point (\<lambda>(k, _). k \<le> promoted_key) out;
         target = (if idx = 0 then page else snd (out ! (idx - 1)))
     in sr_bind (insert_into_internal crc crc_append ops target promoted_key right_page) (\<lambda>split.
        promotions_loop crc crc_append ops page (case split of None \<Rightarrow> out | Some sr \<Rightarrow> insert_at idx sr out) rest))"

definition insert_promotions_into_internal :: "(bytes \<Rightarrow> u32) \<Rightarrow> (u32 \<Rightarrow> bytes \<Rightarrow> u32) \<Rightarrow> 's page_ops \<Rightarrow> u32 \<Rightarrow> split_result list \<Rightarrow>
    ('s, split_result list) sr" where
  "insert_promotions_into_internal crc crc_append ops page promotions = promotions_loop crc crc_append ops page [] promotions"

fun insert_subtree :: "(bytes \<Rightarrow> u32) \<Rightarrow> (u32 \<Rightarrow> bytes \<Rightarrow> u32) \<Rightarrow> 's page_ops \<Rightarrow> u32 \<Rightarrow> nat \<Rightarrow> bytes \<Rightarrow> cell_value \<Rightarrow>
    ('s, split_result list) sr" where
  "insert_subtree crc crc_append ops page 0 key value = insert_leaf crc crc_append ops page key value"
| "insert_subtree crc crc_append ops page (Suc level) key value =
    sr_bind (sr_get (\<lambda>s. op_read_internal ops s page)) (\<lambda>buf.
    sr_bind (sr_lift (internal_parse buf)) (\<lambda>node.
      let child_page = child_at node (find_child_idx node key) in
    sr_bind (insert_subtree crc crc_append ops child_page level key value) (\<lambda>child_splits.
      if child_splits = [] then sr_return []
      else insert_promotions_into_internal crc crc_append ops page child_splits)))"

text \<open>One promotion gives at most one split, so that the loop which grows the root ends.\<close>

lemma length_insert_at [simp]: "length (insert_at i x xs) = Suc (length xs)"
  by (simp add: insert_at_def)

lemma promotions_loop_length:
  "promotions_loop crc crc_append ops page out rest s = (Inr out', s') \<Longrightarrow> length out' \<le> length out + length rest"
  by (induction rest arbitrary: out s) (auto simp: Let_def sr_bind_ok split: option.splits, fastforce+)

text \<open>The level is a byte, whose increment is checked as a debug build checks it.\<close>

function grow_root :: "(bytes \<Rightarrow> u32) \<Rightarrow> (u32 \<Rightarrow> bytes \<Rightarrow> u32) \<Rightarrow> 's page_ops \<Rightarrow> btree \<Rightarrow> split_result list \<Rightarrow> ('s, btree) sr" where
  "grow_root crc crc_append ops bt [] s = (Inr bt, s)"
| "grow_root crc crc_append ops bt ((promoted_key, right_page) # splits) s =
    (case op_alloc_internal ops s of (Inl e, s) \<Rightarrow> (Inl e, s) | (Inr new_root, s) \<Rightarrow>
     case checked_add (root_level bt) 1 of None \<Rightarrow> (Inl (Panic ''attempt to add with overflow''), s) | Some new_level \<Rightarrow>
     case internal_encode crc crc_append
         \<lparr>in_level = new_level, in_entries = [(promoted_key, root_page bt)], in_rightmost_child = right_page\<rparr> of
       Inl e \<Rightarrow> (Inl e, s) | Inr buf \<Rightarrow>
     case op_write_internal ops new_root buf s of (Inl e, s) \<Rightarrow> (Inl e, s) | (Inr _, s) \<Rightarrow>
     case insert_promotions_into_internal crc crc_append ops new_root splits s of
       (Inl e, s) \<Rightarrow> (Inl e, s)
     | (Inr splits', s) \<Rightarrow> grow_root crc crc_append ops \<lparr>root_page = new_root, root_level = new_level\<rparr> splits' s)"
  by pat_completeness auto
termination
proof (relation "measure (\<lambda>(crc, crc_append, ops, bt, splits, s). length splits)", goal_cases)
  case (2 crc crc_append ops bt promoted_key right_page splits s x1 s1 new_root new_level buf x2 s2 u x3 s3 splits')
  then have "insert_promotions_into_internal crc crc_append ops new_root splits s2 = (Inr splits', s3)" by simp
  then show ?case using promotions_loop_length [of crc crc_append ops new_root "[]" splits s2 splits' s3]
    by (simp add: insert_promotions_into_internal_def)
qed simp

definition tree_insert :: "(bytes \<Rightarrow> u32) \<Rightarrow> (u32 \<Rightarrow> bytes \<Rightarrow> u32) \<Rightarrow> 's page_ops \<Rightarrow> btree \<Rightarrow> bytes \<Rightarrow> bytes \<Rightarrow> ('s, btree) sr" where
  "tree_insert crc crc_append ops bt key value =
    sr_bind (stored_value crc crc_append ops value) (\<lambda>cell_value.
    sr_bind (insert_subtree crc crc_append ops (root_page bt) (unat (root_level bt)) key cell_value) (\<lambda>splits.
    grow_root crc crc_append ops bt splits))"

definition replace_existing :: "(bytes \<Rightarrow> u32) \<Rightarrow> (u32 \<Rightarrow> bytes \<Rightarrow> u32) \<Rightarrow> 's page_ops \<Rightarrow> btree \<Rightarrow> bytes \<Rightarrow> bytes \<Rightarrow> ('s, bool) sr" where
  "replace_existing crc crc_append ops bt key value =
    sr_bind (sr_get (\<lambda>s. find_leaf ops s bt key)) (\<lambda>leaf_page.
    sr_bind (sr_get (\<lambda>s. op_read_leaf ops s leaf_page)) (\<lambda>(buf, _).
    sr_bind (sr_lift (parse buf)) (\<lambda>node.
      case binary_search (ln_cells node) key of
        Inl _ \<Rightarrow> sr_return False
      | Inr idx \<Rightarrow>
          sr_bind (stored_value crc crc_append ops value) (\<lambda>cell_value.
            let old_value = cell_val (ln_cells node ! idx);
                node = node\<lparr>ln_cells := (ln_cells node)[idx := (ln_cells node ! idx)\<lparr>cell_val := cell_value\<rparr>]\<rparr>
            in
          sr_bind (case old_value of Cell_Overflow first_page _ \<Rightarrow> free_overflow_chain ops first_page | Cell_Inline _ \<Rightarrow> sr_return ()) (\<lambda>_.
          sr_bind (sr_lift (encode crc crc_append node)) (\<lambda>encoded.
          sr_bind (op_write_leaf ops leaf_page encoded) (\<lambda>_. sr_return True)))))))"

section \<open>The groups of a leaf split\<close>

text \<open>The bytes of a list of cells on a page, and the cuts both sides of which fit one.\<close>

definition fits_leaf :: "leaf_cell list \<Rightarrow> bool" where
  "fits_leaf cells \<longleftrightarrow> used_bytes_for_cells cells \<le> PAGE_SIZE_LEAF"

definition footprint :: "leaf_cell list \<Rightarrow> nat" where
  "footprint cells = sum_list (map (\<lambda>c. encoded_size c + 2) cells)"

definition cut_fits :: "leaf_cell list \<Rightarrow> nat \<Rightarrow> bool" where
  "cut_fits cells i \<longleftrightarrow> 0 < i \<and> i < length cells \<and> fits_leaf (take i cells) \<and> fits_leaf (drop i cells)"

definition score_at :: "leaf_cell list \<Rightarrow> nat \<Rightarrow> nat \<Rightarrow> nat \<times> nat \<times> nat" where
  "score_at cells l i = cut_score (used_bytes_for_cells (take i cells)) (used_bytes_for_cells (drop i cells)) i l"

lemma footprint_simps [simp]:
  "footprint [] = 0"
  "footprint (c # cs) = encoded_size c + 2 + footprint cs"
  "footprint (cs @ ds) = footprint cs + footprint ds"
  by (simp_all add: footprint_def)

lemma used_footprint: "used_bytes_for_cells cs = LEAF_HEADER_SIZE + footprint cs"
  unfolding used_bytes_for_cells_def footprint_def by (induction cs) simp_all

lemma prefix_sums_nth: "i \<le> length xs \<Longrightarrow> prefix_sums acc xs ! i = acc + sum_list (take i xs)"
proof (induction xs arbitrary: acc i)
  case (Cons x xs)
  then show ?case by (cases i) auto
qed simp

text \<open>The running sums give each side what \<open>used_bytes_for_cells\<close> counts for it, and the cut
  chosen is the first of the cuts of the least score.\<close>

lemma prefix_used:
  assumes "i \<le> length cells"
  shows "LEAF_HEADER_SIZE + i * 2 + prefix_sums 0 (map encoded_size cells) ! i = used_bytes_for_cells (take i cells)"
    "LEAF_HEADER_SIZE + (length cells - i) * 2 +
       (prefix_sums 0 (map encoded_size cells) ! length cells - prefix_sums 0 (map encoded_size cells) ! i) =
     used_bytes_for_cells (drop i cells)"
proof -
  have "sum_list (map encoded_size cells) = sum_list (map encoded_size (take i cells)) + sum_list (map encoded_size (drop i cells))"
    by (metis append_take_drop_id map_append sum_list_append)
  then show "LEAF_HEADER_SIZE + i * 2 + prefix_sums 0 (map encoded_size cells) ! i = used_bytes_for_cells (take i cells)"
    "LEAF_HEADER_SIZE + (length cells - i) * 2 +
       (prefix_sums 0 (map encoded_size cells) ! length cells - prefix_sums 0 (map encoded_size cells) ! i) =
     used_bytes_for_cells (drop i cells)"
    using assms by (simp_all add: prefix_sums_nth used_bytes_for_cells_def min_def take_map)
qed

definition best_among :: "leaf_cell list \<Rightarrow> nat \<Rightarrow> nat set \<Rightarrow> ((nat \<times> nat \<times> nat) \<times> nat) option \<Rightarrow> bool" where
  "best_among cells l D best \<longleftrightarrow> (case best of
     None \<Rightarrow> \<forall>j \<in> D. \<not> cut_fits cells j
   | Some b \<Rightarrow> cut_fits cells (snd b) \<and> fst b = score_at cells l (snd b) \<and>
       (\<forall>j \<in> D. cut_fits cells j \<longrightarrow> fst b \<le> score_at cells l j))"

lemma best_among_step:
  assumes "best_among cells l D best"
  shows "best_among cells l (insert i D) (if \<not> cut_fits cells i then best else case best of
      Some (b, s) \<Rightarrow> if b \<le> score_at cells l i then best else Some (score_at cells l i, i)
    | None \<Rightarrow> Some (score_at cells l i, i))"
proof (cases best)
  case None
  then show ?thesis using assms by (simp add: best_among_def)
next
  case (Some b)
  then show ?thesis
    using assms unfolding best_among_def by (cases "fst b \<le> score_at cells l i") (auto simp: case_prod_beta)
qed

lemma best_cut_spec:
  assumes "set is \<subseteq> {0<..<length cells}" "best_among cells l D best"
  shows "best_among cells l (D \<union> set is) (best_cut (prefix_sums 0 (map encoded_size cells)) (length cells) l best is)"
  using assms
proof (induction "is" arbitrary: best D)
  case (Cons i "is")
  have i: "0 < i" "i < length cells" "set is \<subseteq> {0<..<length cells}" using Cons.prems(1) by auto
  have "best_cut (prefix_sums 0 (map encoded_size cells)) (length cells) l best (i # is) =
      best_cut (prefix_sums 0 (map encoded_size cells)) (length cells) l (if \<not> cut_fits cells i then best else case best of
        Some (b, s) \<Rightarrow> if b \<le> score_at cells l i then best else Some (score_at cells l i, i)
      | None \<Rightarrow> Some (score_at cells l i, i)) is"
    using i prefix_used [of i cells] unfolding score_at_def by (simp add: cut_fits_def fits_leaf_def Let_def not_le)
  then show ?case using Cons.IH [OF i(3) best_among_step [OF Cons.prems(2)], of i] by simp
qed simp

lemma choose_split_spec:
  "case choose_leaf_redistribution_split cells l of
     None \<Rightarrow> \<forall>i. \<not> cut_fits cells i
   | Some i \<Rightarrow> cut_fits cells i \<and> (\<forall>j. cut_fits cells j \<longrightarrow> score_at cells l i \<le> score_at cells l j)"
proof -
  have "set [1..<length cells] \<subseteq> {0<..<length cells}" by auto
  from best_cut_spec [OF this, of l "{}" None]
  have spec: "best_among cells l {1..<length cells}
      (best_cut (prefix_sums 0 (map encoded_size cells)) (length cells) l None [1..<length cells])" (is "best_among _ _ _ ?b")
    by (simp add: best_among_def)
  have inside: "cut_fits cells i \<Longrightarrow> i \<in> {1..<length cells}" for i by (simp add: cut_fits_def)
  show ?thesis
  proof (cases ?b)
    case None
    then have "\<forall>i. \<not> cut_fits cells i" using spec inside unfolding best_among_def by (simp only: option.case) blast
    then show ?thesis unfolding choose_leaf_redistribution_split_def None option.map option.case .
  next
    case (Some b)
    have b: "cut_fits cells (snd b)" "fst b = score_at cells l (snd b)"
        "\<forall>j \<in> {1..<length cells}. cut_fits cells j \<longrightarrow> fst b \<le> score_at cells l j"
      using spec unfolding Some best_among_def option.case by blast+
    have "cut_fits cells (snd b) \<and> (\<forall>j. cut_fits cells j \<longrightarrow> score_at cells l (snd b) \<le> score_at cells l j)"
      using b(1) b(3) [unfolded b(2)] inside by blast
    then show ?thesis unfolding choose_leaf_redistribution_split_def Some option.map option.case .
  qed
qed

text \<open>Packing from left to right: cells that fit the current group go there, and every group
  fits a page. A list of cells that fits a page opens at most one group more.\<close>

lemma pack_append:
  "used + footprint cs \<le> PAGE_SIZE_LEAF \<Longrightarrow>
   pack_loop groups cur used (cs @ ds) = pack_loop groups (cur @ cs) (used + footprint cs) ds"
proof (induction cs arbitrary: cur used)
  case (Cons c cs)
  have "used + (encoded_size c + 2) \<le> PAGE_SIZE_LEAF" using Cons.prems by simp
  then show ?case using Cons.IH [of "used + (encoded_size c + 2)" "cur @ [c]"] Cons.prems by (simp add: Let_def ac_simps)
qed simp

lemma pack_loop_ok:
  assumes "\<forall>c \<in> set cs. fits_leaf [c]" "\<forall>g \<in> set groups. g \<noteq> [] \<and> fits_leaf g" "used = used_bytes_for_cells cur" "fits_leaf cur"
  shows "\<exists>out. pack_loop groups cur used cs = Inr out \<and> concat out = concat groups @ cur @ cs \<and>
    (\<forall>g \<in> set out. g \<noteq> [] \<and> fits_leaf g)"
  using assms
proof (induction cs arbitrary: groups cur used)
  case (Cons c cs)
  have c: "LEAF_HEADER_SIZE + (encoded_size c + 2) \<le> PAGE_SIZE_LEAF" using Cons.prems(1) by (simp add: fits_leaf_def used_footprint)
  show ?case
  proof (cases "cur \<noteq> [] \<and> used + (encoded_size c + 2) > PAGE_SIZE_LEAF")
    case True
    have "\<exists>out. pack_loop (groups @ [cur]) [c] (LEAF_HEADER_SIZE + (encoded_size c + 2)) cs = Inr out \<and>
        concat out = concat (groups @ [cur]) @ [c] @ cs \<and> (\<forall>g \<in> set out. g \<noteq> [] \<and> fits_leaf g)"
      by (rule Cons.IH) (use Cons.prems True in \<open>auto simp: used_footprint\<close>)
    then show ?thesis using True c by (simp add: Let_def)
  next
    case False
    then have "used + (encoded_size c + 2) \<le> PAGE_SIZE_LEAF"
      using Cons.prems(3) c by (cases "cur = []") (auto simp: used_footprint)
    moreover from this have "\<exists>out. pack_loop groups (cur @ [c]) (used + (encoded_size c + 2)) cs = Inr out \<and>
        concat out = concat groups @ (cur @ [c]) @ cs \<and> (\<forall>g \<in> set out. g \<noteq> [] \<and> fits_leaf g)"
      by (intro Cons.IH) (use Cons.prems in \<open>auto simp: used_footprint fits_leaf_def\<close>)
    ultimately show ?thesis using False by (simp add: Let_def)
  qed
qed auto

lemma pack_loop_count:
  "LEAF_HEADER_SIZE + footprint cs \<le> PAGE_SIZE_LEAF \<Longrightarrow> cur \<noteq> [] \<Longrightarrow> pack_loop groups cur used cs = Inr out \<Longrightarrow>
   length out \<le> length groups + 2"
proof (induction cs arbitrary: cur used)
  case (Cons c cs)
  show ?case
  proof (cases "used + (encoded_size c + 2) > PAGE_SIZE_LEAF")
    case True
    then have "pack_loop (groups @ [cur]) [] LEAF_HEADER_SIZE ((c # cs) @ []) = Inr out"
      using Cons.prems by (simp add: Let_def split: if_splits)
    then show ?thesis using Cons.prems(1) by (subst (asm) pack_append) auto
  next
    case False
    then show ?thesis using Cons.IH [of "cur @ [c]" "used + (encoded_size c + 2)"] Cons.prems by (simp add: Let_def)
  qed
qed auto

lemma split_groups_ok:
  assumes "\<forall>c \<in> set cells. fits_leaf [c]"
  shows "\<exists>groups. split_groups cells = Inr groups \<and> concat groups = cells \<and> (\<forall>g \<in> set groups. g \<noteq> [] \<and> fits_leaf g)"
proof (cases "choose_leaf_redistribution_split cells (length cells div 2)")
  case None
  have "fits_leaf []" by (simp add: fits_leaf_def used_footprint LEAF_HEADER_SIZE_def PAGE_SIZE_LEAF_def)
  then show ?thesis
    using None pack_loop_ok [OF assms, of "[]" LEAF_HEADER_SIZE "[]"] by (auto simp: split_groups_def pack_cells_multiway_def used_footprint)
next
  case (Some i)
  then have "cut_fits cells i" using choose_split_spec [of cells "length cells div 2"] by simp
  then show ?thesis using Some by (auto simp: split_groups_def cut_fits_def)
qed

lemma split_groups_count:
  assumes "fits_leaf (cs @ ds)" "split_groups (cs @ c # ds) = Inr groups"
  shows "length groups \<le> 3"
proof (cases "choose_leaf_redistribution_split (cs @ c # ds) (length (cs @ c # ds) div 2)")
  case None
  have f: "LEAF_HEADER_SIZE + footprint cs \<le> PAGE_SIZE_LEAF" "LEAF_HEADER_SIZE + footprint ds \<le> PAGE_SIZE_LEAF"
    using assms(1) by (simp_all add: fits_leaf_def used_footprint)
  have "pack_loop [] cs (LEAF_HEADER_SIZE + footprint cs) (c # ds) = Inr groups"
    using assms(2) None pack_append [OF f(1), of "[]" "[]" "c # ds"] by (simp add: split_groups_def pack_cells_multiway_def)
  then have "(\<exists>used. pack_loop [cs] [c] used ds = Inr groups) \<or> (\<exists>used. pack_loop [] (cs @ [c]) used ds = Inr groups)"
    unfolding pack_loop.simps Let_def
    by (cases "cs \<noteq> [] \<and> LEAF_HEADER_SIZE + footprint cs + (encoded_size c + 2) > PAGE_SIZE_LEAF") (auto split: if_splits)
  then show ?thesis using pack_loop_count [OF f(2), of "[c]" "[cs]"] pack_loop_count [OF f(2), of "cs @ [c]" "[]"]
    by fastforce
qed (use assms(2) in \<open>auto simp: split_groups_def\<close>)

text \<open>Property C36. Whatever leaf that fits its page cannot take one more cell that would fit a page
  alone, the split always succeeds: it deals all cells, in order, to two or three pages, each of
  which gets at least one cell and no more bytes than a page has. So a leaf split promotes at
  most two separators.\<close>

theorem leaf_split_bounds:
  assumes "used_bytes n \<le> PAGE_SIZE_LEAF" "used_bytes_for_cells [c] \<le> PAGE_SIZE_LEAF"
    "\<not> can_insert n (encoded_size c)" "i \<le> length (ln_cells n)"
  shows "\<exists>groups. split_groups (insert_at i c (ln_cells n)) = Inr groups \<and>
    concat groups = insert_at i c (ln_cells n) \<and> 2 \<le> length groups \<and> length groups \<le> 3 \<and>
    (\<forall>g \<in> set groups. g \<noteq> [] \<and> used_bytes_for_cells g \<le> PAGE_SIZE_LEAF)"
proof -
  let ?cells = "insert_at i c (ln_cells n)"
  have fits: "fits_leaf (take i (ln_cells n) @ drop i (ln_cells n))" using assms(1) by (simp add: fits_leaf_def used_bytes_def)
  have "fits_leaf [d]" if "d \<in> set (ln_cells n)" for d
    using member_le_sum_list [of "encoded_size d + 2" "map (\<lambda>c. encoded_size c + 2) (ln_cells n)"] that assms(1)
    by (simp add: fits_leaf_def used_bytes_def used_footprint footprint_def)
  then have "\<forall>d \<in> set ?cells. fits_leaf [d]"
    using assms(2) by (auto simp: insert_at_def fits_leaf_def dest: in_set_takeD in_set_dropD)
  then obtain groups where g: "split_groups ?cells = Inr groups" "concat groups = ?cells" "\<forall>g \<in> set groups. g \<noteq> [] \<and> fits_leaf g"
    using split_groups_ok by blast
  have "length groups \<le> 3" by (rule split_groups_count [OF fits]) (use g(1) in \<open>simp add: insert_at_def\<close>)
  moreover have "2 \<le> length groups"
  proof (rule ccontr)
    assume "\<not> 2 \<le> length groups"
    then consider "groups = []" | g0 where "groups = [g0]" by (cases groups; cases "tl groups") auto
    then have "fits_leaf ?cells" using g(2,3) by cases (auto simp: insert_at_def)
    moreover have "footprint (take i (ln_cells n)) + footprint (drop i (ln_cells n)) = footprint (ln_cells n)"
      by (simp flip: footprint_simps(3))
    ultimately show False
      using assms(1,3) by (simp add: fits_leaf_def used_footprint insert_at_def can_insert_def free_bytes_def used_bytes_def)
  qed
  ultimately show ?thesis using g by (auto simp: fits_leaf_def)
qed

theorem leaf_split_bounds_witness:
  "\<exists>groups. split_groups (insert_at 1 \<lparr>cell_key = [7], cell_val = Cell_Inline (replicate 20000 0)\<rparr>
      [\<lparr>cell_key = [5], cell_val = Cell_Inline (replicate 15000 0)\<rparr>, \<lparr>cell_key = [9], cell_val = Cell_Inline (replicate 15000 0)\<rparr>]) = Inr groups \<and>
    2 \<le> length groups \<and> length groups \<le> 3"
  using leaf_split_bounds [of "\<lparr>ln_flags = 0, ln_next_leaf_page = 0, ln_prev_leaf_page = 0, ln_cells =
        [\<lparr>cell_key = [5], cell_val = Cell_Inline (replicate 15000 0)\<rparr>, \<lparr>cell_key = [9], cell_val = Cell_Inline (replicate 15000 0)\<rparr>]\<rparr>"
      "\<lparr>cell_key = [7], cell_val = Cell_Inline (replicate 20000 0)\<rparr>" 1]
  by (auto simp: used_bytes_def used_footprint can_insert_def free_bytes_def encoded_size_def leaf_cell_encoded_size_def
      LEAF_HEADER_SIZE_def PAGE_SIZE_LEAF_def)

end
