(* ===== verification/Spec2Isabelle.thy ===== *)
theory Spec2Isabelle
  imports Publish_Sequencer Leaf_Frame Read_Views Key_Range History_Store Checkpoint Tree_Insert
begin

text \<open>
  Verification library for mqlite, an embedded document store with a MongoDB surface (crate
  sources under \<open>src/src\<close>).

  \<^bold>\<open>The program.\<close> Documents are cells of B+ trees, one tree for each collection and each index,
  in one file of pages. A key is the order-preserving encoding of a BSON value. Each leaf in
  memory carries, for each key, a chain of versions newer than the cell on the page. A writer
  puts a pending version at the head of a chain, registers with the publish sequencer, which
  gives it a commit timestamp, and flips the version to committed; the sequencer then moves
  the frontier that readers open their views at. A reader finds for a key the newest version
  its view sees: in the chain, in the history store, or in the cell. A checkpoint folds the
  chains into the pages and spills the versions that open views may still need to the history
  store, which is a tree of its own. Pages come from an allocator with two free lists.

  \<^bold>\<open>The theories.\<close> Names are those of the sources, with a prefix where they would clash.

  \<^item> \<open>Mq_Prelude\<close>, \<open>Errors\<close>, \<open>State_Result\<close>, \<open>Sorted_Map\<close>: byte codecs, the error type of
    \<open>error.rs\<close>, fallible operations on a state, and \<open>BTreeMap\<close> with its contract as a locale.
  \<^item> \<open>Timestamp\<close> (\<open>mvcc/timestamp.rs\<close>): timestamps, the oracle, the seqlock cell. Timestamps
    handed out increase, a load is never torn, and the byte image sorts like the timestamp.
  \<^item> \<open>Publish_Sequencer\<close> (\<open>storage/paged_engine/publish_sequencer.rs\<close>): each operation as one
    step under the lock, and the step relation of threads that use it. In every reachable state
    the frontier covers only finished commits, it never moves back, and a failed publish stops
    it for good.
  \<^item> \<open>Version_Chain\<close> (\<open>mvcc/version.rs\<close>, \<open>mvcc/chain_snapshot.rs\<close>, \<open>mvcc/transaction.rs\<close>) and
    \<open>Leaf_Frame\<close> (\<open>storage/buffer_pool/latched_page.rs\<close>, \<open>chains.rs\<close>,
    \<open>storage/paged_engine/pending_install.rs\<close>): visibility, installation, commit and abort of a
    version; the chains of a leaf with their running byte count, and the two-phase flip.
  \<^item> \<open>Read_Views\<close> (\<open>mvcc/registry.rs\<close>, \<open>mvcc/read_view.rs\<close>,
    \<open>storage/paged_engine/snapshot_ops/read_exec.rs\<close>): the registry, the protocol that opens a
    view and the forced expiry, as step relations. An open view holds the reclamation horizon.
  \<^item> \<open>Bson\<close>, \<open>Key_Encoding\<close>, \<open>Key_Order\<close>, \<open>Key_Range\<close> (\<open>keys/mod.rs\<close>): the encoders against a
    reference order of values, compound keys, and the prefix range of a unique index.
  \<^item> \<open>Pages\<close>, \<open>Leaf_Node\<close>, \<open>Internal_Node\<close>, \<open>File_Header\<close> (\<open>storage/page.rs\<close>,
    \<open>storage/btree/leaf_node.rs\<close>, \<open>internal_node.rs\<close>, \<open>layout.rs\<close>, \<open>storage/header.rs\<close>): the page
    images, their round trips and the search on the bytes of a leaf.
  \<^item> \<open>Allocator\<close> (\<open>storage/allocator\<close>, \<open>mvcc/deferred_free.rs\<close>): the ledger of pages in use and
    free, reference counts of overflow pages and the deferred frees.
  \<^item> \<open>Page_Store\<close> (\<open>storage/btree/store.rs\<close>, \<open>storage/btree_store.rs\<close>): the trait as a record of
    operations, its contract as the locale \<open>page_store\<close>, interpreted by the store over the pool
    and by the one in memory. All tree theories work from that contract.
  \<^item> \<open>Overflow_Chain\<close> (\<open>storage/btree/overflow.rs\<close>): large values, from write to free.
  \<^item> \<open>Tree_Shape\<close>, \<open>Tree_Read\<close>, \<open>Tree_Scan\<close> (\<open>storage/btree/mod.rs\<close>, \<open>scan.rs\<close>): when a store
    holds a tree, descents, point reads and scans. A scan is the point reads of its range.
  \<^item> \<open>Tree_Insert\<close> (\<open>storage/btree/insert.rs\<close>, \<open>chain_migration.rs\<close>, and the choice of a cut in
    \<open>delete.rs\<close>): insertion with all splits. The groups a full leaf is dealt to always fit.
  \<^item> \<open>History_Store\<close> (\<open>storage/history_store.rs\<close>, \<open>history_store/codec.rs\<close>): spills, probes and
    garbage collection over an ordered map that stands for the history tree.
  \<^item> \<open>Reconcile\<close> (\<open>storage/reconcile/synth.rs\<close>, \<open>storage/btree/reconcile.rs\<close>) and \<open>Checkpoint\<close>
    (\<open>storage/reconcile/driver.rs\<close>, \<open>storage/buffer_pool/reconcile_access.rs\<close>): folding a leaf
    and the whole pass, which changes no read that is above the horizon and covered by the
    chain of its key.

  Some theorems state what the code does wrong on a concrete input, each after its own text:
  colliding nested keys, a skipper that runs past a \<open>DbPointer\<close>, spills too large to be read
  back, and two ways in which a reader loses a version to a checkpoint.

  \<^bold>\<open>Bounds and fuel.\<close> Machine integers are words and wrap or are checked as in the code; the
  increments of the tree level and of the page counter of the test store are checked, as in a
  debug build, and \<open>debug_assert\<close> is off. Skipping an encoded key has a fuel of twice the
  key's length, which is shown to be enough. Overflow walks carry the page budget of the code.
  The loop that grows the root ends because each round consumes a promotion. A walk along the
  leaf list is a \<open>partial_function\<close>, shown to return on every tree.

  \<^bold>\<open>Parameters.\<close> The \<open>crc32c\<close> routines, the clock, the publish closures and the outcome of flushes
  to disk are arguments of the definitions that use them.

  \<^bold>\<open>Not modelled.\<close> Concurrency is modelled only where a protocol is about it (sequencer, seqlock,
  flip, registry); latches, pins, eviction and file locks protect content and do not change it.
  The journal, its recovery and the structural page batch are file formats and I/O around the
  trees. Deletion from a tree, the catalog, DDL, secondary index maintenance and document
  operations are the layer above the modelled one. Filters, expressions, aggregation and
  updates work on documents of the \<open>bson\<close> crate. The wire server and
  the client surface call the engine, and metrics count; they keep no part of the stored data.
\<close>

end
